(* ===== verification/Aesd_Prelude.thy ===== *)
theory Aesd_Prelude
  imports Main "HOL-Library.Word" "HOL-Library.Monad_Syntax"
begin

text \<open>
  What the components share: the C types at their widths, pointers, checked array access,
  the list functions in which the abstract specifications are written (the newest \<open>n\<close>
  elements of a log, the complete lines of a byte stream, the position of a byte in a
  concatenation) and their lemmas.

  Conventions of the whole development. \<open>None\<close> as the outcome of an operation means that
  the C code has undefined behaviour there (an index outside an array, a dangling or null
  pointer dereferenced, a block freed twice, a lock taken twice by its holder); error
  returns of the code are values inside \<open>Some\<close>. A C pointer to an allocation is a
  \<open>ptr\<close>, where \<open>None\<close> is the null pointer.
\<close>

section \<open>C types\<close>

type_synonym byte = char
type_synonym u8 = "8 word"
type_synonym u32 = "32 word"
type_synonym u64 = "64 word"
type_synonym ptr = "nat option"

abbreviation NULL :: ptr where
  "NULL \<equiv> None"

abbreviation newline :: byte where
  "newline \<equiv> CHR 0x0A"

abbreviation nul :: byte where
  "nul \<equiv> CHR 0x00"

named_theorems word_nat \<open>arithmetic on words read through \<open>unat\<close>, under the bounds that exclude wrap-around\<close>

lemma unat_u64_lt [simp]: "unat (w :: u64) < 18446744073709551616"
  using unsigned_less [of w] by simp

lemma unat_add_u64 [word_nat]:
  "unat (a :: u64) + unat b < 18446744073709551616 \<Longrightarrow> unat (a + b) = unat a + unat b"
  by (simp add: unat_word_ariths)

lemma unat_sub_u64 [word_nat]:
  "unat (b :: u64) \<le> unat a \<Longrightarrow> unat (a - b) = unat a - unat b"
  by (simp add: unat_sub_if_size)

lemma unat_of_nat_u64 [word_nat]:
  "n < 18446744073709551616 \<Longrightarrow> unat (of_nat n :: u64) = n"
  by (simp add: unat_of_nat take_bit_nat_eq_self_iff)

lemma unat_ucast_u8_u64 [simp]: "unat (ucast (w :: u8) :: u64) = unat w"
  using unsigned_less [of w, where 'a = nat]
  by (simp add: unsigned_ucast_eq take_bit_nat_eq_self)

lemma unat_ucast_u32_u64 [simp]: "unat (ucast (w :: u32) :: u64) = unat w"
  using unsigned_less [of w, where 'a = nat]
  by (simp add: unsigned_ucast_eq take_bit_nat_eq_self)

lemma word_diff_of_nat:
  "unat (b :: u64) \<le> unat a \<Longrightarrow> a - b = of_nat (unat a - unat b)"
  by (simp flip: unat_sub_u64)

text \<open>A position in an interval given by base and length is less than the length away from the base,
  even if the end of the interval wraps around.\<close>

lemma offset_in_interval:
  assumes "(b :: u64) \<le> c" and "c < b + n"
  shows "c - b < n"
proof -
  have "unat (b + n) \<le> unat b + unat n" by (simp add: unat_word_ariths)
  moreover have "unat b \<le> unat c" "unat c < unat (b + n)"
    using assms by (simp_all add: word_le_nat_alt word_less_nat_alt)
  ultimately show ?thesis by (simp add: word_less_nat_alt word_nat)
qed

lemma unat_u64_Suc: "unat (i :: u64) < unat (n :: u64) \<Longrightarrow> unat (i + 1) = Suc (unat i)"
  using unat_u64_lt [of n] by (simp add: word_nat del: unat_u64_lt)

text \<open>Indices of a ring of ten slots.\<close>

lemma ring_last: "(i :: nat) < 10 \<Longrightarrow> (i + 1) mod 10 = 0 \<longleftrightarrow> i = 9"
  by presburger

lemma ring_other: "(i :: nat) < 10 \<Longrightarrow> j < 9 \<Longrightarrow> (i + 1 + j) mod 10 \<noteq> i"
proof -
  assume "i < 10" "j < 9"
  moreover from this have "(i + 1 + j) mod 10 = (if i + 1 + j < 10 then i + 1 + j else i + 1 + j - 10)"
    by (simp add: mod_if)
  ultimately show ?thesis by (auto split: if_splits)
qed

section \<open>Checked array access\<close>

definition array_get :: "'a list \<Rightarrow> nat \<Rightarrow> 'a option" where
  "array_get xs i = (if i < length xs then Some (xs ! i) else None)"

definition array_set :: "'a list \<Rightarrow> nat \<Rightarrow> 'a \<Rightarrow> 'a list option" where
  "array_set xs i x = (if i < length xs then Some (xs[i := x]) else None)"

lemma array_get_in [simp]: "i < length xs \<Longrightarrow> array_get xs i = Some (xs ! i)"
  by (simp add: array_get_def)

lemma array_set_in [simp]: "i < length xs \<Longrightarrow> array_set xs i x = Some (xs[i := x])"
  by (simp add: array_set_def)

section \<open>The newest elements of a log\<close>

definition last_n :: "nat \<Rightarrow> 'a list \<Rightarrow> 'a list" where
  "last_n n xs = drop (length xs - n) xs"

lemma last_n_all [simp]: "length xs \<le> n \<Longrightarrow> last_n n xs = xs"
  by (simp add: last_n_def)

lemma length_last_n [simp]: "length (last_n n xs) = min n (length xs)"
  by (simp add: last_n_def)

lemma last_n_append_last_n [simp]: "last_n n (last_n n xs @ ys) = last_n n (xs @ ys)"
  by (cases "length xs \<le> n") (auto simp: last_n_def algebra_simps)

lemma last_n_snoc_full:
  "length (x # xs) = n \<Longrightarrow> last_n n ((x # xs) @ [y]) = xs @ [y]"
  by (auto simp: last_n_def)

lemma map_last_n: "map f (last_n n xs) = last_n n (map f xs)"
  by (simp add: last_n_def drop_map)

lemma set_last_n: "x \<in> set (last_n n xs) \<Longrightarrow> x \<in> set xs"
  by (auto simp: last_n_def dest: in_set_dropD)

section \<open>The complete lines of a byte stream\<close>

text \<open>
  \<open>split_lines bs\<close> is the list of the complete lines of \<open>bs\<close>, each with its newline, and
  the unfinished rest after the last newline.
\<close>

fun split_lines :: "byte list \<Rightarrow> byte list list \<times> byte list" where
  "split_lines [] = ([], [])"
| "split_lines (c # cs) =
     (case split_lines cs of (ls, p) \<Rightarrow>
        if c = newline then ([newline] # ls, p)
        else (case ls of [] \<Rightarrow> ([], c # p) | l # ls' \<Rightarrow> ((c # l) # ls', p)))"

definition is_line :: "byte list \<Rightarrow> bool" where
  "is_line l \<longleftrightarrow> l \<noteq> [] \<and> last l = newline \<and> newline \<notin> set (butlast l)"

lemma split_lines_no_newline:
  "newline \<notin> set bs \<Longrightarrow> split_lines bs = ([], bs)"
  by (induction bs) auto

lemma split_lines_newline:
  "newline \<notin> set pre \<Longrightarrow>
   split_lines (pre @ newline # rest) =
     ((pre @ [newline]) # fst (split_lines rest), snd (split_lines rest))"
  by (induction pre) (auto split: prod.split)

lemma split_lines_concat: "concat (fst (split_lines bs)) @ snd (split_lines bs) = bs"
  by (induction bs) (auto split: prod.split list.split)

lemma split_lines_rest: "newline \<notin> set (snd (split_lines bs))"
  by (induction bs) (auto split: prod.split list.split)

lemma split_lines_are_lines: "l \<in> set (fst (split_lines bs)) \<Longrightarrow> is_line l"
proof (induction bs arbitrary: l)
  case Nil
  then show ?case by simp
next
  case (Cons c cs)
  show ?case
  proof (cases "c = newline")
    case True
    with Cons show ?thesis by (auto simp: is_line_def split: prod.splits)
  next
    case False
    show ?thesis
    proof (cases "fst (split_lines cs)")
      case Nil
      with False Cons.prems show ?thesis by (auto split: prod.splits)
    next
      case (Cons l' ls')
      have ok: "is_line l'" by (rule Cons.IH) (simp add: Cons)
      have "l = c # l' \<or> l \<in> set ls'"
        using False Cons.prems Cons by (auto split: prod.splits)
      then show ?thesis
      proof
        assume "l = c # l'"
        with ok False show ?thesis by (auto simp: is_line_def)
      next
        assume "l \<in> set ls'"
        then show ?thesis by (intro Cons.IH) (simp add: Cons)
      qed
    qed
  qed
qed

text \<open>Splitting in two steps: what is left of the first part goes before the second.\<close>

lemma split_lines_append:
  "split_lines (a @ b) =
     (fst (split_lines a) @ fst (split_lines (snd (split_lines a) @ b)),
      snd (split_lines (snd (split_lines a) @ b)))"
  by (induction a) (auto split: prod.splits list.splits)

text \<open>Lines put together again: complete lines are what splitting gives back.\<close>

lemma split_lines_line: "is_line l \<Longrightarrow> split_lines (l @ bs) = (l # fst (split_lines bs), snd (split_lines bs))"
proof -
  assume "is_line l"
  then obtain pre where "l = pre @ [newline]" "newline \<notin> set pre"
    by (metis append_butlast_last_id is_line_def)
  then show ?thesis using split_lines_newline [of pre bs] by simp
qed

lemma split_lines_lines:
  "\<forall>l\<in>set ls. is_line l \<Longrightarrow> split_lines (concat ls @ bs) = (ls @ fst (split_lines bs), snd (split_lines bs))"
  by (induction ls) (simp_all add: split_lines_line)

lemma take_append_take_drop: "k \<le> length xs \<Longrightarrow> take (k + j) (xs @ ys) = take k xs @ take j (drop k xs @ ys)"
  by (simp only: take_add) simp

lemma drop_append_drop: "k \<le> length xs \<Longrightarrow> drop (k + j) (xs @ ys) = drop j (drop k xs @ ys)"
  by (simp add: add.commute flip: drop_drop)

end
