(* ===== verification/Thread_List.thy ===== *)
theory Thread_List
  imports Aesd_Prelude
begin

text \<open>
  The list of threads of \<^verbatim>\<open>server/aesdsocket.c\<close>: \<^verbatim>\<open>struct linked_list_node\<close>, \<^verbatim>\<open>add_node\<close> and
  \<^verbatim>\<open>remove_node\<close>, on a heap of nodes. \<open>None\<close> is undefined behaviour, a loop that does not
  end, or waiting for ever in \<^verbatim>\<open>pthread_join\<close>; the proofs exclude the first two.
\<close>

section \<open>State\<close>

record linked_list_node =
  thread_id :: nat
  next_ptr :: ptr

text \<open>
  \<open>joined\<close> are the threads that have been joined, in order; \<open>threads_locked\<close> is
  \<^verbatim>\<open>mutex_for_threads\<close>.
\<close>

record thread_state =
  nodes :: "nat \<rightharpoonup> linked_list_node"
  thread_list :: ptr
  threads_locked :: bool
  joined :: "nat list"

definition threads_lock :: "thread_state \<Rightarrow> thread_state option" where
  "threads_lock s = (if threads_locked s then None else Some (s\<lparr>threads_locked := True\<rparr>))"

definition threads_unlock :: "thread_state \<Rightarrow> thread_state option" where
  "threads_unlock s = (if threads_locked s then Some (s\<lparr>threads_locked := False\<rparr>) else None)"

section \<open>Operations\<close>

text \<open>\<^verbatim>\<open>while (current->next) current = current->next;\<close>\<close>

partial_function (option) last_node :: "(nat \<rightharpoonup> linked_list_node) \<Rightarrow> nat \<Rightarrow> nat option" where
  "last_node h current = do {
     n \<leftarrow> h current;
     case next_ptr n of None \<Rightarrow> Some current | Some q \<Rightarrow> last_node h q
   }"

declare last_node.simps [code]

text \<open>\<open>fresh\<close> is the address that \<^verbatim>\<open>malloc\<close> returns, null on failure.\<close>

definition add_node :: "ptr \<Rightarrow> nat \<Rightarrow> thread_state \<Rightarrow> thread_state option" where
  "add_node fresh i s =
     (case fresh of
        None \<Rightarrow> Some s
      | Some a \<Rightarrow> do {
          let s1 = s\<lparr>nodes := (nodes s)(a \<mapsto> \<lparr>thread_id = i, next_ptr = NULL\<rparr>)\<rparr>;
          s2 \<leftarrow> threads_lock s1;
          s3 \<leftarrow> (case thread_list s2 of
                   None \<Rightarrow> Some (s2\<lparr>thread_list := Some a\<rparr>)
                 | Some p \<Rightarrow> do {
                     current \<leftarrow> last_node (nodes s2) p;
                     n \<leftarrow> nodes s2 current;
                     Some (s2\<lparr>nodes := (nodes s2)(current \<mapsto> n\<lparr>next_ptr := Some a\<rparr>)\<rparr>)
                   });
          threads_unlock s3
        })"

text \<open>
  The loop that joins each thread and frees its node. \<open>ends\<close> are the threads that have ended or will:
  \<^verbatim>\<open>pthread_join\<close> of another (a client that waits in \<^verbatim>\<open>recv\<close> for a silent peer) does not return.
\<close>

partial_function (option) join_all :: "(nat \<Rightarrow> bool) \<Rightarrow> ptr \<Rightarrow> thread_state \<Rightarrow> thread_state option" where
  "join_all ends current s =
     (case current of
        None \<Rightarrow> Some s
      | Some a \<Rightarrow> do {
          n \<leftarrow> nodes s a;
          if ends (thread_id n) then
            join_all ends (next_ptr n) (s\<lparr>joined := joined s @ [thread_id n], nodes := (nodes s)(a := None)\<rparr>)
          else None
        })"

declare join_all.simps [code]

definition remove_node :: "(nat \<Rightarrow> bool) \<Rightarrow> thread_state \<Rightarrow> thread_state option" where
  "remove_node ends s = do {
     s1 \<leftarrow> threads_lock s;
     s2 \<leftarrow> join_all ends (thread_list s1) s1;
     threads_unlock (s2\<lparr>thread_list := NULL\<rparr>)
   }"

section \<open>The list in the heap\<close>

text \<open>\<open>linked h p xs\<close>: from \<open>p\<close> on there is a null-terminated list of the nodes at the addresses
  and with the thread ids of \<open>xs\<close>.\<close>

fun linked :: "(nat \<rightharpoonup> linked_list_node) \<Rightarrow> ptr \<Rightarrow> (nat \<times> nat) list \<Rightarrow> bool" where
  "linked h p [] \<longleftrightarrow> p = NULL"
| "linked h p ((a, i) # xs) \<longleftrightarrow> p = Some a \<and> (\<exists>q. h a = Some \<lparr>thread_id = i, next_ptr = q\<rparr> \<and> linked h q xs)"

definition thread_inv :: "(nat \<times> nat) list \<Rightarrow> thread_state \<Rightarrow> bool" where
  "thread_inv xs s \<longleftrightarrow> linked (nodes s) (thread_list s) xs \<and> distinct (map fst xs) \<and>
     dom (nodes s) = set (map fst xs) \<and> \<not> threads_locked s"

lemma linked_frame: "a \<notin> set (map fst xs) \<Longrightarrow> linked (h(a := v)) p xs = linked h p xs"
  by (induction h p xs rule: linked.induct) auto

lemma last_node_linked:
  "linked h (Some p) xs \<Longrightarrow> last_node h p = Some (fst (last xs)) \<and> xs \<noteq> []"
proof (induction xs arbitrary: p)
  case (Cons x xs)
  obtain a i where x: "x = (a, i)" by (cases x)
  with Cons.prems obtain q where q: "p = a" "h a = Some \<lparr>thread_id = i, next_ptr = q\<rparr>" "linked h q xs" by auto
  show ?case
  proof (cases q)
    case None
    with q x show ?thesis by (cases xs) (auto simp: last_node.simps [of h a])
  next
    case (Some b)
    with q have "last_node h b = Some (fst (last xs)) \<and> xs \<noteq> []" by (intro Cons.IH) simp
    with q x Some show ?thesis by (simp add: last_node.simps [of h a])
  qed
qed simp

lemma linked_snoc:
  assumes "linked h p xs" and "distinct (map fst xs)" and "h a = None" and "xs \<noteq> []"
    and "h (fst (last xs)) = Some n"
  shows "linked (h(a \<mapsto> \<lparr>thread_id = i, next_ptr = NULL\<rparr>, fst (last xs) \<mapsto> n\<lparr>next_ptr := Some a\<rparr>)) p (xs @ [(a, i)])"
  using assms
proof (induction xs arbitrary: p)
  case (Cons x xs)
  obtain b j where x: "x = (b, j)" by (cases x)
  let ?l = "fst (last (x # xs))"
  let ?h = "h(a \<mapsto> \<lparr>thread_id = i, next_ptr = NULL\<rparr>, ?l \<mapsto> n\<lparr>next_ptr := Some a\<rparr>)"
  from Cons.prems(1) x obtain q where q: "p = Some b" "h b = Some \<lparr>thread_id = j, next_ptr = q\<rparr>" "linked h q xs" by auto
  have ab: "a \<noteq> b" using q(2) Cons.prems(3) by auto
  show ?case
  proof (cases "xs = []")
    case True
    with q x ab Cons.prems(5) show ?thesis by auto
  next
    case False
    then have "fst (last xs) \<in> set (map fst xs)" by simp
    then have bl: "b \<noteq> fst (last xs)" using Cons.prems(2) x by auto
    have l: "fst (last (x # xs)) = fst (last xs)" using False by simp
    have "linked ?h q (xs @ [(a, i)])"
      unfolding l by (rule Cons.IH [OF q(3) _ Cons.prems(3) False]) (use Cons.prems(2,5) l in simp_all)
    moreover have "?h b = Some \<lparr>thread_id = j, next_ptr = q\<rparr>" using q(2) ab bl l by simp
    ultimately show ?thesis unfolding x append_Cons linked.simps using q(1) by blast
  qed
qed simp

lemma join_all_linked:
  "linked (nodes s) p xs \<Longrightarrow> distinct (map fst xs) \<Longrightarrow>
   join_all ends p s =
     (if \<forall>i\<in>set (map snd xs). ends i
      then Some (s\<lparr>joined := joined s @ map snd xs, nodes := nodes s |` (- set (map fst xs))\<rparr>) else None)"
proof (induction xs arbitrary: p s)
  case Nil
  have "nodes s |` UNIV = nodes s" by (simp add: restrict_map_def)
  with Nil show ?case by (simp add: join_all.simps)
next
  case (Cons x xs)
  obtain a i where x: "x = (a, i)" by (cases x)
  with Cons.prems obtain q where q: "p = Some a" "nodes s a = Some \<lparr>thread_id = i, next_ptr = q\<rparr>" "linked (nodes s) q xs"
    by auto
  let ?s = "s\<lparr>joined := joined s @ [i], nodes := (nodes s)(a := None)\<rparr>"
  have a: "a \<notin> set (map fst xs)" using Cons.prems(2) x by simp
  have "join_all ends q ?s =
      (if \<forall>i\<in>set (map snd xs). ends i
       then Some (?s\<lparr>joined := joined ?s @ map snd xs, nodes := nodes ?s |` (- set (map fst xs))\<rparr>) else None)"
  proof (rule Cons.IH)
    show "linked (nodes ?s) q xs" using linked_frame [OF a, of "nodes s" None q] q(3) by simp
    show "distinct (map fst xs)" using Cons.prems(2) by simp
  qed
  moreover have "((nodes s)(a := None)) |` (- set (map fst xs)) = nodes s |` (- set (map fst (x # xs)))"
    using x by (auto simp: restrict_map_def fun_eq_iff)
  moreover have "join_all ends p s = (if ends i then join_all ends q ?s else None)"
    using q x by (simp add: join_all.simps [of ends "Some a"])
  ultimately show ?case using x by simp
qed

lemma add_node_correct:
  assumes "thread_inv xs s" and "\<forall>a. fresh = Some a \<longrightarrow> nodes s a = None"
  shows "\<exists>s'. add_node fresh i s = Some s' \<and> joined s' = joined s \<and>
    thread_inv (xs @ (case fresh of None \<Rightarrow> [] | Some a \<Rightarrow> [(a, i)])) s'"
proof (cases fresh)
  case None
  then show ?thesis using assms by (simp add: add_node_def)
next
  case (Some a)
  have inv: "linked (nodes s) (thread_list s) xs" "distinct (map fst xs)" "dom (nodes s) = set (map fst xs)"
    "\<not> threads_locked s" and a: "nodes s a = None"
    using assms Some by (simp_all add: thread_inv_def)
  have fresh': "a \<notin> set (map fst xs)" using inv(3) a by auto
  let ?h = "(nodes s)(a \<mapsto> \<lparr>thread_id = i, next_ptr = NULL\<rparr>)"
  show ?thesis
  proof (cases "thread_list s")
    case None
    then have "xs = []" using inv(1) by (cases xs) auto
    with None Some inv show ?thesis
      by (simp add: add_node_def threads_lock_def threads_unlock_def thread_inv_def)
  next
    case p: (Some p)
    have "linked ?h (Some p) xs" using linked_frame [OF fresh', of "nodes s"] inv(1) p by simp
    then have l: "last_node ?h p = Some (fst (last xs))" "xs \<noteq> []" using last_node_linked by blast+
    then have "fst (last xs) \<in> set (map fst xs)" by simp
    then obtain n where n: "nodes s (fst (last xs)) = Some n" "fst (last xs) \<noteq> a" "fst (last xs) \<in> dom (nodes s)"
      using inv(3) fresh' by (metis domD)
    let ?h' = "?h(fst (last xs) \<mapsto> n\<lparr>next_ptr := Some a\<rparr>)"
    have "linked ?h' (Some p) (xs @ [(a, i)])"
      using linked_snoc [OF inv(1,2) a l(2) n(1)] p by simp
    moreover have "dom ?h' = set (map fst (xs @ [(a, i)]))" using inv(3) n(3) by auto
    moreover have "distinct (map fst (xs @ [(a, i)]))" using inv(2) fresh' by simp
    moreover have "add_node fresh i s = Some (s\<lparr>nodes := ?h'\<rparr>)"
      using Some p inv(4) l(1) n(1,2) by (simp add: add_node_def threads_lock_def threads_unlock_def)
    ultimately show ?thesis using Some p inv(4) by (simp add: thread_inv_def)
  qed
qed

lemma remove_node_correct:
  assumes "thread_inv xs s"
  shows "if \<forall>i\<in>set (map snd xs). ends i
    then \<exists>s'. remove_node ends s = Some s' \<and> joined s' = joined s @ map snd xs \<and> thread_inv [] s'
    else remove_node ends s = None"
proof -
  have inv: "linked (nodes s) (thread_list s) xs" "distinct (map fst xs)" "dom (nodes s) = set (map fst xs)"
    "\<not> threads_locked s"
    using assms by (simp_all add: thread_inv_def)
  have "nodes s |` (- set (map fst xs)) = Map.empty"
    using inv(3) by (auto simp: restrict_map_def fun_eq_iff)
  with join_all_linked [of "s\<lparr>threads_locked := True\<rparr>" "thread_list s" xs ends] inv show ?thesis
    by (simp add: remove_node_def threads_lock_def threads_unlock_def thread_inv_def)
qed

section \<open>Properties\<close>

definition no_threads :: thread_state where
  "no_threads = \<lparr>nodes = Map.empty, thread_list = NULL, threads_locked = False, joined = []\<rparr>"

lemma no_threads_inv: "thread_inv [] no_threads"
  by (simp add: thread_inv_def no_threads_def)

text \<open>
  \<^verbatim>\<open>add_node\<close> appends the thread at the end of the list, keeping the order of the others,
  and releases the mutex; its walk to the end of the list terminates. If the node cannot be
  allocated the list is unchanged (and this thread will never be joined).
\<close>

theorem add_node_appends:
  assumes "thread_inv xs s" and "\<forall>a. fresh = Some a \<longrightarrow> nodes s a = None"
  shows "\<exists>s'. add_node fresh i s = Some s' \<and> joined s' = joined s \<and>
    thread_inv (xs @ (case fresh of None \<Rightarrow> [] | Some a \<Rightarrow> [(a, i)])) s'"
  by (rule add_node_correct [OF assms])

theorem add_node_appends_witness:
  "\<exists>s'. add_node (Some 7) 42 no_threads = Some s' \<and> joined s' = [] \<and> thread_inv [(7, 42)] s'"
  using add_node_appends [OF no_threads_inv, of "Some 7" 42] by (simp add: no_threads_def)

text \<open>
  C31: When every thread of the list comes to its end, \<^verbatim>\<open>remove_node\<close> joins each once, in the order in
  which they were added, frees every node once and leaves the list empty; its loop terminates. When one
  of them does not, it waits for ever.
\<close>

theorem remove_node_joins_all:
  assumes "thread_inv xs s"
  shows "if \<forall>i\<in>set (map snd xs). ends i
    then \<exists>s'. remove_node ends s = Some s' \<and> joined s' = joined s @ map snd xs \<and> thread_inv [] s'
    else remove_node ends s = None"
  by (rule remove_node_correct [OF assms])

theorem remove_node_joins_all_witness:
  "\<exists>s'. remove_node (\<lambda>i. i \<noteq> 7) \<lparr>nodes = [7 \<mapsto> \<lparr>thread_id = 42, next_ptr = Some 3\<rparr>, 3 \<mapsto> \<lparr>thread_id = 41, next_ptr = NULL\<rparr>],
      thread_list = Some 7, threads_locked = False, joined = []\<rparr> = Some s' \<and> joined s' = [42, 41] \<and> thread_inv [] s'"
  using remove_node_joins_all [of "[(7, 42), (3, 41)]"
      "\<lparr>nodes = [7 \<mapsto> \<lparr>thread_id = 42, next_ptr = Some 3\<rparr>, 3 \<mapsto> \<lparr>thread_id = 41, next_ptr = NULL\<rparr>],
        thread_list = Some 7, threads_locked = False, joined = []\<rparr>" "\<lambda>i. i \<noteq> 7"]
  by (simp add: thread_inv_def insert_commute)

end
