(* ===== verification/Circular_Buffer.thy ===== *)
theory Circular_Buffer
  imports Aesd_Prelude
begin

text \<open>
  The circular buffer of the character driver: \<^verbatim>\<open>aesd-char-driver/aesd-circular-buffer.h\<close>
  and \<^verbatim>\<open>aesd-circular-buffer.c\<close>. First the data and the three operations as the code has
  them, then the interface \<open>bounded_log\<close> (what a client of a bounded log of entries relies
  on), the invariant of the ring, and the interpretation: the ring is a log of the ten
  newest entries. Last, the search for a file position against its specification
  \<open>locate\<close>.
\<close>

section \<open>Data\<close>

definition AESDCHAR_MAX_WRITE_OPERATIONS_SUPPORTED :: nat where
  [simp]: "AESDCHAR_MAX_WRITE_OPERATIONS_SUPPORTED = 10"

record aesd_buffer_entry =
  buffptr :: ptr
  entry_size :: u64

record aesd_circular_buffer =
  entry :: "aesd_buffer_entry list"
  in_offs :: u8
  out_offs :: u8
  full :: bool

text \<open>An all-zero entry, as \<^verbatim>\<open>memset(.., 0, ..)\<close> leaves it.\<close>

definition zero_entry :: aesd_buffer_entry where
  "zero_entry = \<lparr>buffptr = NULL, entry_size = 0\<rparr>"

text \<open>\<^verbatim>\<open>sizeof(buffer->entry) / sizeof(buffer->entry[0])\<close>\<close>

definition buffer_size :: u64 where
  "buffer_size = of_nat AESDCHAR_MAX_WRITE_OPERATIONS_SUPPORTED"

section \<open>Operations\<close>

text \<open>
  The search loop. The third argument is the number of rounds left,
  \<^verbatim>\<open>my_entry_check - i\<close>; the result is the index of the entry found and the value stored
  through \<^verbatim>\<open>entry_offset_byte_rtn\<close>, or \<open>None\<close> inside \<open>Some\<close> for \<^verbatim>\<open>NULL\<close>.
\<close>

fun find_loop :: "aesd_circular_buffer \<Rightarrow> u64 \<Rightarrow> nat \<Rightarrow> u64 \<Rightarrow> u64 \<Rightarrow> (nat \<times> u64) option option" where
  "find_loop b char_offset 0 my_new_offset entry_position = Some None"
| "find_loop b char_offset (Suc n) my_new_offset entry_position = do {
     e \<leftarrow> array_get (entry b) (unat entry_position);
     if buffptr e = NULL \<or> entry_size e = 0 then Some None
     else if char_offset \<ge> my_new_offset \<and> char_offset < my_new_offset + entry_size e
     then Some (Some (unat entry_position, char_offset - my_new_offset))
     else find_loop b char_offset n (my_new_offset + entry_size e)
            ((entry_position + 1) mod buffer_size)
   }"

text \<open>
  \<^verbatim>\<open>buffer\<close> and \<^verbatim>\<open>entry_offset_byte_rtn\<close> are pointers that may be null: \<open>None\<close>, or
  \<open>Some\<close> of what they point to. The result is the entry (its index in the array) and
  what \<^verbatim>\<open>entry_offset_byte_rtn\<close> points to afterwards.
\<close>

definition aesd_circular_buffer_find_entry_offset_for_fpos ::
  "aesd_circular_buffer option \<Rightarrow> u64 \<Rightarrow> u64 option \<Rightarrow> (nat option \<times> u64 option) option" where
  "aesd_circular_buffer_find_entry_offset_for_fpos buffer char_offset entry_offset_byte_rtn =
     (case buffer of None \<Rightarrow> Some (None, entry_offset_byte_rtn)
      | Some b \<Rightarrow>
          (case entry_offset_byte_rtn of None \<Rightarrow> Some (None, None)
           | Some _ \<Rightarrow> do {
               r \<leftarrow> find_loop b char_offset
                     (if full b then unat buffer_size else unat (in_offs b))
                     0 (ucast (out_offs b));
               Some (case r of None \<Rightarrow> (None, entry_offset_byte_rtn)
                     | Some (i, off) \<Rightarrow> (Some i, Some off))
             }))"

text \<open>\<^verbatim>\<open>(offs + 1) % buffer_size\<close>, computed in \<^verbatim>\<open>size_t\<close> and stored in a \<^verbatim>\<open>uint8_t\<close>.\<close>

definition next_offs :: "u8 \<Rightarrow> u8" where
  "next_offs w = ucast ((ucast w + 1) mod buffer_size)"

definition aesd_circular_buffer_add_entry ::
  "aesd_circular_buffer option \<Rightarrow> aesd_buffer_entry option \<Rightarrow> aesd_circular_buffer option option" where
  "aesd_circular_buffer_add_entry buffer add_entry =
     (case buffer of None \<Rightarrow> Some None
      | Some b \<Rightarrow>
          (case add_entry of None \<Rightarrow> Some (Some b)
           | Some e \<Rightarrow>
               if buffptr e = NULL then Some (Some b)
               else do {
                 let b1 = (if full b \<and> in_offs b = out_offs b
                           then b\<lparr>out_offs := next_offs (out_offs b)\<rparr> else b);
                 es \<leftarrow> array_set (entry b1) (unat (in_offs b1)) e;
                 let b2 = b1\<lparr>entry := es, in_offs := next_offs (in_offs b1)\<rparr>;
                 Some (Some (b2\<lparr>full := (in_offs b2 = out_offs b2)\<rparr>))
               }))"

definition zero_buffer :: aesd_circular_buffer where
  "zero_buffer =
     \<lparr>entry = replicate AESDCHAR_MAX_WRITE_OPERATIONS_SUPPORTED zero_entry,
      in_offs = 0, out_offs = 0, full = False\<rparr>"

definition aesd_circular_buffer_init :: "aesd_circular_buffer option \<Rightarrow> aesd_circular_buffer option" where
  "aesd_circular_buffer_init buffer = (case buffer of None \<Rightarrow> None | Some _ \<Rightarrow> Some zero_buffer)"

text \<open>
  \<^verbatim>\<open>AESD_CIRCULAR_BUFFER_FOREACH\<close>: the body \<open>f\<close> runs once on each slot of the array, in
  the order of the indices, whatever the offsets are.
\<close>

definition AESD_CIRCULAR_BUFFER_FOREACH ::
  "(aesd_buffer_entry \<Rightarrow> 's \<Rightarrow> 's) \<Rightarrow> aesd_circular_buffer \<Rightarrow> 's \<Rightarrow> 's" where
  "AESD_CIRCULAR_BUFFER_FOREACH f b s =
     fold f (take AESDCHAR_MAX_WRITE_OPERATIONS_SUPPORTED (entry b)) s"

section \<open>The interface: a bounded log\<close>

text \<open>
  What a client relies on: a container whose contents are a list, oldest element first, to
  which elements are appended and which keeps the newest \<open>cap\<close> of them. \<open>push\<close> may be
  undefined outside the invariant; inside it never is.
\<close>

locale bounded_log =
  fixes cap :: nat
    and wf :: "'b \<Rightarrow> bool"
    and ok :: "'e \<Rightarrow> bool"
    and log :: "'b \<Rightarrow> 'e list"
    and push :: "'b \<Rightarrow> 'e \<Rightarrow> 'b option"
    and empty :: 'b
  assumes wf_empty: "wf empty"
    and log_empty: "log empty = []"
    and push_law: "wf b \<Longrightarrow> ok e \<Longrightarrow>
          \<exists>b'. push b e = Some b' \<and> wf b' \<and> log b' = last_n cap (log b @ [e])"
begin

fun push_all :: "'b \<Rightarrow> 'e list \<Rightarrow> 'b option" where
  "push_all b [] = Some b"
| "push_all b (e # es) = do { b' \<leftarrow> push b e; push_all b' es }"

lemma push_defined: "wf b \<Longrightarrow> ok e \<Longrightarrow> push b e \<noteq> None"
  using push_law [of b e] by auto

lemma push_wf: "push b e = Some b' \<Longrightarrow> wf b \<Longrightarrow> ok e \<Longrightarrow> wf b'"
  using push_law [of b e] by auto

lemma push_log: "push b e = Some b' \<Longrightarrow> wf b \<Longrightarrow> ok e \<Longrightarrow> log b' = last_n cap (log b @ [e])"
  using push_law [of b e] by auto

lemma push_all_law:
  "wf b \<Longrightarrow> list_all ok es \<Longrightarrow> length (log b) \<le> cap \<Longrightarrow>
   \<exists>b'. push_all b es = Some b' \<and> wf b' \<and> log b' = last_n cap (log b @ es)"
proof (induction es arbitrary: b)
  case Nil
  then show ?case by simp
next
  case (Cons e es)
  from Cons.prems obtain b' where
    b': "push b e = Some b'" "wf b'" "log b' = last_n cap (log b @ [e])"
    using push_law by auto
  moreover have "\<exists>b''. push_all b' es = Some b'' \<and> wf b'' \<and> log b'' = last_n cap (log b' @ es)"
    by (rule Cons.IH) (use Cons.prems b' in auto)
  ultimately show ?case by auto
qed

text \<open>Any run from the empty log ends with the newest \<open>cap\<close> of the elements pushed.\<close>

lemma push_all_empty:
  assumes "list_all ok es"
  shows "\<exists>b. push_all empty es = Some b \<and> wf b \<and> log b = last_n cap es"
  using push_all_law [OF wf_empty assms] by (simp add: log_empty)

end

section \<open>The invariant of the ring\<close>

text \<open>
  The offsets are indices of the array; a full ring has met its reader (\<open>in_offs =
  out_offs\<close>); and a ring that is not full has never dropped an entry, so that it starts
  at slot 0 and its unused slots are still zero. The search relies on the last clause: it
  takes \<^verbatim>\<open>in_offs\<close> itself as the number of entries of a ring that is not full.
\<close>

definition cb_wf :: "aesd_circular_buffer \<Rightarrow> bool" where
  "cb_wf b \<longleftrightarrow> length (entry b) = 10 \<and> unat (in_offs b) < 10 \<and> unat (out_offs b) < 10 \<and>
     (full b \<longrightarrow> in_offs b = out_offs b) \<and>
     (\<not> full b \<longrightarrow> out_offs b = 0 \<and> (\<forall>e \<in> set (drop (unat (in_offs b)) (entry b)). e = zero_entry))"

definition cb_count :: "aesd_circular_buffer \<Rightarrow> nat" where
  "cb_count b = (if full b then 10 else unat (in_offs b))"

text \<open>The entries in use, oldest first.\<close>

definition cb_entries :: "aesd_circular_buffer \<Rightarrow> aesd_buffer_entry list" where
  "cb_entries b = take (cb_count b) (rotate (unat (out_offs b)) (entry b))"

definition cb_push :: "aesd_circular_buffer \<Rightarrow> aesd_buffer_entry \<Rightarrow> aesd_circular_buffer option" where
  "cb_push b e = Option.bind (aesd_circular_buffer_add_entry (Some b) (Some e)) id"

lemma unat_buffer_size [simp]: "unat buffer_size = 10"
  by (simp add: buffer_size_def)

lemma unat_next_offs [simp]: "unat (next_offs w) = (unat w + 1) mod 10"
proof -
  have lt: "unat w < 256" using unsigned_less [of w, where 'a = nat] by simp
  have "unat ((ucast w + 1 :: u64) mod buffer_size) = (unat w + 1) mod 10"
    using lt by (simp add: unat_mod word_nat)
  then show ?thesis
    using lt by (simp add: next_offs_def unsigned_ucast_eq take_bit_nat_eq_self)
qed

lemma cb_count_le: "cb_wf b \<Longrightarrow> cb_count b \<le> 10"
  by (auto simp: cb_wf_def cb_count_def)

lemma length_cb_entries [simp]: "cb_wf b \<Longrightarrow> length (cb_entries b) = cb_count b"
  using cb_count_le [of b] by (simp add: cb_entries_def cb_wf_def)

lemma nth_cb_entries:
  "cb_wf b \<Longrightarrow> i < cb_count b \<Longrightarrow> cb_entries b ! i = entry b ! ((unat (out_offs b) + i) mod 10)"
  using cb_count_le [of b] by (auto simp: cb_entries_def cb_wf_def nth_rotate)

lemma cb_wf_zero: "cb_wf zero_buffer"
  by (simp add: cb_wf_def zero_buffer_def)

lemma cb_entries_zero: "cb_entries zero_buffer = []"
  by (simp add: cb_entries_def cb_count_def zero_buffer_def)

text \<open>The two cases of \<^verbatim>\<open>aesd_circular_buffer_add_entry\<close>: a ring with room and a full one.\<close>

lemma cb_push_room:
  assumes wf: "cb_wf b" and "\<not> full b" and "buffptr e \<noteq> NULL"
  shows "\<exists>b'. cb_push b e = Some b' \<and> cb_wf b' \<and> cb_entries b' = cb_entries b @ [e]"
proof -
  let ?i = "unat (in_offs b)"
  let ?b' = "b\<lparr>entry := (entry b)[?i := e], in_offs := next_offs (in_offs b),
               full := (next_offs (in_offs b) = out_offs b)\<rparr>"
  have i: "?i < 10" "length (entry b) = 10" "out_offs b = 0"
    and zero: "\<forall>x \<in> set (drop ?i (entry b)). x = zero_entry"
    using wf assms(2) by (auto simp: cb_wf_def)
  have push: "cb_push b e = Some ?b'"
    using assms i by (auto simp: cb_push_def aesd_circular_buffer_add_entry_def Let_def)
  have nx: "next_offs (in_offs b) = 0 \<longleftrightarrow> ?i = 9"
    using ring_last [OF i(1)] by (simp add: unat_eq_0 [symmetric] del: unat_eq_0)
  have "set (drop (Suc ?i) ((entry b)[?i := e])) \<subseteq> set (drop ?i (entry b))"
    by (simp add: set_drop_subset_set_drop)
  then have "cb_wf ?b'"
    using i zero nx by (auto simp: cb_wf_def mod_if)
  moreover have "cb_entries ?b' = cb_entries b @ [e]"
  proof -
    have "cb_count ?b' = Suc ?i"
      using i nx by (auto simp: cb_count_def mod_if)
    then have "cb_entries ?b' = take (Suc ?i) ((entry b)[?i := e])"
      using i by (simp add: cb_entries_def)
    also have "\<dots> = take ?i (entry b) @ [e]"
      using i by (simp add: take_Suc_conv_app_nth)
    finally show ?thesis
      using i assms(2) by (simp add: cb_entries_def cb_count_def)
  qed
  ultimately show ?thesis using push by blast
qed

lemma cb_push_full:
  assumes wf: "cb_wf b" and "full b" and "buffptr e \<noteq> NULL"
  shows "\<exists>b'. cb_push b e = Some b' \<and> cb_wf b' \<and> cb_entries b' = tl (cb_entries b) @ [e]"
proof -
  let ?o = "unat (out_offs b)"
  let ?n = "next_offs (out_offs b)"
  let ?b' = "b\<lparr>entry := (entry b)[?o := e], in_offs := ?n, out_offs := ?n, full := True\<rparr>"
  have o: "?o < 10" "length (entry b) = 10" "in_offs b = out_offs b"
    using wf assms(2) by (auto simp: cb_wf_def)
  have push: "cb_push b e = Some ?b'"
    using assms o by (auto simp: cb_push_def aesd_circular_buffer_add_entry_def Let_def)
  have wf': "cb_wf ?b'"
    using o by (auto simp: cb_wf_def)
  have cnt: "cb_count b = 10" "cb_count ?b' = 10"
    using assms(2) by (auto simp: cb_count_def)
  have "cb_entries ?b' = tl (cb_entries b) @ [e]"
  proof (rule nth_equalityI)
    show "length (cb_entries ?b') = length (tl (cb_entries b) @ [e])"
      using wf wf' cnt by simp
  next
    fix i assume "i < length (cb_entries ?b')"
    then have i: "i < 10" using wf' cnt by simp
    have l: "cb_entries ?b' ! i = (entry b)[?o := e] ! ((?o + 1 + i) mod 10)"
      using wf' cnt i by (simp add: nth_cb_entries mod_simps)
    show "cb_entries ?b' ! i = (tl (cb_entries b) @ [e]) ! i"
    proof (cases "i = 9")
      case True
      then have "(?o + 1 + i) mod 10 = ?o" using o by simp
      with l True wf cnt o show ?thesis by (simp add: nth_append)
    next
      case False
      with i have i9: "i < 9" by simp
      then have "(?o + 1 + i) mod 10 \<noteq> ?o"
        using ring_other [OF o(1)] by simp
      then have "cb_entries ?b' ! i = entry b ! ((?o + Suc i) mod 10)"
        using l o by (simp add: nth_list_update)
      also have "\<dots> = cb_entries b ! Suc i"
        using wf cnt i9 by (simp add: nth_cb_entries)
      finally show ?thesis
        using wf cnt i9 by (simp add: nth_append nth_tl)
    qed
  qed
  with push wf' show ?thesis by blast
qed

lemma cb_push_law:
  assumes wf: "cb_wf b" and e: "buffptr e \<noteq> NULL"
  shows "\<exists>b'. cb_push b e = Some b' \<and> cb_wf b' \<and> cb_entries b' = last_n 10 (cb_entries b @ [e])"
proof (cases "full b")
  case True
  then have len: "length (cb_entries b) = 10" using wf by (simp add: cb_count_def)
  then obtain x xs where x: "cb_entries b = x # xs" by (cases "cb_entries b") auto
  have "last_n 10 (cb_entries b @ [e]) = tl (cb_entries b) @ [e]"
    using len x last_n_snoc_full [of x xs 10 e] by simp
  with cb_push_full [OF wf True e] show ?thesis by auto
next
  case False
  have "length (cb_entries b) < 10" using wf False by (simp add: cb_count_def cb_wf_def)
  then have "last_n 10 (cb_entries b @ [e]) = cb_entries b @ [e]" by simp
  with cb_push_room [OF wf False e] show ?thesis by auto
qed

interpretation ring: bounded_log 10 cb_wf "\<lambda>e. buffptr e \<noteq> NULL" cb_entries cb_push zero_buffer
  by unfold_locales (auto intro: cb_wf_zero cb_entries_zero cb_push_law)

text \<open>Clearing the oldest slot of a full ring, as the driver does before it overwrites it.\<close>

lemma cb_clear_oldest:
  assumes wf: "cb_wf b" and "full b"
    and b1: "b1 = b\<lparr>entry := (entry b)[unat (in_offs b) := zero_entry]\<rparr>"
  shows "cb_wf b1" and "full b1" and "cb_entries b1 = zero_entry # tl (cb_entries b)"
    and "hd (cb_entries b) = entry b ! unat (in_offs b)"
proof -
  let ?o = "unat (out_offs b)"
  have o: "?o < 10" "length (entry b) = 10" "in_offs b = out_offs b"
    using wf assms(2) by (auto simp: cb_wf_def)
  show wf1: "cb_wf b1" and f1: "full b1"
    using wf assms(2) b1 by (auto simp: cb_wf_def)
  have cnt: "cb_count b = 10" "cb_count b1 = 10"
    using assms(2) f1 by (auto simp: cb_count_def)
  have ne: "cb_entries b \<noteq> []" using wf cnt by (auto simp flip: length_0_conv)
  show "hd (cb_entries b) = entry b ! unat (in_offs b)"
    using wf cnt o ne by (simp add: hd_conv_nth nth_cb_entries)
  show "cb_entries b1 = zero_entry # tl (cb_entries b)"
  proof (rule nth_equalityI)
    show "length (cb_entries b1) = length (zero_entry # tl (cb_entries b))"
      using wf wf1 cnt by simp
  next
    fix i assume "i < length (cb_entries b1)"
    then have i: "i < 10" using wf1 cnt by simp
    have l: "cb_entries b1 ! i = (entry b)[?o := zero_entry] ! ((?o + i) mod 10)"
      using wf1 cnt i b1 o by (simp add: nth_cb_entries)
    show "cb_entries b1 ! i = (zero_entry # tl (cb_entries b)) ! i"
    proof (cases i)
      case 0
      with l o show ?thesis by simp
    next
      case (Suc j)
      then have "(?o + i) mod 10 \<noteq> ?o"
        using ring_other [OF o(1), of j] i by simp
      with l o Suc i wf cnt show ?thesis by (simp add: nth_tl nth_cb_entries)
    qed
  qed
qed

text \<open>
  A loop over all the slots that skips the null ones sees the entries in use, each once, in
  an order that depends on the offsets.
\<close>

lemma used_slots:
  assumes wf: "cb_wf b" and used: "\<forall>e \<in> set (cb_entries b). buffptr e \<noteq> NULL"
  shows "\<exists>k. filter (\<lambda>e. buffptr e \<noteq> NULL) (entry b) = rotate k (cb_entries b)"
proof (cases "full b")
  case True
  let ?o = "unat (out_offs b)"
  have len: "length (entry b) = 10" "?o < 10" using wf by (auto simp: cb_wf_def)
  have ent: "cb_entries b = rotate ?o (entry b)"
    using wf True by (simp add: cb_entries_def cb_count_def cb_wf_def)
  moreover have "rotate (10 - ?o) (rotate ?o (entry b)) = entry b"
    using len by (simp add: rotate_rotate rotate_id)
  moreover have "filter (\<lambda>e. buffptr e \<noteq> NULL) (entry b) = entry b"
    using used ent by simp
  ultimately show ?thesis by metis
next
  case False
  let ?used = "\<lambda>e. buffptr e \<noteq> NULL"
  have ent: "cb_entries b = take (unat (in_offs b)) (entry b)"
    using wf False by (simp add: cb_entries_def cb_count_def cb_wf_def)
  have "filter ?used (drop (unat (in_offs b)) (entry b)) = []"
    using wf False by (auto simp: cb_wf_def filter_empty_conv zero_entry_def)
  then have "filter ?used (entry b) = filter ?used (cb_entries b)"
    by (metis append.right_neutral append_take_drop_id ent filter_append)
  then have "filter ?used (entry b) = rotate 0 (cb_entries b)" using used by simp
  then show ?thesis ..
qed

section \<open>The search\<close>

text \<open>
  \<open>locate ns off\<close> is where byte \<open>off\<close> lies in a concatenation of strings of the lengths
  \<open>ns\<close>: the index of the string and the offset in it.
\<close>

fun locate :: "nat list \<Rightarrow> nat \<Rightarrow> (nat \<times> nat) option" where
  "locate [] off = None"
| "locate (n # ns) off =
     (if off < n then Some (0, off) else map_option (apfst Suc) (locate ns (off - n)))"

lemma locate_None_iff: "locate ns off = None \<longleftrightarrow> sum_list ns \<le> off"
proof (induction ns arbitrary: off)
  case (Cons n ns)
  show ?case
  proof (cases "off < n")
    case False
    then have "locate (n # ns) off = None \<longleftrightarrow> sum_list ns \<le> off - n"
      by (simp add: Cons.IH)
    with False show ?thesis by (simp add: le_diff_conv2 add.commute)
  qed simp
qed simp

lemma locate_Some_bounds:
  "locate ns off = Some (i, r) \<Longrightarrow> i < length ns \<and> r < ns ! i \<and> off = sum_list (take i ns) + r"
proof (induction ns arbitrary: off i)
  case (Cons n ns)
  show ?case
  proof (cases "off < n")
    case True
    with Cons.prems show ?thesis by auto
  next
    case False
    with Cons.prems obtain j where j: "locate ns (off - n) = Some (j, r)" "i = Suc j" by auto
    have "j < length ns \<and> r < ns ! j \<and> off - n = sum_list (take j ns) + r"
      by (rule Cons.IH [OF j(1)])
    with j(2) False show ?thesis by auto
  qed
qed simp

lemma locate_concat:
  "locate (map length xss) off = Some (i, r) \<Longrightarrow> concat xss ! off = xss ! i ! r"
proof (induction xss arbitrary: off i)
  case (Cons xs xss)
  show ?case
  proof (cases "off < length xs")
    case True
    with Cons.prems show ?thesis by (auto simp: nth_append)
  next
    case False
    with Cons.prems obtain j where j: "locate (map length xss) (off - length xs) = Some (j, r)" "i = Suc j"
      by auto
    have "concat xss ! (off - length xs) = xss ! j ! r" by (rule Cons.IH [OF j(1)])
    with False j(2) show ?thesis by (simp add: nth_append)
  qed
qed simp

text \<open>From the position found, the rest of that string is what the concatenation goes on with.\<close>

lemma locate_drop:
  "locate (map length xss) off = Some (i, r) \<Longrightarrow>
   drop off (concat xss) = drop r (xss ! i) @ concat (drop (Suc i) xss)"
proof (induction xss arbitrary: off i)
  case (Cons xs xss)
  show ?case
  proof (cases "off < length xs")
    case True
    with Cons.prems show ?thesis by auto
  next
    case False
    with Cons.prems obtain j where j: "locate (map length xss) (off - length xs) = Some (j, r)" "i = Suc j"
      by auto
    have "drop (off - length xs) (concat xss) = drop r (xss ! j) @ concat (drop (Suc j) xss)"
      by (rule Cons.IH [OF j(1)])
    with False j(2) show ?thesis by simp
  qed
qed simp

text \<open>
  The entries a search can walk over: none is null or empty, and their sizes add up to
  less than \<^verbatim>\<open>SIZE_MAX\<close>, as the sizes of blocks that are in memory together do.
\<close>

definition entry_sizes :: "aesd_circular_buffer \<Rightarrow> nat list" where
  "entry_sizes b = map (unat \<circ> entry_size) (cb_entries b)"

definition searchable :: "aesd_circular_buffer \<Rightarrow> bool" where
  "searchable b \<longleftrightarrow> cb_wf b \<and> (\<forall>e \<in> set (cb_entries b). buffptr e \<noteq> NULL \<and> entry_size e \<noteq> 0) \<and>
     sum_list (entry_sizes b) < 2 ^ 64"

lemma find_loop_locate:
  assumes s: "searchable b" and "j + n = cb_count b"
    and "my_new_offset = of_nat (sum_list (take j (entry_sizes b)))"
    and "sum_list (take j (entry_sizes b)) \<le> unat off"
    and "unat pos = (unat (out_offs b) + j) mod 10"
  shows "find_loop b off n my_new_offset pos =
     Some (map_option (\<lambda>(i, r). ((unat (out_offs b) + j + i) mod 10, of_nat r))
       (locate (drop j (entry_sizes b)) (unat off - sum_list (take j (entry_sizes b)))))"
  using assms(2-)
proof (induction n arbitrary: j my_new_offset pos)
  case 0
  have "length (entry_sizes b) = cb_count b"
    using s by (simp add: entry_sizes_def searchable_def)
  with 0 show ?case by simp
next
  case (Suc n)
  let ?ns = "entry_sizes b"
  let ?e = "cb_entries b ! j"
  have wf: "cb_wf b" using s by (simp add: searchable_def)
  have j: "j < cb_count b" using Suc.prems(1) by simp
  have len: "length ?ns = cb_count b" using wf by (simp add: entry_sizes_def)
  have pos: "unat pos < length (entry b)" and e: "entry b ! unat pos = ?e"
    using wf j Suc.prems(4) by (auto simp: nth_cb_entries) (auto simp: cb_wf_def)
  have ok: "buffptr ?e \<noteq> NULL" "entry_size ?e \<noteq> 0"
    using s j wf by (auto simp: searchable_def)
  have nj: "?ns ! j = unat (entry_size ?e)" using j wf by (simp add: entry_sizes_def)
  have dr: "drop j ?ns = ?ns ! j # drop (Suc j) ?ns" using j len by (simp add: Cons_nth_drop_Suc)
  have tk: "sum_list (take (Suc j) ?ns) = sum_list (take j ?ns) + ?ns ! j"
    using j len by (simp add: take_Suc_conv_app_nth)
  have "sum_list ?ns = sum_list (take (Suc j) ?ns) + sum_list (drop (Suc j) ?ns)"
    by (metis append_take_drop_id sum_list_append)
  then have lt: "sum_list (take (Suc j) ?ns) < 2 ^ 64"
    using s by (simp add: searchable_def)
  have base: "unat my_new_offset = sum_list (take j ?ns)"
    using lt tk Suc.prems(2) by (simp add: word_nat)
  have upto: "unat (my_new_offset + entry_size ?e) = sum_list (take (Suc j) ?ns)"
    using lt tk base nj by (simp add: word_nat)
  show ?case
  proof (cases "unat off < sum_list (take (Suc j) ?ns)")
    case True
    have "off - my_new_offset = of_nat (unat off - sum_list (take j ?ns))"
      using word_diff_of_nat [of my_new_offset off] base Suc.prems(3) by simp
    with True pos e ok base upto Suc.prems dr tk nj show ?thesis
      by (auto simp: word_le_nat_alt word_less_nat_alt)
  next
    case False
    have "unat ((pos + 1) mod buffer_size) = (unat (out_offs b) + Suc j) mod 10"
      using Suc.prems(4) by (simp add: unat_mod word_nat mod_simps)
    then have "find_loop b off n (my_new_offset + entry_size ?e) ((pos + 1) mod buffer_size) =
       Some (map_option (\<lambda>(i, r). ((unat (out_offs b) + Suc j + i) mod 10, of_nat r))
         (locate (drop (Suc j) ?ns) (unat off - sum_list (take (Suc j) ?ns))))"
      using Suc.prems(1,2) tk nj False by (intro Suc.IH) auto
    moreover have "unat off - sum_list (take j ?ns) - unat (entry_size ?e) =
        unat off - sum_list (take (Suc j) ?ns)"
      using tk nj by simp
    ultimately show ?thesis
      using False pos e ok base upto Suc.prems dr tk nj
      by (auto simp: word_le_nat_alt word_less_nat_alt option.map_comp intro!: option.map_cong)
  qed
qed

lemma find_locate:
  assumes "searchable b"
  shows "aesd_circular_buffer_find_entry_offset_for_fpos (Some b) off (Some v) =
    Some (case locate (entry_sizes b) (unat off) of
            None \<Rightarrow> (None, Some v)
          | Some (i, r) \<Rightarrow> (Some ((unat (out_offs b) + i) mod 10), Some (of_nat r)))"
proof -
  have "find_loop b off (cb_count b) 0 (ucast (out_offs b)) =
     Some (map_option (\<lambda>(i, r). ((unat (out_offs b) + i) mod 10, of_nat r))
       (locate (entry_sizes b) (unat off)))"
    using find_loop_locate [OF assms, of 0 "cb_count b" 0 off "ucast (out_offs b)"] assms
    by (simp add: searchable_def cb_wf_def)
  then show ?thesis
    by (auto simp: aesd_circular_buffer_find_entry_offset_for_fpos_def cb_count_def
        split: option.split)
qed

section \<open>Properties\<close>

text \<open>
  C25: Adding entries one after the other to an initialised buffer never indexes outside the
  array, and the buffer then holds the newest ten of them, oldest first: the ring is full
  exactly when ten or more have been added.
\<close>

theorem add_entries_keep_newest:
  assumes "\<forall>e \<in> set es. buffptr e \<noteq> NULL"
    and "aesd_circular_buffer_init (Some b0) = Some b"
  shows "\<exists>b'. ring.push_all b es = Some b' \<and> cb_wf b' \<and> cb_entries b' = last_n 10 es \<and>
    (full b' \<longleftrightarrow> 10 \<le> length es)"
proof -
  have b: "b = zero_buffer" using assms(2) by (simp add: aesd_circular_buffer_init_def)
  obtain b' where b': "ring.push_all b es = Some b'" "cb_wf b'" "cb_entries b' = last_n 10 es"
    using ring.push_all_empty [of es] assms(1) b by (auto simp: list_all_iff)
  have "cb_count b' = min 10 (length es)"
    using arg_cong [OF b'(3), of length] b'(2) by simp
  then have "full b' \<longleftrightarrow> 10 \<le> length es"
    using b'(2) by (auto simp: cb_count_def cb_wf_def min_def split: if_splits)
  with b' show ?thesis by blast
qed

theorem add_entries_keep_newest_witness:
  "\<exists>b'. ring.push_all zero_buffer [\<lparr>buffptr = Some 5, entry_size = 7\<rparr>] = Some b' \<and> cb_wf b' \<and>
    cb_entries b' = last_n 10 [\<lparr>buffptr = Some 5, entry_size = 7\<rparr>] \<and>
    (full b' \<longleftrightarrow> 10 \<le> length [\<lparr>buffptr = Some (5 :: nat), entry_size = (7 :: u64)\<rparr>])"
  by (rule add_entries_keep_newest [of _ zero_buffer]) (simp_all add: aesd_circular_buffer_init_def)

text \<open>
  C26: The search for a file position finds the entry and the offset where that byte lies in
  the concatenation of the entries, oldest first, and returns null exactly for positions at
  or beyond the total size.
\<close>

theorem find_entry_offset_correct:
  assumes "searchable b"
  shows "\<exists>e r. aesd_circular_buffer_find_entry_offset_for_fpos (Some b) off (Some v) = Some (e, Some r) \<and>
    (e = None \<longleftrightarrow> sum_list (entry_sizes b) \<le> unat off) \<and>
    (e = None \<longrightarrow> r = v) \<and>
    (\<forall>k. e = Some k \<longrightarrow> (\<exists>i < length (cb_entries b). k = (unat (out_offs b) + i) mod 10 \<and>
       array_get (entry b) k = Some (cb_entries b ! i) \<and> r < entry_size (cb_entries b ! i) \<and>
       unat off = sum_list (take i (entry_sizes b)) + unat r))"
proof (cases "locate (entry_sizes b) (unat off)")
  case None
  then have "sum_list (entry_sizes b) \<le> unat off" by (simp add: locate_None_iff)
  with None show ?thesis using find_locate [OF assms, of off v] by simp
next
  case (Some ir)
  obtain i r where ir: "ir = (i, r)" by (cases ir)
  note loc = locate_Some_bounds [OF Some [unfolded ir]]
  have wf: "cb_wf b" using assms by (simp add: searchable_def)
  have i: "i < cb_count b" using loc wf by (simp add: entry_sizes_def)
  have r: "r < unat (entry_size (cb_entries b ! i))" using loc wf i by (simp add: entry_sizes_def)
  then have ur: "unat (of_nat r :: u64) = r"
    using unat_u64_lt [of "entry_size (cb_entries b ! i)"] by (intro unat_of_nat_u64) linarith
  have "(unat (out_offs b) + i) mod 10 < length (entry b)" using wf by (simp add: cb_wf_def)
  moreover have "sum_list (entry_sizes b) > unat off" using Some locate_None_iff by (metis not_le option.distinct(1))
  ultimately show ?thesis
    using find_locate [OF assms, of off v] Some ir loc ur r i wf nth_cb_entries [OF wf i]
    by (auto simp: word_less_nat_alt intro!: exI [of _ i])
qed

definition two_entries :: aesd_circular_buffer where
  "two_entries = zero_buffer\<lparr>entry := \<lparr>buffptr = Some 5, entry_size = 3\<rparr> #
     \<lparr>buffptr = Some 6, entry_size = 4\<rparr> # replicate 8 zero_entry, in_offs := 2\<rparr>"

theorem find_entry_offset_correct_witness:
  "\<exists>k r. aesd_circular_buffer_find_entry_offset_for_fpos (Some two_entries) 5 (Some 0) = Some (Some k, Some r)"
proof -
  have "searchable two_entries" "sum_list (entry_sizes two_entries) = 7"
    by (simp_all add: searchable_def entry_sizes_def cb_wf_def cb_entries_def cb_count_def two_entries_def
        zero_buffer_def)
  from find_entry_offset_correct [OF this(1), of 5 0] this(2) show ?thesis by auto
qed

end
