(* ===== verification/Kernel_Memory.thy ===== *)
theory Kernel_Memory
  imports Aesd_Prelude
begin

text \<open>
  The memory the driver works on and the kernel calls it makes (\<^verbatim>\<open>kmalloc\<close>, \<^verbatim>\<open>krealloc\<close>,
  \<^verbatim>\<open>kfree\<close>, \<^verbatim>\<open>memcpy\<close>/\<^verbatim>\<open>memmove\<close>, \<^verbatim>\<open>copy_from_user\<close>, \<^verbatim>\<open>copy_to_user\<close>). The kernel is not part
  of the repository: which address an allocation gets, whether it fails, what a fresh block
  holds and whether a signal interrupts a wait are the choices of a parameter, the kernel
  environment \<open>kenv\<close>, which may choose differently at every call (each call sees a larger
  \<open>clock\<close>). What the driver relies on is the locale \<open>kernel_allocator\<close>: the documented
  contract of the allocator. The heap holds the blocks that this module has allocated.
\<close>

type_synonym heap = "nat \<rightharpoonup> byte list"

text \<open>
  \<open>kalloc t h n\<close> and \<open>kresize t h a n\<close> are the allocator's choices at time \<open>t\<close> in heap \<open>h\<close>:
  the base address of a block of \<open>n\<close> bytes and what it holds, or \<open>None\<close> for a null
  return. \<open>signalled t\<close> says whether \<^verbatim>\<open>mutex_lock_interruptible\<close> is interrupted.
  \<open>iowr\<close> is the kernel's encoding \<^verbatim>\<open>_IOWR(magic, number, size)\<close> of a command number.
\<close>

record kenv =
  kalloc :: "nat \<Rightarrow> heap \<Rightarrow> nat \<Rightarrow> (nat \<times> byte list) option"
  kresize :: "nat \<Rightarrow> heap \<Rightarrow> nat \<Rightarrow> nat \<Rightarrow> (nat \<times> byte list) option"
  signalled :: "nat \<Rightarrow> bool"
  iowr :: "nat \<Rightarrow> nat \<Rightarrow> nat \<Rightarrow> u32"

record kstate =
  heap :: heap
  clock :: nat

definition tick :: "'a kstate_scheme \<Rightarrow> 'a kstate_scheme" where
  "tick s = s\<lparr>clock := Suc (clock s)\<rparr>"

section \<open>Allocation\<close>

definition kmalloc :: "kenv \<Rightarrow> u64 \<Rightarrow> 'a kstate_scheme \<Rightarrow> ptr \<times> 'a kstate_scheme" where
  "kmalloc K n s =
     (case kalloc K (clock s) (heap s) (unat n) of
        None \<Rightarrow> (NULL, tick s)
      | Some (a, bs) \<Rightarrow> (Some a, tick (s\<lparr>heap := (heap s)(a \<mapsto> bs)\<rparr>)))"

text \<open>
  \<^verbatim>\<open>krealloc\<close>: on a null pointer it is \<^verbatim>\<open>kmalloc\<close>; on failure the old block stays as it is;
  otherwise the old block is gone (or resized in place) and the new one starts with its bytes.
\<close>

definition krealloc :: "kenv \<Rightarrow> ptr \<Rightarrow> u64 \<Rightarrow> 'a kstate_scheme \<Rightarrow> (ptr \<times> 'a kstate_scheme) option" where
  "krealloc K p n s =
     (case p of
        None \<Rightarrow> Some (kmalloc K n s)
      | Some a \<Rightarrow> do {
          old \<leftarrow> heap s a;
          Some (case kresize K (clock s) (heap s) a (unat n) of
                  None \<Rightarrow> (NULL, tick s)
                | Some (a', bs) \<Rightarrow>
                    (Some a', tick (s\<lparr>heap := (heap s)(a := None,
                       a' \<mapsto> take (unat n) old @ drop (length old) bs)\<rparr>)))
        })"

definition kfree :: "ptr \<Rightarrow> 'a kstate_scheme \<Rightarrow> 'a kstate_scheme option" where
  "kfree p s =
     (case p of
        None \<Rightarrow> Some s
      | Some a \<Rightarrow> if heap s a = None then None else Some (s\<lparr>heap := (heap s)(a := None)\<rparr>))"

section \<open>Access to blocks\<close>

definition read_bytes :: "ptr \<Rightarrow> nat \<Rightarrow> nat \<Rightarrow> 'a kstate_scheme \<Rightarrow> byte list option" where
  "read_bytes p off n s = do {
     a \<leftarrow> p;
     bs \<leftarrow> heap s a;
     if off + n \<le> length bs then Some (take n (drop off bs)) else None
   }"

definition write_bytes :: "ptr \<Rightarrow> nat \<Rightarrow> byte list \<Rightarrow> 'a kstate_scheme \<Rightarrow> 'a kstate_scheme option" where
  "write_bytes p off xs s = do {
     a \<leftarrow> p;
     bs \<leftarrow> heap s a;
     if off + length xs \<le> length bs
     then Some (s\<lparr>heap := (heap s)(a \<mapsto> take off bs @ xs @ drop (off + length xs) bs)\<rparr>)
     else None
   }"

text \<open>
  \<^verbatim>\<open>memcpy(dst, src, n)\<close> and \<^verbatim>\<open>memmove(dst, src + off, n)\<close>: read, then write; overlap is not
  visible at this level.
\<close>

definition mem_move :: "ptr \<Rightarrow> ptr \<Rightarrow> nat \<Rightarrow> nat \<Rightarrow> 'a kstate_scheme \<Rightarrow> 'a kstate_scheme option" where
  "mem_move dst src off n s = do {
     xs \<leftarrow> read_bytes src off n s;
     write_bytes dst 0 xs s
   }"

text \<open>
  A user buffer is the list of the bytes that are mapped from its address on.
  \<^verbatim>\<open>copy_from_user\<close> copies what is mapped and pads the destination with zeros to the
  requested size; both functions return the number of bytes they could not copy.
\<close>

definition copy_from_user ::
  "ptr \<Rightarrow> nat \<Rightarrow> byte list \<Rightarrow> nat \<Rightarrow> 'a kstate_scheme \<Rightarrow> (nat \<times> 'a kstate_scheme) option" where
  "copy_from_user dst off ubuf n s = do {
     s' \<leftarrow> write_bytes dst off (take n ubuf @ replicate (n - length ubuf) nul) s;
     Some (n - length ubuf, s')
   }"

definition copy_to_user :: "byte list \<Rightarrow> nat \<Rightarrow> byte list \<Rightarrow> nat \<times> byte list" where
  "copy_to_user ubuf off xs =
     (length xs - (length ubuf - off),
      take off ubuf @ take (length ubuf - off) xs @ drop (off + length xs) ubuf)"

section \<open>The contract of the allocator\<close>

text \<open>
  No allocation is larger than \<^verbatim>\<open>KMALLOC_MAX_SIZE\<close>, which no configuration of the kernel
  sets above this bound.
\<close>

definition KMALLOC_BOUND :: nat where
  [simp]: "KMALLOC_BOUND = 2 ^ 40"

locale kernel_allocator =
  fixes K :: kenv
  assumes kalloc_ok: "kalloc K t h n = Some (a, bs) \<Longrightarrow>
            h a = None \<and> length bs = n \<and> n \<le> KMALLOC_BOUND"
    and kresize_ok: "kresize K t h a n = Some (a', bs) \<Longrightarrow>
            (a' = a \<or> h a' = None) \<and> length bs = n \<and> n \<le> KMALLOC_BOUND"
begin

text \<open>The outcomes of the two allocation calls, as rules.\<close>

lemma kmalloc_cases:
  assumes "kmalloc K n s = (p, s')"
  obtains (null) "p = NULL" "s' = tick s"
  | (block) a bs where "p = Some a" "heap s a = None" "length bs = unat n"
      "unat n \<le> KMALLOC_BOUND" "s' = tick (s\<lparr>heap := (heap s)(a \<mapsto> bs)\<rparr>)"
  using assms kalloc_ok by (fastforce simp: kmalloc_def split: option.splits prod.splits)

lemma krealloc_cases:
  assumes "krealloc K (Some a) n s = Some (p, s')" and "heap s a = Some old"
  obtains (null) "p = NULL" "s' = tick s"
  | (block) a' bs where "p = Some a'" "a' = a \<or> heap s a' = None"
      "length bs = unat n" "unat n \<le> KMALLOC_BOUND"
      "s' = tick (s\<lparr>heap := (heap s)(a := None, a' \<mapsto> bs)\<rparr>)"
      "take (min (unat n) (length old)) bs = take (unat n) old"
proof (cases "kresize K (clock s) (heap s) a (unat n)")
  case None
  with assms show ?thesis by (intro null) (auto simp: krealloc_def)
next
  case (Some r)
  obtain a' junk where r: "r = (a', junk)" by (cases r)
  have ok: "a' = a \<or> heap s a' = None" "length junk = unat n" "unat n \<le> KMALLOC_BOUND"
    using kresize_ok [OF Some [unfolded r]] by auto
  let ?bs = "take (unat n) old @ drop (length old) junk"
  show ?thesis
  proof (rule block [of a' ?bs])
    show "p = Some a'" "s' = tick (s\<lparr>heap := (heap s)(a := None, a' \<mapsto> ?bs)\<rparr>)"
      using assms Some r by (auto simp: krealloc_def)
    show "length ?bs = unat n" using ok by (simp add: min_def)
    show "take (min (unat n) (length old)) ?bs = take (unat n) old" by (simp add: min_def)
  qed (use ok in auto)
qed

lemma krealloc_live: "heap s a \<noteq> None \<Longrightarrow> \<exists>p s'. krealloc K (Some a) n s = Some (p, s')"
  by (auto simp: krealloc_def split: option.splits)

end

section \<open>A concrete allocator\<close>

text \<open>
  First fit over sixteen slots, refusing the calls at the times that \<open>fails\<close> names and
  interrupting the waits that \<open>intr\<close> names. It meets the contract and evaluates, so that
  the theorems apply to it at concrete states.
\<close>

fun first_fit :: "heap \<Rightarrow> nat \<Rightarrow> nat \<Rightarrow> nat option" where
  "first_fit h 0 a = None"
| "first_fit h (Suc k) a = (if h a = None then Some a else first_fit h k (Suc a))"

definition slots_env :: "(nat \<Rightarrow> bool) \<Rightarrow> (nat \<Rightarrow> bool) \<Rightarrow> kenv" where
  "slots_env fails intr =
     \<lparr>kalloc = (\<lambda>t h n. if fails t \<or> n > KMALLOC_BOUND then None
                else map_option (\<lambda>a. (a, replicate n nul)) (first_fit h 16 0)),
      kresize = (\<lambda>t h a n. if fails t \<or> n > KMALLOC_BOUND then None else Some (a, replicate n nul)),
      signalled = intr,
      iowr = (\<lambda>m n k. of_nat (3221225472 + k * 65536 + m * 256 + n))\<rparr>"

lemma first_fit_free: "first_fit h k a = Some b \<Longrightarrow> h b = None"
  by (induction h k a rule: first_fit.induct) (auto split: if_splits)

interpretation slots: kernel_allocator "slots_env fails intr"
  by unfold_locales
    (auto simp: slots_env_def split: if_splits dest!: first_fit_free)

section \<open>Rules for accesses\<close>

lemma read_bytes_block:
  "heap s a = Some bs \<Longrightarrow> off + n \<le> length bs \<Longrightarrow> read_bytes (Some a) off n s = Some (take n (drop off bs))"
  by (simp add: read_bytes_def)

lemma write_bytes_block:
  "heap s a = Some bs \<Longrightarrow> off + length xs \<le> length bs \<Longrightarrow>
   write_bytes (Some a) off xs s =
     Some (s\<lparr>heap := (heap s)(a \<mapsto> take off bs @ xs @ drop (off + length xs) bs)\<rparr>)"
  by (simp add: write_bytes_def)

lemma kfree_block: "heap s a = Some bs \<Longrightarrow> kfree (Some a) s = Some (s\<lparr>heap := (heap s)(a := None)\<rparr>)"
  by (simp add: kfree_def)

lemma kfree_null [simp]: "kfree NULL s = Some s"
  by (simp add: kfree_def)

lemma tick_simps [simp]:
  "heap (tick s) = heap s" "clock (tick s) = Suc (clock s)" "kstate.more (tick s) = kstate.more s"
  by (simp_all add: tick_def)

lemma copy_to_user_fits:
  "off + length xs \<le> length ubuf \<Longrightarrow>
   copy_to_user ubuf off xs = (0, take off ubuf @ xs @ drop (off + length xs) ubuf)"
  by (simp add: copy_to_user_def)

end
