(* ===== verification/Char_Device.thy ===== *)
theory Char_Device
  imports Circular_Buffer Kernel_Memory "HOL-Library.Signed_Division"
begin

text \<open>
  The file operations of the character driver, \<^verbatim>\<open>aesd-char-driver/main.c\<close>: \<^verbatim>\<open>aesd_open\<close>,
  \<^verbatim>\<open>aesd_release\<close>, \<^verbatim>\<open>aesd_read\<close>, \<^verbatim>\<open>aesd_write\<close>, \<^verbatim>\<open>aesd_ioctl\<close> and \<^verbatim>\<open>aesd_llseek\<close>, over the
  device state of \<^verbatim>\<open>aesdchar.h\<close> and the heap of \<open>Kernel_Memory\<close>. Each handler is the whole
  handler: its guards, its locking, its error returns. This theory holds the definitions
  and the termination proofs of the two loops; \<open>Char_Device_Invariant\<close> and the theories
  after it prove the handlers correct.
\<close>

section \<open>State\<close>

datatype errno = ERESTARTSYS | ENOMEM | EFAULT | EINVAL | ENOTTY

text \<open>A kernel object pointer: null, an error pointer (\<^verbatim>\<open>ERR_PTR\<close>), or an object.\<close>

datatype kobj = KNull | KErr int | KObj nat

text \<open>\<open>lock\<close> is whether the mutex is held.\<close>

record aesd_dev =
  buffer :: aesd_circular_buffer
  lock :: bool
  pending :: ptr
  pending_len :: u64
  devno :: nat
  dev_class :: kobj
  device :: kobj

text \<open>\<^verbatim>\<open>memset(&aesd_device, 0, ...)\<close>, with the mutex initialised as free.\<close>

definition zero_device :: aesd_dev where
  "zero_device = \<lparr>buffer = zero_buffer, lock = False, pending = NULL, pending_len = 0,
     devno = 0, dev_class = KNull, device = KNull\<rparr>"

record aesd_state = kstate +
  aesd_device :: aesd_dev

text \<open>
  An open file, \<^verbatim>\<open>struct file\<close>: \<open>private_data\<close> is null or the address of the one device; \<open>f_pos\<close> is a
  \<^verbatim>\<open>loff_t\<close>, read with \<open>sint\<close>.
\<close>

record kfile =
  private_data :: "unit option"
  f_pos :: u64

record aesd_seekto =
  write_cmd :: u32
  write_cmd_offset :: u32

abbreviation dev_update :: "(aesd_dev \<Rightarrow> aesd_dev) \<Rightarrow> aesd_state \<Rightarrow> aesd_state" where
  "dev_update f s \<equiv> s\<lparr>aesd_device := f (aesd_device s)\<rparr>"

section \<open>Locking\<close>

text \<open>
  \<open>True\<close> is the non-zero return, after a signal. Taking the mutex while this thread holds
  it already would never return.
\<close>

definition mutex_lock_interruptible :: "kenv \<Rightarrow> aesd_state \<Rightarrow> (bool \<times> aesd_state) option" where
  "mutex_lock_interruptible K s =
     (if signalled K (clock s) then Some (True, tick s)
      else if lock (aesd_device s) then None
      else Some (False, tick (dev_update (lock_update (\<lambda>_. True)) s)))"

definition mutex_unlock :: "aesd_state \<Rightarrow> aesd_state option" where
  "mutex_unlock s =
     (if lock (aesd_device s) then Some (dev_update (lock_update (\<lambda>_. False)) s) else None)"

section \<open>open and release\<close>

definition aesd_open :: "kfile \<Rightarrow> int \<times> kfile" where
  "aesd_open filep = (0, filep\<lparr>private_data := Some ()\<rparr>)"

definition aesd_release :: "kfile \<Rightarrow> int \<times> kfile" where
  "aesd_release filep = (0, filep)"

section \<open>read\<close>

lemma find_loop_in_range:
  "find_loop b off n base pos = Some (Some (i, r)) \<Longrightarrow>
   i < length (entry b) \<and> r < entry_size (entry b ! i) \<and> buffptr (entry b ! i) \<noteq> NULL"
proof (induction b off n base pos rule: find_loop.induct)
  case (2 b off n base pos)
  show ?case
  proof (cases "unat pos < length (entry b)")
    case True
    let ?e = "entry b ! unat pos"
    show ?thesis
    proof (cases "buffptr ?e = NULL \<or> entry_size ?e = 0")
      case True
      with \<open>unat pos < length (entry b)\<close> "2.prems" show ?thesis by auto
    next
      case ok: False
      show ?thesis
      proof (cases "off \<ge> base \<and> off < base + entry_size ?e")
        case True
        with ok \<open>unat pos < length (entry b)\<close> "2.prems"
        have "i = unat pos" "r = off - base" by auto
        moreover have "off - base < entry_size ?e"
          using True by (intro offset_in_interval) auto
        ultimately show ?thesis using ok \<open>unat pos < length (entry b)\<close> by auto
      next
        case False
        with ok \<open>unat pos < length (entry b)\<close> "2.prems" "2.IH" [of ?e] show ?thesis by auto
      qed
    qed
  next
    case False
    with "2.prems" show ?thesis by (simp add: array_get_def)
  qed
qed simp

lemma find_in_range:
  assumes "aesd_circular_buffer_find_entry_offset_for_fpos (Some b) off (Some v) = Some (Some i, r)"
  shows "\<exists>r'. r = Some r' \<and> i < length (entry b) \<and> r' < entry_size (entry b ! i)"
  using assms
  by (auto simp: aesd_circular_buffer_find_entry_offset_for_fpos_def
      split: option.splits Option.bind_splits dest: find_loop_in_range)

text \<open>
  The copy loop. The position and the length are known; what changes is \<^verbatim>\<open>copied\<close>,
  \<^verbatim>\<open>entry_off\<close> and the user's buffer. The result is the error, or the number of bytes
  copied.
\<close>

function aesd_read_loop ::
  "aesd_state \<Rightarrow> u64 \<Rightarrow> u64 \<Rightarrow> u64 \<Rightarrow> u64 \<Rightarrow> byte list \<Rightarrow> ((errno + u64) \<times> byte list) option" where
  "aesd_read_loop s count pos copied entry_off ubuf =
     (if copied < count then do {
        r \<leftarrow> aesd_circular_buffer_find_entry_offset_for_fpos
               (Some (buffer (aesd_device s))) (pos + copied) (Some entry_off);
        case fst r of
          None \<Rightarrow> Some (Inr copied, ubuf)
        | Some i \<Rightarrow> do {
            off \<leftarrow> snd r;
            e \<leftarrow> array_get (entry (buffer (aesd_device s))) i;
            let to_copy = min (count - copied) (entry_size e - off);
            src \<leftarrow> read_bytes (buffptr e) (unat off) (unat to_copy) s;
            let (left, ubuf') = copy_to_user ubuf (unat copied) src;
            if left \<noteq> 0 then Some (Inl EFAULT, ubuf')
            else aesd_read_loop s count pos (copied + to_copy) off ubuf'
          }
      }
      else Some (Inr copied, ubuf))"
  by pat_completeness auto

text \<open>
  The loop ends: the search returns an offset inside an entry, so every round copies at
  least one byte.
\<close>

lemma read_loop_progress:
  assumes "(copied :: u64) < count" and "off < n"
  shows "unat (count - (copied + min (count - copied) (n - off))) < unat (count - copied)"
proof -
  let ?m = "min (count - copied) (n - off)"
  have m: "?m \<le> count - copied" by simp
  have pos: "0 < unat ?m"
    using assms by (auto simp: min_def word_less_nat_alt word_nat)
  have "count - (copied + ?m) = (count - copied) - ?m" by (simp add: algebra_simps)
  moreover have "unat ((count - copied) - ?m) = unat (count - copied) - unat ?m"
    by (rule unat_sub_u64) (use m in \<open>simp add: word_le_nat_alt\<close>)
  ultimately have "unat (count - (copied + ?m)) = unat (count - copied) - unat ?m"
    by metis
  with pos m show ?thesis by (simp add: word_le_nat_alt)
qed

termination aesd_read_loop
  by (relation "measure (\<lambda>(s, count, pos, copied, entry_off, ubuf). unat (count - copied))")
    (auto dest!: find_in_range intro!: read_loop_progress)

declare aesd_read_loop.simps [simp del]

text \<open>
  \<^verbatim>\<open>aesd_read\<close>: the result, the user's buffer, the file position and the state. The
  position is the caller's (\<^verbatim>\<open>loff_t *f_pos\<close>), not the file's field.
\<close>

definition aesd_read ::
  "kenv \<Rightarrow> kfile \<Rightarrow> byte list \<Rightarrow> u64 \<Rightarrow> u64 \<Rightarrow> aesd_state \<Rightarrow>
   ((errno + u64) \<times> byte list \<times> u64 \<times> aesd_state) option" where
  "aesd_read K filep ubuf count pos s =
     (if count = 0 then Some (Inr 0, ubuf, pos, s)
      else do {
        private_data filep;
        (intr, s1) \<leftarrow> mutex_lock_interruptible K s;
        if intr then Some (Inl ERESTARTSYS, ubuf, pos, s1)
        else do {
          (r, ubuf') \<leftarrow> aesd_read_loop s1 count pos 0 0 ubuf;
          s2 \<leftarrow> mutex_unlock s1;
          Some (r, ubuf', (case r of Inl _ \<Rightarrow> pos | Inr copied \<Rightarrow> pos + copied), s2)
        }
      })"

section \<open>write\<close>

text \<open>The scan for a newline from index \<open>i\<close>; \<open>Some None\<close> if there is none before the length.\<close>

function find_newline :: "aesd_state \<Rightarrow> u64 \<Rightarrow> u64 option option" where
  "find_newline s i =
     (if i < pending_len (aesd_device s) then do {
        cs \<leftarrow> read_bytes (pending (aesd_device s)) (unat i) 1 s;
        if cs = [newline] then Some (Some i) else find_newline s (i + 1)
      }
      else Some None)"
  by pat_completeness auto

termination find_newline
  by (relation "measure (\<lambda>(s, i). unat (pending_len (aesd_device s)) - unat i)")
    (auto simp: word_less_nat_alt unat_u64_Suc intro!: diff_less_mono2)

declare find_newline.simps [simp del]

lemma find_newline_bound:
  "find_newline s i = Some (Some j) \<Longrightarrow> j < pending_len (aesd_device s)"
proof (induction s i rule: find_newline.induct)
  case (1 s i)
  from "1.prems" show ?case
    by (subst (asm) find_newline.simps)
      (auto split: if_splits Option.bind_splits dest: "1.IH")
qed

text \<open>
  The body of the \<^verbatim>\<open>while (1)\<close> loop after a newline was found, in three parts. The new
  entry goes into the ring; if the ring is full, the block of its oldest entry is freed
  and the slot cleared first.
\<close>

definition insert_entry :: "aesd_buffer_entry \<Rightarrow> aesd_state \<Rightarrow> aesd_state option" where
  "insert_entry new_entry s = do {
     let b = buffer (aesd_device s);
     s1 \<leftarrow> (if full b then do {
               old \<leftarrow> array_get (entry b) (unat (in_offs b));
               s' \<leftarrow> kfree (buffptr old) s;
               es \<leftarrow> array_set (entry b) (unat (in_offs b)) zero_entry;
               Some (dev_update (buffer_update (\<lambda>_. b\<lparr>entry := es\<rparr>)) s')
             }
             else Some s);
     b' \<leftarrow> cb_push (buffer (aesd_device s1)) new_entry;
     Some (dev_update (buffer_update (\<lambda>_. b')) s1)
   }"

text \<open>The stored bytes leave the pending block, which is freed or shrunk.\<close>

definition drop_pending :: "kenv \<Rightarrow> u64 \<Rightarrow> aesd_state \<Rightarrow> aesd_state option" where
  "drop_pending K cmd_len s = do {
     let d = aesd_device s;
     s1 \<leftarrow> mem_move (pending d) (pending d) (unat cmd_len) (unat (pending_len d - cmd_len)) s;
     let s2 = dev_update (pending_len_update (\<lambda>l. l - cmd_len)) s1;
     if pending_len (aesd_device s2) = 0 then do {
       s3 \<leftarrow> kfree (pending (aesd_device s2)) s2;
       Some (dev_update (pending_update (\<lambda>_. NULL)) s3)
     }
     else do {
       (shrunk, s3) \<leftarrow> krealloc K (pending (aesd_device s2)) (pending_len (aesd_device s2)) s2;
       Some (if shrunk \<noteq> NULL then dev_update (pending_update (\<lambda>_. shrunk)) s3 else s3)
     }
   }"

text \<open>
  The whole body: the first \<open>cmd_len\<close> pending bytes become an entry of the ring.
  \<open>Some ENOMEM\<close> is the error return inside the body.
\<close>

definition store_command :: "kenv \<Rightarrow> u64 \<Rightarrow> aesd_state \<Rightarrow> (errno option \<times> aesd_state) option" where
  "store_command K cmd_len s =
     (let (cmd, s1) = kmalloc K cmd_len s
      in if cmd = NULL then Some (Some ENOMEM, s1)
         else do {
           s2 \<leftarrow> mem_move cmd (pending (aesd_device s1)) 0 (unat cmd_len) s1;
           s3 \<leftarrow> insert_entry \<lparr>buffptr = cmd, entry_size = cmd_len\<rparr> s2;
           s4 \<leftarrow> drop_pending K cmd_len s3;
           Some (None, s4)
         })"

lemma aesd_device_tick [simp]: "aesd_device (tick s) = aesd_device s"
  by (simp add: tick_def)

lemma aesd_device_kmalloc: "kmalloc K n s = (p, s') \<Longrightarrow> aesd_device s' = aesd_device s"
  by (auto simp: kmalloc_def split: option.splits)

lemma aesd_device_krealloc: "krealloc K p n s = Some (q, s') \<Longrightarrow> aesd_device s' = aesd_device s"
  by (auto simp: krealloc_def kmalloc_def split: option.splits Option.bind_splits)

lemma aesd_device_kfree: "kfree p s = Some s' \<Longrightarrow> aesd_device s' = aesd_device s"
  by (auto simp: kfree_def split: option.splits if_splits)

lemma aesd_device_mem_move: "mem_move d p off n s = Some s' \<Longrightarrow> aesd_device s' = aesd_device s"
  by (auto simp: mem_move_def write_bytes_def split: Option.bind_splits if_splits)

lemma aesd_device_copy_from_user:
  "copy_from_user d off u n s = Some (r, s') \<Longrightarrow> aesd_device s' = aesd_device s"
  by (auto simp: copy_from_user_def write_bytes_def split: Option.bind_splits if_splits)

lemmas device_frame = aesd_device_kmalloc aesd_device_krealloc aesd_device_kfree
  aesd_device_mem_move aesd_device_copy_from_user

text \<open>The fields of the device that no handler but the locking touches.\<close>

definition same_identity :: "aesd_state \<Rightarrow> aesd_state \<Rightarrow> bool" where
  "same_identity s s' \<longleftrightarrow>
     lock (aesd_device s') = lock (aesd_device s) \<and> devno (aesd_device s') = devno (aesd_device s) \<and>
     dev_class (aesd_device s') = dev_class (aesd_device s) \<and> device (aesd_device s') = device (aesd_device s)"

lemma insert_entry_frame:
  "insert_entry e s = Some s' \<Longrightarrow>
   pending (aesd_device s') = pending (aesd_device s) \<and>
   pending_len (aesd_device s') = pending_len (aesd_device s) \<and>
   same_identity s s'"
  by (auto simp: same_identity_def insert_entry_def Let_def split: if_splits Option.bind_splits dest!: device_frame)

lemma drop_pending_frame:
  "drop_pending K n s = Some s' \<Longrightarrow>
   buffer (aesd_device s') = buffer (aesd_device s) \<and>
   pending_len (aesd_device s') = pending_len (aesd_device s) - n \<and>
   same_identity s s'"
  by (auto simp: same_identity_def drop_pending_def Let_def split: if_splits Option.bind_splits dest!: device_frame)

lemma store_command_pending_len:
  assumes "store_command K n s = Some (None, s')"
  shows "pending_len (aesd_device s') = pending_len (aesd_device s) - n"
  using assms
  by (auto simp: store_command_def Let_def split: prod.splits if_splits Option.bind_splits
      dest!: device_frame insert_entry_frame drop_pending_frame)

function aesd_write_loop :: "kenv \<Rightarrow> aesd_state \<Rightarrow> (errno option \<times> aesd_state) option" where
  "aesd_write_loop K s = do {
     nl \<leftarrow> find_newline s 0;
     case nl of
       None \<Rightarrow> Some (None, s)
     | Some i \<Rightarrow> do {
         (err, s') \<leftarrow> store_command K (i + 1) s;
         if err \<noteq> None then Some (err, s') else aesd_write_loop K s'
       }
   }"
  by pat_completeness auto

text \<open>Every round takes at least one byte from the pending ones.\<close>

lemma write_loop_progress:
  assumes "(i :: u64) < n"
  shows "unat (n - (i + 1)) < unat n"
  using assms by (simp add: word_less_nat_alt unat_u64_Suc unat_sub_u64)

termination aesd_write_loop
  by (relation "measure (\<lambda>(K, s). unat (pending_len (aesd_device s)))")
    (auto dest!: store_command_pending_len find_newline_bound intro!: write_loop_progress)

declare aesd_write_loop.simps [simp del]

definition aesd_write ::
  "kenv \<Rightarrow> kfile \<Rightarrow> byte list \<Rightarrow> u64 \<Rightarrow> u64 \<Rightarrow> aesd_state \<Rightarrow> ((errno + u64) \<times> u64 \<times> aesd_state) option" where
  "aesd_write K filep ubuf count pos s =
     (if count = 0 then Some (Inr 0, pos, s)
      else do {
        private_data filep;
        (intr, s1) \<leftarrow> mutex_lock_interruptible K s;
        if intr then Some (Inl ERESTARTSYS, pos, s1)
        else do {
          (new_pending, s2) \<leftarrow> krealloc K (pending (aesd_device s1)) (pending_len (aesd_device s1) + count) s1;
          if new_pending = NULL then do {
            s3 \<leftarrow> mutex_unlock s2;
            Some (Inl ENOMEM, pos, s3)
          }
          else do {
            let s3 = dev_update (pending_update (\<lambda>_. new_pending)) s2;
            (left, s4) \<leftarrow> copy_from_user (pending (aesd_device s3)) (unat (pending_len (aesd_device s3)))
                            ubuf (unat count) s3;
            if left \<noteq> 0 then do {
              s5 \<leftarrow> mutex_unlock s4;
              Some (Inl EFAULT, pos, s5)
            }
            else do {
              let s5 = dev_update (pending_len_update (\<lambda>l. l + count)) s4;
              (err, s6) \<leftarrow> aesd_write_loop K s5;
              s7 \<leftarrow> mutex_unlock s6;
              Some (case err of None \<Rightarrow> Inr count | Some e \<Rightarrow> Inl e, pos, s7)
            }
          }
        }
      })"

section \<open>ioctl\<close>

definition AESD_IOC_MAGIC :: nat where
  "AESD_IOC_MAGIC = 0x16"

text \<open>\<^verbatim>\<open>sizeof(struct aesd_seekto)\<close> is eight bytes.\<close>

definition AESDCHAR_IOCSEEKTO :: "kenv \<Rightarrow> u32" where
  "AESDCHAR_IOCSEEKTO K = iowr K AESD_IOC_MAGIC 1 8"

text \<open>
  The number of entries as the ioctl computes it: in \<^verbatim>\<open>int\<close>, with the remainder of C,
  and stored in a \<^verbatim>\<open>size_t\<close>.
\<close>

definition ioctl_total_entries :: "aesd_circular_buffer \<Rightarrow> u64" where
  "ioctl_total_entries b =
     (if full b then of_nat AESDCHAR_MAX_WRITE_OPERATIONS_SUPPORTED
      else of_int (((uint (in_offs b) - uint (out_offs b)) + int AESDCHAR_MAX_WRITE_OPERATIONS_SUPPORTED)
                    smod int AESDCHAR_MAX_WRITE_OPERATIONS_SUPPORTED))"

text \<open>\<^verbatim>\<open>new_position\<close> after the rounds \<open>0, ..., n - 1\<close> of the summing loop.\<close>

fun ioctl_position :: "aesd_circular_buffer \<Rightarrow> nat \<Rightarrow> u64 option" where
  "ioctl_position b 0 = Some 0"
| "ioctl_position b (Suc i) = do {
     p \<leftarrow> ioctl_position b i;
     e \<leftarrow> array_get (entry b) (unat ((ucast (out_offs b) + of_nat i) mod buffer_size));
     Some (p + entry_size e)
   }"

text \<open>
  \<open>arg\<close> is what the user's pointer points to, \<open>None\<close> if it cannot be read. The structure
  is copied before the command is looked at.
\<close>

definition aesd_ioctl ::
  "kenv \<Rightarrow> kfile \<Rightarrow> u32 \<Rightarrow> aesd_seekto option \<Rightarrow> aesd_state \<Rightarrow>
   ((errno + u64) \<times> kfile \<times> aesd_state) option" where
  "aesd_ioctl K filep cmd arg s =
     (case arg of
        None \<Rightarrow> Some (Inl EFAULT, filep, s)
      | Some seekto \<Rightarrow> do {
          private_data filep;
          (intr, s1) \<leftarrow> mutex_lock_interruptible K s;
          if intr then Some (Inl ERESTARTSYS, filep, s1)
          else if cmd = AESDCHAR_IOCSEEKTO K then do {
            let b = buffer (aesd_device s1);
            if ucast (write_cmd seekto) \<ge> ioctl_total_entries b then do {
              s2 \<leftarrow> mutex_unlock s1;
              Some (Inl EINVAL, filep, s2)
            }
            else do {
              new_position \<leftarrow> ioctl_position b (unat (write_cmd seekto));
              e \<leftarrow> array_get (entry b) (unat ((ucast (out_offs b) + write_cmd seekto) mod 10));
              if ucast (write_cmd_offset seekto) \<ge> entry_size e then do {
                s2 \<leftarrow> mutex_unlock s1;
                Some (Inl EINVAL, filep, s2)
              }
              else do {
                let filep' = filep\<lparr>f_pos := new_position + ucast (write_cmd_offset seekto)\<rparr>;
                s2 \<leftarrow> mutex_unlock s1;
                Some (Inr 0, filep', s2)
              }
            }
          }
          else do {
            s2 \<leftarrow> mutex_unlock s1;
            Some (Inl ENOTTY, filep, s2)
          }
        })"

section \<open>llseek\<close>

text \<open>\<^verbatim>\<open>total_size\<close>: the sizes of all the slots that hold a pointer.\<close>

definition llseek_total_size :: "aesd_circular_buffer \<Rightarrow> u64" where
  "llseek_total_size b =
     AESD_CIRCULAR_BUFFER_FOREACH
       (\<lambda>e total_size. if buffptr e \<noteq> NULL then total_size + entry_size e else total_size) b 0"

text \<open>
  Positions are \<^verbatim>\<open>loff_t\<close>: 64 bits in two's complement, wrapping around as the kernel is
  compiled; \<open>sint newpos < 0\<close> is the comparison \<^verbatim>\<open>newpos < 0\<close>.
\<close>

definition aesd_llseek ::
  "kenv \<Rightarrow> kfile \<Rightarrow> u64 \<Rightarrow> int \<Rightarrow> aesd_state \<Rightarrow> ((errno + u64) \<times> kfile \<times> aesd_state) option" where
  "aesd_llseek K filep offset whence s = do {
     private_data filep;
     (intr, s1) \<leftarrow> mutex_lock_interruptible K s;
     if intr then Some (Inl ERESTARTSYS, filep, s1)
     else
       (case (if whence = 0 then Some offset
              else if whence = 1 then Some (f_pos filep + offset)
              else if whence = 2 then Some (llseek_total_size (buffer (aesd_device s1)) + offset)
              else None) of
          None \<Rightarrow> do {
            s2 \<leftarrow> mutex_unlock s1;
            Some (Inl EINVAL, filep, s2)
          }
        | Some newpos \<Rightarrow>
            if sint newpos < 0 then do {
              s2 \<leftarrow> mutex_unlock s1;
              Some (Inl EINVAL, filep, s2)
            }
            else do {
              let filep' = filep\<lparr>f_pos := newpos\<rparr>;
              s2 \<leftarrow> mutex_unlock s1;
              Some (Inr newpos, filep', s2)
            })
   }"

end
