(* ===== verification/Char_Device_Invariant.thy ===== *)
theory Char_Device_Invariant
  imports Char_Device
begin

text \<open>
  What the driver promises, as an abstract device: the newest ten commands and the
  unfinished rest of the last write (\<open>dev_cmds\<close>, \<open>dev_partial\<close>), and the invariant that ties
  the ring, the pending block and the heap together: every block is owned by exactly one
  of them, and no block of the module is owned by none.
\<close>

section \<open>Abstraction\<close>

definition entry_content :: "heap \<Rightarrow> aesd_buffer_entry \<Rightarrow> byte list" where
  "entry_content h e = (case buffptr e of None \<Rightarrow> [] | Some a \<Rightarrow> (case h a of None \<Rightarrow> [] | Some bs \<Rightarrow> bs))"

definition dev_cmds :: "aesd_state \<Rightarrow> byte list list" where
  "dev_cmds s = map (entry_content (heap s)) (cb_entries (buffer (aesd_device s)))"

definition dev_partial :: "aesd_state \<Rightarrow> byte list" where
  "dev_partial s =
     (case pending (aesd_device s) of None \<Rightarrow> []
      | Some a \<Rightarrow> (case heap s a of None \<Rightarrow> [] | Some bs \<Rightarrow> take (unat (pending_len (aesd_device s))) bs))"

section \<open>The invariant\<close>

definition entry_ok :: "heap \<Rightarrow> aesd_buffer_entry \<Rightarrow> bool" where
  "entry_ok h e \<longleftrightarrow>
     (case buffptr e of None \<Rightarrow> False
      | Some a \<Rightarrow> (case h a of None \<Rightarrow> False
                  | Some bs \<Rightarrow> bs \<noteq> [] \<and> length bs \<le> KMALLOC_BOUND \<and> entry_size e = of_nat (length bs)))"

definition blocks_of :: "aesd_buffer_entry list \<Rightarrow> nat list" where
  "blocks_of es = map (the \<circ> buffptr) es"

text \<open>
  \<open>mem_inv h es extra\<close>: the blocks of the heap are those of the entries \<open>es\<close> and the blocks
  \<open>extra\<close>, each once.
\<close>

definition mem_inv :: "heap \<Rightarrow> aesd_buffer_entry list \<Rightarrow> nat list \<Rightarrow> bool" where
  "mem_inv h es extra \<longleftrightarrow> (\<forall>e \<in> set es. entry_ok h e) \<and>
     distinct (blocks_of es @ extra) \<and> dom h = set (blocks_of es @ extra)"

definition pending_ok :: "heap \<Rightarrow> ptr \<Rightarrow> u64 \<Rightarrow> bool" where
  "pending_ok h p len \<longleftrightarrow>
     (case p of None \<Rightarrow> len = 0
      | Some a \<Rightarrow> (case h a of None \<Rightarrow> False
                  | Some bs \<Rightarrow> unat len \<le> length bs \<and> length bs \<le> KMALLOC_BOUND))"

definition dev_inv :: "aesd_state \<Rightarrow> bool" where
  "dev_inv s \<longleftrightarrow>
     (let d = aesd_device s in
      cb_wf (buffer d) \<and> pending_ok (heap s) (pending d) (pending_len d) \<and>
      mem_inv (heap s) (cb_entries (buffer d)) (case pending d of None \<Rightarrow> [] | Some a \<Rightarrow> [a]))"

lemma entry_okE:
  assumes "entry_ok h e"
  obtains a bs where "buffptr e = Some a" "h a = Some bs" "bs \<noteq> []" "length bs \<le> KMALLOC_BOUND"
    "entry_size e = of_nat (length bs)"
  using assms by (auto simp: entry_ok_def split: option.splits)

text \<open>Changing a block that is not an entry's leaves the entries and their contents alone.\<close>

lemma entries_frame:
  assumes "\<forall>e \<in> set es. entry_ok h e" and "a \<notin> set (blocks_of es)"
  shows "(\<forall>e \<in> set es. entry_ok (h(a := v)) e) \<and>
    map (entry_content (h(a := v))) es = map (entry_content h) es"
proof -
  have one: "entry_ok (h(a := v)) e \<and> entry_content (h(a := v)) e = entry_content h e"
    if "e \<in> set es" for e
  proof -
    have "the (buffptr e) \<noteq> a" using assms(2) that by (auto simp: blocks_of_def)
    with assms(1) that show ?thesis
      by (cases "buffptr e") (auto simp: entry_ok_def entry_content_def)
  qed
  then show ?thesis by simp
qed

lemma mem_inv_entries: "mem_inv h es extra \<Longrightarrow> \<forall>e \<in> set es. entry_ok h e"
  by (simp add: mem_inv_def)

named_theorems heap_steps \<open>how one heap operation changes \<open>mem_inv\<close> and what it leaves alone\<close>

lemma mem_inv_alloc [heap_steps]:
  assumes "mem_inv h es extra" and "h a = None"
  shows "mem_inv (h(a \<mapsto> bs)) es (a # extra) \<and>
    map (entry_content (h(a \<mapsto> bs))) es = map (entry_content h) es"
proof -
  have a: "a \<notin> set (blocks_of es @ extra)" using assms by (auto simp: mem_inv_def)
  have "(\<forall>e \<in> set es. entry_ok (h(a \<mapsto> bs)) e) \<and>
    map (entry_content (h(a \<mapsto> bs))) es = map (entry_content h) es"
    using a by (intro entries_frame mem_inv_entries [OF assms(1)]) simp
  with a assms(1) show ?thesis by (auto simp: mem_inv_def)
qed

lemma mem_inv_write [heap_steps]:
  assumes "mem_inv h es extra" and "a \<in> set extra"
  shows "mem_inv (h(a \<mapsto> bs)) es extra \<and>
    map (entry_content (h(a \<mapsto> bs))) es = map (entry_content h) es"
proof -
  have a: "a \<notin> set (blocks_of es)" "a \<in> dom h" using assms by (auto simp: mem_inv_def)
  have "(\<forall>e \<in> set es. entry_ok (h(a \<mapsto> bs)) e) \<and>
    map (entry_content (h(a \<mapsto> bs))) es = map (entry_content h) es"
    by (rule entries_frame [OF mem_inv_entries [OF assms(1)] a(1)])
  with a assms(1) show ?thesis by (auto simp: mem_inv_def)
qed

lemma mem_inv_free_entry [heap_steps]:
  assumes "mem_inv h (e # es) extra" and "buffptr e = Some a"
  shows "mem_inv (h(a := None)) es extra \<and>
    map (entry_content (h(a := None))) es = map (entry_content h) es"
proof -
  have a: "a \<notin> set (blocks_of es)" "a \<notin> set extra"
    using assms by (auto simp: mem_inv_def blocks_of_def)
  have "(\<forall>e \<in> set es. entry_ok (h(a := None)) e) \<and>
    map (entry_content (h(a := None))) es = map (entry_content h) es"
    using mem_inv_entries [OF assms(1)] a(1) by (intro entries_frame) auto
  with a assms show ?thesis by (auto simp: mem_inv_def blocks_of_def)
qed

lemma mem_inv_free_extra [heap_steps]:
  assumes "mem_inv h es (a # extra)"
  shows "mem_inv (h(a := None)) es extra \<and>
    map (entry_content (h(a := None))) es = map (entry_content h) es"
proof -
  have a: "a \<notin> set (blocks_of es)" "a \<notin> set extra" using assms by (auto simp: mem_inv_def)
  have "(\<forall>e \<in> set es. entry_ok (h(a := None)) e) \<and>
    map (entry_content (h(a := None))) es = map (entry_content h) es"
    by (rule entries_frame [OF mem_inv_entries [OF assms] a(1)])
  with a assms show ?thesis by (auto simp: mem_inv_def)
qed

lemma mem_inv_move [heap_steps]:
  assumes "mem_inv h es [a]" and "a' = a \<or> h a' = None"
  shows "mem_inv (h(a := None, a' \<mapsto> bs)) es [a'] \<and>
    map (entry_content (h(a := None, a' \<mapsto> bs))) es = map (entry_content h) es"
proof -
  have "mem_inv (h(a := None)) es [] \<and> map (entry_content (h(a := None))) es = map (entry_content h) es"
    by (rule mem_inv_free_extra [OF assms(1)])
  moreover have "(h(a := None)) a' = None" using assms(2) by auto
  ultimately show ?thesis
    using mem_inv_alloc [of "h(a := None)" es "[]" a' bs] by simp
qed

lemma mem_inv_adopt [heap_steps]:
  assumes "mem_inv h es (a # extra)" and "h a = Some bs" "bs \<noteq> []" "length bs \<le> KMALLOC_BOUND"
    and "e = \<lparr>buffptr = Some a, entry_size = of_nat (length bs)\<rparr>"
  shows "mem_inv h (es @ [e]) extra"
  using assms by (auto simp: mem_inv_def blocks_of_def entry_ok_def)

lemma mem_inv_live:
  assumes "mem_inv h es extra" and "a \<in> set extra"
  obtains bs where "h a = Some bs"
  using assms by (auto simp: mem_inv_def dom_def)

section \<open>The state after loading\<close>

definition boot_state :: aesd_state where
  "boot_state = \<lparr>heap = Map.empty, clock = 0, aesd_device = zero_device\<rparr>"

definition quiet_kernel :: kenv where
  "quiet_kernel = slots_env (\<lambda>_. False) (\<lambda>_. False)"

definition open_file :: kfile where
  "open_file = \<lparr>private_data = Some (), f_pos = 0\<rparr>"

lemma quiet_kernel [simp]: "kernel_allocator quiet_kernel" "\<not> signalled quiet_kernel t"
  by (simp_all add: quiet_kernel_def slots.kernel_allocator_axioms) (simp add: slots_env_def)

lemma open_file_simps [simp]: "private_data open_file = Some ()" "f_pos open_file = 0"
  by (simp_all add: open_file_def)

lemma dev_inv_zero:
  assumes "buffer (aesd_device s) = zero_buffer" "pending (aesd_device s) = NULL"
    "pending_len (aesd_device s) = 0" "heap s = Map.empty"
  shows "dev_inv s \<and> dev_cmds s = [] \<and> dev_partial s = []"
  using assms
  by (simp add: dev_inv_def Let_def cb_wf_zero cb_entries_zero pending_ok_def
      mem_inv_def blocks_of_def dev_cmds_def dev_partial_def)

lemma boot_state_simps [simp]:
  "dev_inv boot_state" "dev_cmds boot_state = []" "dev_partial boot_state = []"
  "\<not> lock (aesd_device boot_state)"
proof -
  have "dev_inv boot_state \<and> dev_cmds boot_state = [] \<and> dev_partial boot_state = []"
    by (rule dev_inv_zero) (simp_all add: boot_state_def zero_device_def)
  then show "dev_inv boot_state" "dev_cmds boot_state = []" "dev_partial boot_state = []" by simp_all
  show "\<not> lock (aesd_device boot_state)" by (simp add: boot_state_def zero_device_def)
qed

end
