(* ===== verification/Char_Device_Write.thy ===== *)
theory Char_Device_Write
  imports Char_Device_Invariant
begin

text \<open>
  \<^verbatim>\<open>aesd_write\<close> against the abstract device: which commands are in the log and which bytes
  are pending after a write, on every path, and that no path touches memory it does not
  own, leaks a block or leaves the mutex locked.
\<close>

section \<open>The parts of the loop body\<close>

lemma insert_entry_correct:
  assumes wf: "cb_wf (buffer (aesd_device s))"
    and mem: "mem_inv (heap s) (cb_entries (buffer (aesd_device s))) (c # extra)"
    and c: "heap s c = Some bs" "bs \<noteq> []" "length bs \<le> KMALLOC_BOUND"
    and e: "e = \<lparr>buffptr = Some c, entry_size = of_nat (length bs)\<rparr>"
  shows "\<exists>s'. insert_entry e s = Some s' \<and> cb_wf (buffer (aesd_device s')) \<and>
    mem_inv (heap s') (cb_entries (buffer (aesd_device s'))) extra \<and>
    dev_cmds s' = last_n 10 (dev_cmds s @ [bs]) \<and> (\<forall>a \<in> set extra. heap s' a = heap s a)"
proof (cases "full (buffer (aesd_device s))")
  case False
  let ?b = "buffer (aesd_device s)"
  obtain b' where b': "cb_push ?b e = Some b'" "cb_wf b'" "cb_entries b' = last_n 10 (cb_entries ?b @ [e])"
    using ring.push_law [OF wf, of e] e by auto
  have len: "length (cb_entries ?b @ [e]) \<le> 10"
    using wf False by (simp add: cb_count_def cb_wf_def)
  let ?s' = "dev_update (buffer_update (\<lambda>_. b')) s"
  have "insert_entry e s = Some ?s'"
    using False b'(1) by (simp add: insert_entry_def Let_def)
  moreover have "mem_inv (heap s) (cb_entries b') extra"
    using mem_inv_adopt [OF mem c e] b'(3) len by simp
  moreover have "dev_cmds ?s' = last_n 10 (dev_cmds s @ [bs])"
    using b'(3) len c(1) e wf by (simp add: dev_cmds_def entry_content_def)
  ultimately show ?thesis using b'(2) by auto
next
  case True
  let ?b = "buffer (aesd_device s)"
  define b1 where "b1 = ?b\<lparr>entry := (entry ?b)[unat (in_offs ?b) := zero_entry]\<rparr>"
  note b1 = cb_clear_oldest [OF wf True b1_def]
  have cnt: "length (cb_entries ?b) = 10" using wf True by (simp add: cb_count_def)
  then obtain old es where es: "cb_entries ?b = old # es" by (cases "cb_entries ?b") auto
  have old: "old = entry ?b ! unat (in_offs ?b)" using b1(4) es by simp
  have idx: "unat (in_offs ?b) < length (entry ?b)" using wf by (simp add: cb_wf_def)
  have "entry_ok (heap s) old" using mem_inv_entries [OF mem] es by simp
  then obtain a obs where a: "buffptr old = Some a" "heap s a = Some obs"
    by (rule entry_okE)
  let ?h = "(heap s)(a := None)"
  have free: "mem_inv ?h es (c # extra)" and same: "map (entry_content ?h) es = map (entry_content (heap s)) es"
    using mem_inv_free_entry [OF mem [unfolded es] a(1)] by auto
  have ac: "a \<noteq> c" "a \<notin> set extra"
    using mem a(1) by (auto simp: mem_inv_def es blocks_of_def)
  obtain b' where b': "cb_push b1 e = Some b'" "cb_wf b'" "cb_entries b' = last_n 10 (cb_entries b1 @ [e])"
    using ring.push_law [OF b1(1), of e] e by auto
  have entries': "cb_entries b' = es @ [e]"
    using b'(3) b1(3) es cnt last_n_snoc_full [of zero_entry es 10 e] by simp
  let ?s' = "dev_update (buffer_update (\<lambda>_. b')) (s\<lparr>heap := ?h\<rparr>)"
  have "insert_entry e s = Some ?s'"
    using True b'(1) idx a unfolding insert_entry_def Let_def
    by (simp add: old [symmetric] kfree_block b1_def [symmetric])
  moreover have "mem_inv ?h (cb_entries b') extra"
    unfolding entries' by (rule mem_inv_adopt [OF free _ c(2,3) e]) (use c(1) ac in simp)
  moreover have "dev_cmds ?s' = last_n 10 (dev_cmds s @ [bs])"
  proof -
    have "last_n 10 (map (entry_content (heap s)) (old # es) @ [bs]) = map (entry_content (heap s)) es @ [bs]"
      using cnt es last_n_snoc_full [of "entry_content (heap s) old" "map (entry_content (heap s)) es" 10 bs]
      by simp
    then show ?thesis
      using entries' es same c(1) ac e by (simp add: dev_cmds_def entry_content_def)
  qed
  ultimately show ?thesis using b'(2) ac(2) by auto
qed

context kernel_allocator
begin

lemma drop_pending_correct:
  assumes wf: "cb_wf (buffer (aesd_device s))"
    and mem: "mem_inv (heap s) (cb_entries (buffer (aesd_device s))) [p]"
    and p: "pending (aesd_device s) = Some p" "heap s p = Some pb"
    and len: "unat (pending_len (aesd_device s)) \<le> length pb" "length pb \<le> KMALLOC_BOUND"
    and n: "unat n \<le> unat (pending_len (aesd_device s))"
  shows "\<exists>s'. drop_pending K n s = Some s' \<and> dev_inv s' \<and> dev_cmds s' = dev_cmds s \<and>
    dev_partial s' = drop (unat n) (take (unat (pending_len (aesd_device s))) pb)"
proof -
  let ?es = "cb_entries (buffer (aesd_device s))"
  let ?l = "pending_len (aesd_device s)"
  let ?m = "unat ?l - unat n"
  have m: "unat (?l - n) = ?m" using n by (simp add: word_nat)
  let ?rest = "take ?m (drop (unat n) pb)"
  let ?pb = "?rest @ drop ?m pb"
  have rest: "?rest = drop (unat n) (take (unat ?l) pb)" by (simp add: drop_take)
  have lrest: "length ?rest = ?m" using len n by simp
  have lpb: "length ?pb = length pb" "take ?m ?pb = ?rest" using len n by simp_all
  define s1 where "s1 = dev_update (pending_len_update (\<lambda>l. l - n)) (s\<lparr>heap := (heap s)(p \<mapsto> ?pb)\<rparr>)"
  have move: "mem_move (Some p) (Some p) (unat n) ?m s = Some (s\<lparr>heap := (heap s)(p \<mapsto> ?pb)\<rparr>)"
    using p(2) len n by (simp add: mem_move_def read_bytes_block write_bytes_block)
  have mem1: "mem_inv (heap s1) ?es [p]" and same1: "map (entry_content (heap s1)) ?es = map (entry_content (heap s)) ?es"
    using mem_inv_write [OF mem, of p ?pb] by (auto simp: s1_def)
  have drop: "drop_pending K n s =
     (if ?l - n = 0 then do { s3 \<leftarrow> kfree (Some p) s1; Some (dev_update (pending_update (\<lambda>_. NULL)) s3) }
      else do { (shrunk, s3) \<leftarrow> krealloc K (Some p) (?l - n) s1;
                Some (if shrunk \<noteq> NULL then dev_update (pending_update (\<lambda>_. shrunk)) s3 else s3) })"
    using p(1) m move by (simp add: drop_pending_def Let_def s1_def)
  have heap1: "heap s1 p = Some ?pb" by (simp add: s1_def)
  show ?thesis
  proof (cases "?l - n = 0")
    case True
    then have "?m = 0" using m by simp
    let ?s' = "dev_update (pending_update (\<lambda>_. NULL)) (s1\<lparr>heap := (heap s1)(p := None)\<rparr>)"
    have "drop_pending K n s = Some ?s'"
      using True drop heap1 by (simp add: kfree_block)
    moreover have "mem_inv (heap ?s') ?es []" "map (entry_content (heap ?s')) ?es = map (entry_content (heap s)) ?es"
      using mem_inv_free_extra [OF mem1] same1 by auto
    ultimately show ?thesis
      using wf True \<open>?m = 0\<close> rest
      by (auto simp: dev_inv_def Let_def dev_cmds_def dev_partial_def s1_def pending_ok_def)
  next
    case False
    obtain q s3 where r: "krealloc K (Some p) (?l - n) s1 = Some (q, s3)"
      using krealloc_live [of s1 p "?l - n"] heap1 by auto
    show ?thesis
      using r heap1
    proof (cases rule: krealloc_cases)
      case null
      then have "drop_pending K n s = Some (tick s1)" using False drop r by simp
      with mem1 same1 wf p(1) m lpb len rest show ?thesis
        by (auto simp: dev_inv_def Let_def dev_cmds_def dev_partial_def s1_def pending_ok_def)
    next
      case (block a' bs)
      let ?s' = "dev_update (pending_update (\<lambda>_. Some a')) s3"
      have "drop_pending K n s = Some ?s'" using False drop r block by simp
      moreover have "mem_inv (heap ?s') ?es [a']" "map (entry_content (heap ?s')) ?es = map (entry_content (heap s)) ?es"
        using mem_inv_move [OF mem1 block(2), of bs] same1 block(5) by auto
      moreover have "take ?m bs = ?rest"
      proof -
        have "min (unat (?l - n)) (length ?pb) = ?m" using m lpb(1) len by simp
        then show ?thesis using block(6) m lpb(2) by simp
      qed
      ultimately show ?thesis
        using wf m rest block(3,4,5)
        by (auto simp: dev_inv_def Let_def dev_cmds_def dev_partial_def s1_def pending_ok_def)
    qed
  qed
qed

text \<open>One round of the loop: either the allocation fails and nothing changes, or the first
  command moves from the pending bytes to the log.\<close>

lemma store_command_correct:
  assumes inv: "dev_inv s" and part: "dev_partial s = cmd @ rest" and "cmd \<noteq> []"
  shows "(kalloc K (clock s) (heap s) (length cmd) = None \<and>
      store_command K (of_nat (length cmd)) s = Some (Some ENOMEM, tick s)) \<or>
    (\<exists>s'. store_command K (of_nat (length cmd)) s = Some (None, s') \<and> dev_inv s' \<and>
      dev_cmds s' = last_n 10 (dev_cmds s @ [cmd]) \<and> dev_partial s' = rest)"
proof -
  let ?d = "aesd_device s"
  let ?es = "cb_entries (buffer ?d)"
  let ?n = "of_nat (length cmd) :: u64"
  obtain p pb where p: "pending ?d = Some p" "heap s p = Some pb"
    using part \<open>cmd \<noteq> []\<close> by (auto simp: dev_partial_def split: option.splits)
  have len: "unat (pending_len ?d) \<le> length pb" "length pb \<le> KMALLOC_BOUND" and wf: "cb_wf (buffer ?d)"
    and mem: "mem_inv (heap s) ?es [p]"
    using inv p by (auto simp: dev_inv_def Let_def pending_ok_def)
  have tk: "take (unat (pending_len ?d)) pb = cmd @ rest"
    using part p by (simp add: dev_partial_def)
  have lcr: "length cmd + length rest = unat (pending_len ?d)"
    using arg_cong [OF tk, of length] len by simp
  then have n: "unat ?n = length cmd" using len by (simp add: word_nat)
  have cmd: "take (length cmd) pb = cmd"
    by (metis append_eq_conv_conj lcr le_add1 min.absorb1 take_take tk)
  obtain q s1 where r: "kmalloc K ?n s = (q, s1)" by fastforce
  then show ?thesis
  proof (cases rule: kmalloc_cases)
    case null
    with r n show ?thesis
      by (auto simp: store_command_def kmalloc_def split: option.splits)
  next
    case (block c bs0)
    have s1: "aesd_device s1 = ?d" "heap s1 = (heap s)(c \<mapsto> bs0)" using block by simp_all
    have cp: "c \<noteq> p" using block(2) p(2) by auto
    define s2 where "s2 = s1\<lparr>heap := (heap s)(c \<mapsto> cmd)\<rparr>"
    have s2: "aesd_device s2 = ?d" "heap s2 = (heap s)(c \<mapsto> cmd)" by (simp_all add: s2_def s1)
    have copy: "mem_move (Some c) (Some p) 0 (length cmd) s1 = Some s2"
      using s1 p(2) cp block(3) n lcr len cmd
      by (simp add: mem_move_def read_bytes_block write_bytes_block s2_def)
    have mem2: "mem_inv (heap s2) ?es [c, p]" and same2: "dev_cmds s2 = dev_cmds s"
      using mem_inv_alloc [OF mem block(2), of cmd] s2 by (auto simp: dev_cmds_def)
    obtain s3 where s3: "insert_entry \<lparr>buffptr = Some c, entry_size = ?n\<rparr> s2 = Some s3"
      "cb_wf (buffer (aesd_device s3))"
      "mem_inv (heap s3) (cb_entries (buffer (aesd_device s3))) [p]"
      "dev_cmds s3 = last_n 10 (dev_cmds s @ [cmd])" "heap s3 p = heap s2 p"
      using insert_entry_correct [of s2 c "[p]" cmd] wf mem2 s2 \<open>cmd \<noteq> []\<close> len lcr same2 by auto
    have dev3: "pending (aesd_device s3) = Some p" "pending_len (aesd_device s3) = pending_len ?d"
      using insert_entry_frame [OF s3(1)] s2 p by auto
    have "heap s3 p = Some pb" using s3(5) s2 cp p by simp
    then obtain s4 where s4: "drop_pending K ?n s3 = Some s4" "dev_inv s4" "dev_cmds s4 = dev_cmds s3"
      "dev_partial s4 = drop (length cmd) (take (unat (pending_len ?d)) pb)"
      using drop_pending_correct [OF s3(2,3) dev3(1), of pb ?n] dev3 len n lcr by auto
    have "store_command K ?n s = Some (None, s4)"
      using r block(1) s1 copy s3(1) s4(1) n p by (simp add: store_command_def)
    then show ?thesis using s4 s3(4) tk by simp
  qed
qed

end

section \<open>The scan for a newline\<close>

lemma dev_inv_tick [simp]: "dev_inv (tick s) = dev_inv s"
  by (simp add: dev_inv_def)

lemma dev_cmds_tick [simp]: "dev_cmds (tick s) = dev_cmds s"
  by (simp add: dev_cmds_def)

lemma dev_partial_tick [simp]: "dev_partial (tick s) = dev_partial s"
  by (simp add: dev_partial_def split: option.split)

lemma length_dev_partial: "dev_inv s \<Longrightarrow> length (dev_partial s) = unat (pending_len (aesd_device s))"
  by (auto simp: dev_inv_def Let_def pending_ok_def dev_partial_def split: option.splits)

lemma find_newline_dev:
  assumes inv: "dev_inv s" and "i \<le> length (dev_partial s)"
  shows "find_newline s (of_nat i) =
    Some (if newline \<in> set (drop i (dev_partial s))
          then Some (of_nat (i + length (takeWhile (\<lambda>c. c \<noteq> newline) (drop i (dev_partial s)))))
          else None)"
  using assms(2)
proof (induction "length (dev_partial s) - i" arbitrary: i)
  let ?bs = "dev_partial s"
  note len = length_dev_partial [OF inv]
  have small: "unat (of_nat j :: u64) = j" if "j \<le> length ?bs" for j
    using that len unat_u64_lt [of "pending_len (aesd_device s)"] by (intro unat_of_nat_u64) linarith
  {
    case 0
    then have "i = length ?bs" by simp
    then show ?case
      using len small [of i] by (subst find_newline.simps) (simp add: word_less_nat_alt)
  next
    case (Suc k)
    then have i: "i < length ?bs" by simp
    have "pending (aesd_device s) \<noteq> NULL" using i by (auto simp: dev_partial_def split: option.splits)
    then obtain p pb where p: "pending (aesd_device s) = Some p" "heap s p = Some pb"
      "unat (pending_len (aesd_device s)) \<le> length pb"
      using inv by (auto simp: dev_inv_def Let_def pending_ok_def split: option.splits)
    have bs: "?bs = take (unat (pending_len (aesd_device s))) pb" using p by (simp add: dev_partial_def)
    have "i < length pb" using i len p(3) by simp
    then have rd: "read_bytes (Some p) i 1 s = Some [?bs ! i]"
      using p i len bs by (simp add: read_bytes_block take_Suc_conv_app_nth Cons_nth_drop_Suc [symmetric])
    have dr: "drop i ?bs = ?bs ! i # drop (Suc i) ?bs" using i by (simp add: Cons_nth_drop_Suc)
    have IH: "find_newline s (of_nat (Suc i)) =
      Some (if newline \<in> set (drop (Suc i) ?bs)
            then Some (of_nat (Suc i + length (takeWhile (\<lambda>c. c \<noteq> newline) (drop (Suc i) ?bs))))
            else None)"
      using Suc by (intro Suc.hyps(1)) auto
    have "(of_nat i :: u64) < pending_len (aesd_device s)"
      using i len small [of i] by (simp add: word_less_nat_alt)
    then have "find_newline s (of_nat i) =
      (if ?bs ! i = newline then Some (Some (of_nat i)) else find_newline s (of_nat (Suc i)))"
      using rd p small [of i] i by (subst find_newline.simps) (simp add: add.commute)
    then show ?case using IH dr by simp
  }
qed

section \<open>The loop\<close>

text \<open>
  \<open>logged s bs k s'\<close>: starting from the log of \<open>s\<close> with the bytes \<open>bs\<close> pending, the first
  \<open>k\<close> complete lines of \<open>bs\<close> have become commands and the rest of \<open>bs\<close> is still pending.
\<close>

definition logged :: "aesd_state \<Rightarrow> byte list \<Rightarrow> nat \<Rightarrow> aesd_state \<Rightarrow> bool" where
  "logged s bs k s' \<longleftrightarrow> dev_inv s' \<and>
     dev_cmds s' = last_n 10 (dev_cmds s @ take k (fst (split_lines bs))) \<and>
     dev_partial s' = concat (drop k (fst (split_lines bs))) @ snd (split_lines bs)"

lemma length_dev_cmds: "dev_inv s \<Longrightarrow> length (dev_cmds s) \<le> 10"
  by (simp add: dev_inv_def Let_def dev_cmds_def cb_count_le)

lemma logged_0: "dev_inv s \<Longrightarrow> dev_partial s = bs \<Longrightarrow> logged s bs 0 s"
  using split_lines_concat [of bs] length_dev_cmds [of s] by (simp add: logged_def)

lemma logged_Suc:
  assumes "newline \<notin> set pre" and "dev_cmds s1 = last_n 10 (dev_cmds s @ [pre @ [newline]])"
    and "logged s1 rest k s'"
  shows "logged s (pre @ newline # rest) (Suc k) s'"
  using assms split_lines_newline [OF assms(1), of rest] by (simp add: logged_def)

lemma identity_store_command:
  "store_command K n s = Some (r, s') \<Longrightarrow> same_identity s s'"
  by (auto simp: store_command_def Let_def same_identity_def split: prod.splits if_splits Option.bind_splits
      dest!: device_frame insert_entry_frame drop_pending_frame)

lemma identity_write_loop:
  "aesd_write_loop K s = Some (r, s') \<Longrightarrow> same_identity s s'"
proof (induction K s rule: aesd_write_loop.induct)
  case (1 K s)
  obtain nl where nl: "find_newline s 0 = Some nl"
    using "1.prems" by (subst (asm) aesd_write_loop.simps) (auto split: Option.bind_splits)
  show ?case
  proof (cases nl)
    case None
    with nl "1.prems" show ?thesis by (subst (asm) aesd_write_loop.simps) (simp add: same_identity_def)
  next
    case (Some i)
    then obtain err s1 where s1: "store_command K (i + 1) s = Some (err, s1)"
      "(if err \<noteq> None then Some (err, s1) else aesd_write_loop K s1) = Some (r, s')"
      using nl "1.prems" by (subst (asm) aesd_write_loop.simps) (auto split: Option.bind_splits)
    show ?thesis
    proof (cases "err = None")
      case True
      with s1 "1.IH" [OF nl Some s1(1) refl] identity_store_command [OF s1(1)] show ?thesis
        by (simp add: same_identity_def)
    next
      case False
      with s1 identity_store_command [OF s1(1)] show ?thesis by simp
    qed
  qed
qed

text \<open>A full copy of the bytes in the heap needs at most twelve blocks at any time.\<close>

definition serves :: "kenv \<Rightarrow> bool" where
  "serves K \<longleftrightarrow> (\<forall>t h n. card (dom h) \<le> 11 \<longrightarrow> finite (dom h) \<longrightarrow> n \<le> KMALLOC_BOUND \<longrightarrow>
     kalloc K t h n \<noteq> None \<and> (\<forall>a. kresize K t h a n \<noteq> None))"

lemma dev_inv_card:
  assumes "dev_inv s"
  shows "finite (dom (heap s)) \<and> card (dom (heap s)) \<le> 11"
proof -
  let ?d = "aesd_device s"
  let ?xs = "blocks_of (cb_entries (buffer ?d)) @ (case pending ?d of None \<Rightarrow> [] | Some a \<Rightarrow> [a])"
  have "dom (heap s) = set ?xs" "cb_wf (buffer ?d)"
    using assms by (auto simp: dev_inv_def Let_def mem_inv_def)
  moreover have "length ?xs \<le> 11"
    using calculation(2) cb_count_le [of "buffer ?d"] by (simp add: blocks_of_def split: option.split)
  ultimately show ?thesis
    by (metis List.finite_set card_length le_trans)
qed

text \<open>
  The contract of \<^verbatim>\<open>aesd_write\<close>, as a relation between the state before, the bytes offered,
  the result and the state after. The virtual file system never passes more than
  \<^verbatim>\<open>MAX_RW_COUNT\<close> bytes.
\<close>

definition MAX_RW_COUNT :: nat where
  [simp]: "MAX_RW_COUNT = 0x7ffff000"

definition same_device :: "aesd_state \<Rightarrow> aesd_state \<Rightarrow> bool" where
  "same_device s s' \<longleftrightarrow> dev_inv s' \<and> dev_cmds s' = dev_cmds s \<and> dev_partial s' = dev_partial s"

definition write_outcome :: "kenv \<Rightarrow> aesd_state \<Rightarrow> byte list \<Rightarrow> u64 \<Rightarrow> errno + u64 \<Rightarrow> aesd_state \<Rightarrow> bool" where
  "write_outcome K s ubuf count r s' \<longleftrightarrow>
     (let bs = dev_partial s @ take (unat count) ubuf; lines = length (fst (split_lines bs)) in
      case r of
        Inr n \<Rightarrow> n = count \<and> unat count \<le> length ubuf \<and> logged s bs lines s' \<or>
                 n = count \<and> count = 0 \<and> s' = s
      | Inl ERESTARTSYS \<Rightarrow> signalled K (clock s) \<and> same_device s s'
      | Inl EFAULT \<Rightarrow> length ubuf < unat count \<and> same_device s s'
      | Inl ENOMEM \<Rightarrow> \<not> (serves K \<and> length (dev_partial s) + unat count \<le> KMALLOC_BOUND) \<and>
                      (same_device s s' \<or> (\<exists>k < lines. logged s bs k s'))
      | Inl _ \<Rightarrow> False)"

lemma same_device_refl: "dev_inv s \<Longrightarrow> same_device s s"
  by (simp add: same_device_def)

context kernel_allocator
begin

lemma write_loop_correct:
  assumes "dev_inv s"
  shows "\<exists>s'. (aesd_write_loop K s = Some (None, s') \<and>
      logged s (dev_partial s) (length (fst (split_lines (dev_partial s)))) s') \<or>
    (aesd_write_loop K s = Some (Some ENOMEM, s') \<and> \<not> serves K \<and>
      (\<exists>k < length (fst (split_lines (dev_partial s))). logged s (dev_partial s) k s'))"
  using assms
proof (induction "length (dev_partial s)" arbitrary: s rule: less_induct)
  case less
  let ?bs = "dev_partial s"
  show ?case
  proof (cases "newline \<in> set ?bs")
    case False
    then have "find_newline s 0 = Some None"
      using find_newline_dev [OF less.prems, of 0] by simp
    then have "aesd_write_loop K s = Some (None, s)" by (simp add: aesd_write_loop.simps [of K s])
    moreover have "logged s ?bs 0 s" by (rule logged_0 [OF less.prems refl])
    ultimately show ?thesis using split_lines_no_newline [OF False] by auto
  next
    case True
    then obtain pre rest where bs: "?bs = pre @ newline # rest" "newline \<notin> set pre"
      by (meson split_list_first)
    have tw: "takeWhile (\<lambda>c. c \<noteq> newline) ?bs = pre"
      using bs by (simp add: takeWhile_append)
    have fnd: "find_newline s 0 = Some (Some (of_nat (length pre)))"
      using find_newline_dev [OF less.prems, of 0] True tw by simp
    let ?cmd = "pre @ [newline]"
    have n: "of_nat (length pre) + 1 = (of_nat (length ?cmd) :: u64)" by simp
    have sl: "fst (split_lines ?bs) = ?cmd # fst (split_lines rest)"
      using split_lines_newline [OF bs(2), of rest] bs(1) by simp
    have step: "aesd_write_loop K s = do {
        (err, s') \<leftarrow> store_command K (of_nat (length ?cmd)) s;
        if err \<noteq> None then Some (err, s') else aesd_write_loop K s' }"
      using fnd n by (subst aesd_write_loop.simps) (simp add: add.commute)
    have part: "dev_partial s = ?cmd @ rest" using bs by simp
    have "?cmd \<noteq> []" by simp
    from store_command_correct [OF less.prems part this] show ?thesis
    proof (elim disjE conjE exE)
      assume f: "kalloc K (clock s) (heap s) (length ?cmd) = None"
        "store_command K (of_nat (length ?cmd)) s = Some (Some ENOMEM, tick s)"
      have "length ?cmd \<le> KMALLOC_BOUND"
      proof -
        have "unat (pending_len (aesd_device s)) \<le> KMALLOC_BOUND"
          using less.prems by (auto simp: dev_inv_def Let_def pending_ok_def split: option.splits)
        then show ?thesis using part length_dev_partial [OF less.prems] by simp
      qed
      then have "\<not> serves K"
        using f(1) dev_inv_card [OF less.prems] unfolding serves_def by metis
      moreover have "aesd_write_loop K s = Some (Some ENOMEM, tick s)" using step f(2) by simp
      moreover have "logged s ?bs 0 (tick s)"
        using logged_0 [OF less.prems refl] by (simp add: logged_def)
      ultimately show ?thesis using sl by auto
    next
      fix s1
      assume s1: "store_command K (of_nat (length ?cmd)) s = Some (None, s1)" "dev_inv s1"
        "dev_cmds s1 = last_n 10 (dev_cmds s @ [?cmd])" "dev_partial s1 = rest"
      have eq: "aesd_write_loop K s = aesd_write_loop K s1" using step s1(1) by simp
      have lift: "logged s ?bs (Suc k) s'" if "logged s1 (dev_partial s1) k s'" for k s'
        using logged_Suc [OF bs(2) s1(3), of rest k s'] that s1(4) bs(1) by simp
      have "length (dev_partial s1) < length ?bs" using s1(4) bs by simp
      from less.hyps [OF this s1(2)] obtain s' where "(aesd_write_loop K s1 = Some (None, s') \<and>
          logged s1 (dev_partial s1) (length (fst (split_lines (dev_partial s1)))) s') \<or>
        (aesd_write_loop K s1 = Some (Some ENOMEM, s') \<and> \<not> serves K \<and>
          (\<exists>k < length (fst (split_lines (dev_partial s1))). logged s1 (dev_partial s1) k s'))" ..
      then show ?thesis using eq sl s1(4) by (fastforce dest: lift)
    qed
  qed
qed

text \<open>The pending block grows by \<open>m\<close> bytes, or the call fails and nothing changes.\<close>

lemma grow_pending:
  assumes inv: "dev_inv s" and m: "unat (pending_len (aesd_device s)) + unat m < 2 ^ 64"
    and r: "krealloc K (pending (aesd_device s)) (pending_len (aesd_device s) + m) s = Some (q, s')"
  shows "(q = NULL \<and> s' = tick s \<and>
      \<not> (serves K \<and> length (dev_partial s) + unat m \<le> KMALLOC_BOUND)) \<or>
    (\<exists>a bs h. q = Some a \<and> s' = tick (s\<lparr>heap := h\<rparr>) \<and> h a = Some bs \<and>
      length bs = length (dev_partial s) + unat m \<and> length bs \<le> KMALLOC_BOUND \<and>
      take (length (dev_partial s)) bs = dev_partial s \<and>
      mem_inv h (cb_entries (buffer (aesd_device s))) [a] \<and>
      map (entry_content h) (cb_entries (buffer (aesd_device s))) = dev_cmds s)"
proof -
  let ?d = "aesd_device s"
  let ?n = "pending_len ?d + m"
  note lp = length_dev_partial [OF inv]
  note card = dev_inv_card [OF inv]
  have n: "unat ?n = length (dev_partial s) + unat m" using m lp by (simp add: word_nat)
  show ?thesis
  proof (cases "pending ?d")
    case None
    then have mem: "mem_inv (heap s) (cb_entries (buffer ?d)) []" and part: "dev_partial s = []"
      using inv by (auto simp: dev_inv_def Let_def dev_partial_def)
    have "kmalloc K ?n s = (q, s')" using r None by (simp add: krealloc_def)
    then show ?thesis
    proof (cases rule: kmalloc_cases)
      case null
      have "kalloc K (clock s) (heap s) (unat ?n) = None"
        using r None null by (auto simp: krealloc_def kmalloc_def split: option.splits)
      then have "\<not> (serves K \<and> unat ?n \<le> KMALLOC_BOUND)"
        using card unfolding serves_def by blast
      with null n show ?thesis by simp
    next
      case (block a bs)
      with n part mem_inv_alloc [OF mem block(2), of bs] show ?thesis
        by (intro disjI2 exI [of _ a] exI [of _ bs] exI [of _ "(heap s)(a \<mapsto> bs)"])
          (auto simp: dev_cmds_def)
    qed
  next
    case (Some p)
    obtain pb where pb: "heap s p = Some pb" "unat (pending_len ?d) \<le> length pb"
      using inv Some by (auto simp: dev_inv_def Let_def pending_ok_def split: option.splits)
    have mem: "mem_inv (heap s) (cb_entries (buffer ?d)) [p]"
      using inv Some by (auto simp: dev_inv_def Let_def)
    have part: "dev_partial s = take (unat (pending_len ?d)) pb"
      using Some pb by (simp add: dev_partial_def)
    have "krealloc K (Some p) ?n s = Some (q, s')" using r Some by simp
    from this pb(1) show ?thesis
    proof (cases rule: krealloc_cases)
      case null
      have "kresize K (clock s) (heap s) p (unat ?n) = None"
        using r Some null pb(1) by (auto simp: krealloc_def split: option.splits)
      then have "\<not> (serves K \<and> unat ?n \<le> KMALLOC_BOUND)"
        using card unfolding serves_def by blast
      with null n show ?thesis by simp
    next
      case (block a bs)
      have "take (length (dev_partial s)) bs = dev_partial s"
      proof -
        have "length (dev_partial s) \<le> min (unat ?n) (length pb)" using n lp pb(2) by simp
        then have "take (length (dev_partial s)) bs =
            take (length (dev_partial s)) (take (min (unat ?n) (length pb)) bs)"
          by (simp add: min_absorb1)
        also have "\<dots> = take (length (dev_partial s)) (take (unat ?n) pb)" using block(6) by simp
        also have "\<dots> = dev_partial s" using part lp n by (simp add: min_absorb1)
        finally show ?thesis .
      qed
      then show ?thesis
        using block n mem_inv_move [OF mem block(2), of bs]
        by (intro disjI2 exI [of _ a] exI [of _ bs] exI [of _ "(heap s)(p := None, a \<mapsto> bs)"])
          (simp add: dev_cmds_def)
    qed
  qed
qed

text \<open>
  The copy into the grown block: what was pending is still there, and when the whole
  buffer could be read, counting its bytes in makes them pending.
\<close>

lemma copy_pending:
  assumes dev: "aesd_device s = (aesd_device s1)\<lparr>pending := Some a\<rparr>" and inv1: "dev_inv s1"
    and blk: "heap s a = Some bs" "length bs = length (dev_partial s1) + unat count"
      "length bs \<le> KMALLOC_BOUND" "take (length (dev_partial s1)) bs = dev_partial s1"
    and mem: "mem_inv (heap s) (cb_entries (buffer (aesd_device s1))) [a]"
      "map (entry_content (heap s)) (cb_entries (buffer (aesd_device s1))) = dev_cmds s1"
  shows "\<exists>s'. copy_from_user (Some a) (unat (pending_len (aesd_device s1))) ubuf (unat count) s =
      Some (unat count - length ubuf, s') \<and> aesd_device s' = aesd_device s \<and> same_device s1 s' \<and>
    (unat count \<le> length ubuf \<longrightarrow>
      (let s'' = dev_update (pending_len_update (\<lambda>l. l + count)) s' in
       dev_inv s'' \<and> dev_cmds s'' = dev_cmds s1 \<and>
       dev_partial s'' = dev_partial s1 @ take (unat count) ubuf))"
proof -
  let ?p = "dev_partial s1"
  let ?src = "take (unat count) ubuf @ replicate (unat count - length ubuf) nul"
  let ?s' = "s\<lparr>heap := (heap s)(a \<mapsto> ?p @ ?src)\<rparr>"
  note lp = length_dev_partial [OF inv1]
  have lsrc: "length ?src = unat count" by simp
  have copy: "copy_from_user (Some a) (unat (pending_len (aesd_device s1))) ubuf (unat count) s =
      Some (unat count - length ubuf, ?s')"
    using blk lp lsrc by (simp add: copy_from_user_def write_bytes_block)
  have mem': "mem_inv (heap ?s') (cb_entries (buffer (aesd_device s1))) [a]"
    "map (entry_content (heap ?s')) (cb_entries (buffer (aesd_device s1))) = dev_cmds s1"
    using mem_inv_write [OF mem(1), of a "?p @ ?src"] mem(2) by auto
  have wf: "cb_wf (buffer (aesd_device s1))" using inv1 by (simp add: dev_inv_def Let_def)
  have len: "unat (pending_len (aesd_device s1) + count) = length ?p + unat count"
    using blk(2,3) lp by (simp add: word_nat)
  have "same_device s1 ?s'"
    using dev mem' wf lp blk(2,3) lsrc
    by (auto simp: same_device_def dev_inv_def Let_def dev_cmds_def dev_partial_def pending_ok_def)
  moreover have "let s'' = dev_update (pending_len_update (\<lambda>l. l + count)) ?s' in
       dev_inv s'' \<and> dev_cmds s'' = dev_cmds s1 \<and> dev_partial s'' = ?p @ take (unat count) ubuf"
    if "unat count \<le> length ubuf"
    using that dev mem' wf len blk(2,3)
    by (auto simp: dev_inv_def Let_def dev_cmds_def dev_partial_def pending_ok_def)
  ultimately show ?thesis using copy by (intro exI [of _ ?s']) auto
qed

text \<open>Taking and releasing the mutex changes nothing else.\<close>

lemma lock_abs [simp]:
  assumes "d = aesd_device s"
  shows "dev_inv (s\<lparr>aesd_device := lock_update f d\<rparr>) = dev_inv s"
    and "dev_cmds (s\<lparr>aesd_device := lock_update f d\<rparr>) = dev_cmds s"
    and "dev_partial (s\<lparr>aesd_device := lock_update f d\<rparr>) = dev_partial s"
  using assms by (simp_all add: dev_inv_def Let_def dev_cmds_def dev_partial_def cong: option.case_cong)

lemma lock_logged [simp]:
  "d = aesd_device s' \<Longrightarrow> logged s bs k (s'\<lparr>aesd_device := lock_update f d\<rparr>) = logged s bs k s'"
  by (simp add: logged_def)

lemma krealloc_pending: "dev_inv s \<Longrightarrow> \<exists>q s'. krealloc K (pending (aesd_device s)) n s = Some (q, s')"
  using krealloc_live
  by (cases "pending (aesd_device s)")
    (force simp: krealloc_def dev_inv_def Let_def pending_ok_def split: option.splits)+

text \<open>The handler from the point where the bytes have been copied.\<close>

lemma write_loop_unlock:
  assumes inv: "dev_inv s5" and "lock (aesd_device s5)" and "dev_cmds s5 = dev_cmds s"
    and "dev_partial s5 = bs" and "bs = dev_partial s @ take (unat count) ubuf"
    and "unat count \<le> length ubuf"
  shows "\<exists>r s'. do { (err, s6) \<leftarrow> aesd_write_loop K s5; s7 \<leftarrow> mutex_unlock s6;
        Some (case err of None \<Rightarrow> Inr count | Some e \<Rightarrow> Inl e, pos, s7) } = Some (r, pos, s') \<and>
      \<not> lock (aesd_device s') \<and> write_outcome K s ubuf count r s'"
proof -
  have rel: "logged s5 bs k s6 = logged s bs k s6" for k s6
    using assms(3) by (simp add: logged_def)
  from write_loop_correct [OF inv] obtain err s6 where
    l: "aesd_write_loop K s5 = Some (err, s6)"
    and c: "(err = None \<and> logged s bs (length (fst (split_lines bs))) s6) \<or>
      (err = Some ENOMEM \<and> \<not> serves K \<and> (\<exists>k < length (fst (split_lines bs)). logged s bs k s6))"
    using assms(4) rel by metis
  have "lock (aesd_device s6)" using identity_write_loop [OF l] assms(2) by (simp add: same_identity_def)
  with l c assms(5,6) show ?thesis
    by (auto simp: mutex_unlock_def write_outcome_def Let_def)
qed

text \<open>
  The handler: every outcome is one of the contract, nothing is undefined, and the mutex
  is free afterwards.
\<close>

lemma aesd_write_correct:
  assumes inv: "dev_inv s" and unlocked: "\<not> lock (aesd_device s)"
    and opened: "private_data filep = Some ()" and rw: "unat count \<le> MAX_RW_COUNT"
  shows "\<exists>r s'. aesd_write K filep ubuf count pos s = Some (r, pos, s') \<and>
    \<not> lock (aesd_device s') \<and> write_outcome K s ubuf count r s'"
proof (cases "count = 0 \<or> signalled K (clock s)")
  case True
  then show ?thesis using opened unlocked inv
    by (auto simp: aesd_write_def mutex_lock_interruptible_def write_outcome_def Let_def same_device_def)
next
  case False
  define s1 where "s1 = tick (dev_update (lock_update (\<lambda>_. True)) s)"
  have inv1: "dev_inv s1" "dev_cmds s1 = dev_cmds s" "dev_partial s1 = dev_partial s"
    "lock (aesd_device s1)"
    using inv by (simp_all add: s1_def)
  have start: "mutex_lock_interruptible K s = Some (False, s1)"
    using False unlocked by (simp add: mutex_lock_interruptible_def s1_def)
  have "unat (pending_len (aesd_device s1)) \<le> KMALLOC_BOUND"
    using inv1(1) by (auto simp: dev_inv_def Let_def pending_ok_def split: option.splits)
  then have fits: "unat (pending_len (aesd_device s1)) + unat count < 2 ^ 64" using rw by simp
  obtain q s2 where
    r: "krealloc K (pending (aesd_device s1)) (pending_len (aesd_device s1) + count) s1 = Some (q, s2)"
    using krealloc_pending [OF inv1(1)] by blast
  from grow_pending [OF inv1(1) fits r] show ?thesis
  proof (elim disjE conjE exE)
    assume "q = NULL" "s2 = tick s1"
      "\<not> (serves K \<and> length (dev_partial s1) + unat count \<le> KMALLOC_BOUND)"
    then show ?thesis using False opened start r inv1
      by (auto simp: aesd_write_def mutex_unlock_def write_outcome_def Let_def same_device_def)
  next
    fix a bs h
    assume ok: "q = Some a" "s2 = tick (s1\<lparr>heap := h\<rparr>)" "h a = Some bs"
      "length bs = length (dev_partial s1) + unat count" "length bs \<le> KMALLOC_BOUND"
      "take (length (dev_partial s1)) bs = dev_partial s1"
      "mem_inv h (cb_entries (buffer (aesd_device s1))) [a]"
      "map (entry_content h) (cb_entries (buffer (aesd_device s1))) = dev_cmds s1"
    define s3 where "s3 = dev_update (pending_update (\<lambda>_. Some a)) s2"
    have s3: "aesd_device s3 = (aesd_device s1)\<lparr>pending := Some a\<rparr>" "heap s3 = h"
      using ok(2) by (simp_all add: s3_def)
    have dev2: "aesd_device s2 = aesd_device s1" using ok(2) by simp
    then have s3_eq: "s2\<lparr>aesd_device := (aesd_device s1)\<lparr>pending := Some a\<rparr>\<rparr> = s3"
      by (simp add: s3_def)
    obtain s4 where s4: "copy_from_user (Some a) (unat (pending_len (aesd_device s1))) ubuf (unat count) s3 =
        Some (unat count - length ubuf, s4)" "aesd_device s4 = aesd_device s3" "same_device s1 s4"
      "unat count \<le> length ubuf \<Longrightarrow>
        dev_inv (dev_update (pending_len_update (\<lambda>l. l + count)) s4) \<and>
        dev_cmds (dev_update (pending_len_update (\<lambda>l. l + count)) s4) = dev_cmds s \<and>
        dev_partial (dev_update (pending_len_update (\<lambda>l. l + count)) s4) = dev_partial s @ take (unat count) ubuf"
      using copy_pending [OF s3(1) inv1(1), of bs count ubuf] s3(2) ok inv1 by (auto simp: Let_def)
    show ?thesis
    proof (cases "unat count \<le> length ubuf")
      case False
      with \<open>\<not> (count = 0 \<or> signalled K (clock s))\<close> opened start r ok(1) dev2 s3 s4(1-3) inv1 show ?thesis
        by (simp add: aesd_write_def mutex_unlock_def Let_def s3_eq write_outcome_def same_device_def)
    next
      case True
      have "lock (aesd_device (dev_update (pending_len_update (\<lambda>l. l + count)) s4))"
        using s4(2) s3 inv1 by simp
      note write_loop_unlock [OF conjunct1 [OF s4(4) [OF True]] this, of s _ count ubuf pos]
      then show ?thesis
        using False opened start r ok(1) dev2 s3 s4(1,4) True
        by (simp add: aesd_write_def Let_def s3_eq)
    qed
  qed
qed

end

text \<open>The concrete allocator has room for the twelve blocks.\<close>

lemma first_fit_None: "first_fit h k a = None \<Longrightarrow> {a ..< a + k} \<subseteq> dom h"
proof (induction h k a rule: first_fit.induct)
  case (2 h k a)
  then have "a \<in> dom h" "{Suc a ..< Suc a + k} \<subseteq> dom h" by (auto split: if_splits)
  moreover have "{a ..< a + Suc k} = insert a {Suc a ..< Suc a + k}" by auto
  ultimately show ?case by simp
qed simp

lemma quiet_kernel_serves [simp]: "serves quiet_kernel"
proof -
  have "first_fit h 16 0 \<noteq> None" if "card (dom h) \<le> 11" "finite (dom h)" for h
  proof
    assume "first_fit h 16 0 = None"
    then have "{0 ..< 16} \<subseteq> dom h" using first_fit_None [of h 16 0] by simp
    then have "16 \<le> card (dom h)" using card_mono [OF that(2), of "{0 ..< 16}"] by simp
    with that(1) show False by simp
  qed
  then show ?thesis unfolding serves_def quiet_kernel_def slots_env_def by simp
qed

text \<open>If the allocator serves, no signal comes and the buffer is readable, the write succeeds.\<close>

lemma aesd_write_served:
  assumes "kernel_allocator K" and "dev_inv s" and "\<not> lock (aesd_device s)"
    and "private_data filep = Some ()" and "unat count \<le> MAX_RW_COUNT"
    and "serves K" and "\<not> signalled K (clock s)"
    and "0 < count" and "unat count \<le> length ubuf"
    and "length (dev_partial s) + unat count \<le> KMALLOC_BOUND"
  shows "\<exists>s'. aesd_write K filep ubuf count pos s = Some (Inr count, pos, s') \<and>
    \<not> lock (aesd_device s') \<and> dev_inv s' \<and>
    dev_cmds s' = last_n 10 (dev_cmds s @ fst (split_lines (dev_partial s @ take (unat count) ubuf))) \<and>
    dev_partial s' = snd (split_lines (dev_partial s @ take (unat count) ubuf))"
proof -
  obtain r s' where w: "aesd_write K filep ubuf count pos s = Some (r, pos, s')"
    "\<not> lock (aesd_device s')" "write_outcome K s ubuf count r s'"
    using kernel_allocator.aesd_write_correct [OF assms(1-5)] by blast
  show ?thesis
  proof (cases r)
    case (Inr n)
    with w(3) assms(8) have "n = count" "logged s (dev_partial s @ take (unat count) ubuf)
        (length (fst (split_lines (dev_partial s @ take (unat count) ubuf)))) s'"
      by (auto simp: write_outcome_def Let_def)
    with w(1,2) Inr show ?thesis by (simp add: logged_def)
  next
    case (Inl e)
    with w(3) assms(6-) show ?thesis by (cases e) (auto simp: write_outcome_def Let_def)
  qed
qed

section \<open>Properties\<close>

text \<open>
  C18: \<^verbatim>\<open>aesd_write\<close> never touches memory it does not own, frees the mutex on every path, and
  every answer is one of its contract: when it returns \<open>count\<close>, the complete lines of the
  pending bytes followed by the written ones have been moved to the log, the newest ten
  commands are kept and the unfinished rest is pending; on a signal or an unreadable buffer
  the device is as before; \<^verbatim>\<open>ENOMEM\<close> comes only from a refused allocation and leaves the
  log with a first part of these lines.
\<close>

theorem aesd_write_contract:
  assumes "kernel_allocator K" and "dev_inv s" and "\<not> lock (aesd_device s)"
    and "private_data filep = Some ()" and "unat count \<le> MAX_RW_COUNT"
  shows "\<exists>r s'. aesd_write K filep ubuf count pos s = Some (r, pos, s') \<and>
    \<not> lock (aesd_device s') \<and> write_outcome K s ubuf count r s'"
  by (rule kernel_allocator.aesd_write_correct [OF assms])

theorem aesd_write_contract_witness:
  "\<exists>r s'. aesd_write quiet_kernel open_file [CHR ''a'', newline, CHR ''b''] 3 0 boot_state = Some (r, 0, s') \<and>
    \<not> lock (aesd_device s') \<and> write_outcome quiet_kernel boot_state [CHR ''a'', newline, CHR ''b''] 3 r s'"
  by (rule aesd_write_contract) simp_all

text \<open>
  C19: A write whose buffer can be read succeeds when no signal comes and the allocator
  serves requests within its bound: it returns \<open>count\<close> and all the lines are in the log.
\<close>

theorem aesd_write_succeeds:
  assumes "kernel_allocator K" and "dev_inv s" and "\<not> lock (aesd_device s)"
    and "private_data filep = Some ()" and "unat count \<le> MAX_RW_COUNT"
    and "serves K" and "\<not> signalled K (clock s)"
    and "0 < count" and "unat count \<le> length ubuf"
    and "length (dev_partial s) + unat count \<le> KMALLOC_BOUND"
  shows "\<exists>s'. aesd_write K filep ubuf count pos s = Some (Inr count, pos, s') \<and>
    \<not> lock (aesd_device s') \<and> dev_inv s' \<and>
    dev_cmds s' = last_n 10 (dev_cmds s @ fst (split_lines (dev_partial s @ take (unat count) ubuf))) \<and>
    dev_partial s' = snd (split_lines (dev_partial s @ take (unat count) ubuf))"
  by (rule aesd_write_served [OF assms])

theorem aesd_write_succeeds_witness:
  "\<exists>s'. aesd_write quiet_kernel open_file [CHR ''a'', newline, CHR ''b''] 3 0 boot_state = Some (Inr 3, 0, s') \<and>
    \<not> lock (aesd_device s') \<and> dev_inv s' \<and> dev_cmds s' = [[CHR ''a'', newline]] \<and> dev_partial s' = [CHR ''b'']"
  using aesd_write_succeeds [of quiet_kernel boot_state open_file 3 "[CHR ''a'', newline, CHR ''b'']" 0]
  by simp

end
