(* ===== verification/Char_Device_Read.thy ===== *)
theory Char_Device_Read
  imports Char_Device_Write
begin

text \<open>
  \<^verbatim>\<open>aesd_read\<close>, \<^verbatim>\<open>aesd_llseek\<close> and \<^verbatim>\<open>aesd_ioctl\<close> against the abstract device. A reader sees one
  string, the concatenation of the commands in the log: a read copies the part of it from
  the file position on, a seek to the end goes to its length, and the ioctl goes to an
  offset inside the command with the given number.
\<close>

section \<open>The device as one string\<close>

definition dev_text :: "aesd_state \<Rightarrow> byte list" where
  "dev_text s = concat (dev_cmds s)"

lemma dev_cmds_nth:
  assumes "dev_inv s" and "i < length (dev_cmds s)"
  shows "\<exists>a. buffptr (cb_entries (buffer (aesd_device s)) ! i) = Some a \<and>
    heap s a = Some (dev_cmds s ! i) \<and> dev_cmds s ! i \<noteq> [] \<and> length (dev_cmds s ! i) \<le> KMALLOC_BOUND \<and>
    entry_size (cb_entries (buffer (aesd_device s)) ! i) = of_nat (length (dev_cmds s ! i))"
proof -
  let ?e = "cb_entries (buffer (aesd_device s)) ! i"
  have "?e \<in> set (cb_entries (buffer (aesd_device s)))" using assms(2) by (simp add: dev_cmds_def)
  then have "entry_ok (heap s) ?e"
    using assms(1) mem_inv_entries by (auto simp: dev_inv_def Let_def)
  then obtain a bs where "buffptr ?e = Some a" "heap s a = Some bs" "bs \<noteq> []" "length bs \<le> KMALLOC_BOUND"
    "entry_size ?e = of_nat (length bs)" by (rule entry_okE)
  then show ?thesis using assms(2) by (simp add: dev_cmds_def entry_content_def)
qed

lemma dev_entry_sizes:
  assumes "dev_inv s"
  shows "entry_sizes (buffer (aesd_device s)) = map length (dev_cmds s)"
proof (rule nth_equalityI)
  show "length (entry_sizes (buffer (aesd_device s))) = length (map length (dev_cmds s))"
    by (simp add: entry_sizes_def dev_cmds_def)
next
  fix i assume "i < length (entry_sizes (buffer (aesd_device s)))"
  then have i: "i < length (dev_cmds s)" by (simp add: entry_sizes_def dev_cmds_def)
  from dev_cmds_nth [OF assms i] show "entry_sizes (buffer (aesd_device s)) ! i = map length (dev_cmds s) ! i"
    using i by (auto simp: entry_sizes_def dev_cmds_def word_nat)
qed

lemma sum_list_bound: "\<forall>x \<in> set xs. f x \<le> (k :: nat) \<Longrightarrow> sum_list (map f xs) \<le> length xs * k"
  by (induction xs) auto

lemma length_dev_text:
  assumes "dev_inv s"
  shows "length (dev_text s) \<le> 10 * KMALLOC_BOUND"
proof -
  have "\<forall>c \<in> set (dev_cmds s). length c \<le> KMALLOC_BOUND"
    using dev_cmds_nth [OF assms] by (metis in_set_conv_nth)
  then have "length (dev_text s) \<le> length (dev_cmds s) * KMALLOC_BOUND"
    unfolding dev_text_def length_concat by (rule sum_list_bound)
  also have "\<dots> \<le> 10 * KMALLOC_BOUND"
    using length_dev_cmds [OF assms] by (rule mult_le_mono1)
  finally show ?thesis .
qed

lemma dev_searchable:
  assumes "dev_inv s"
  shows "searchable (buffer (aesd_device s))"
proof -
  let ?b = "buffer (aesd_device s)"
  have "cb_wf ?b" using assms by (simp add: dev_inv_def Let_def)
  moreover have "buffptr e \<noteq> NULL \<and> entry_size e \<noteq> 0" if "e \<in> set (cb_entries ?b)" for e
  proof -
    have "entry_ok (heap s) e" using that assms mem_inv_entries by (auto simp: dev_inv_def Let_def)
    then obtain a bs where e: "buffptr e = Some a" "heap s a = Some bs" "bs \<noteq> []"
      "length bs \<le> KMALLOC_BOUND" "entry_size e = of_nat (length bs)" by (rule entry_okE)
    then have "unat (entry_size e) = length bs" by (simp add: word_nat)
    with e show ?thesis by auto
  qed
  moreover have "sum_list (entry_sizes ?b) < 2 ^ 64"
    using length_dev_text [OF assms] dev_entry_sizes [OF assms]
    by (simp add: dev_text_def length_concat)
  ultimately show ?thesis by (simp add: searchable_def)
qed

section \<open>read\<close>

text \<open>
  One round of the copy loop: either all the data is copied and the search finds nothing,
  or the search finds the entry with the next byte and the round reads the next bytes.
\<close>

lemma read_round:
  assumes inv: "dev_inv s"
    and data: "data = take (unat count) (drop (unat pos) (dev_text s))"
    and c: "unat copied \<le> length data" "copied < count"
    and F_def: "F = aesd_circular_buffer_find_entry_offset_for_fpos
      (Some (buffer (aesd_device s))) (pos + copied) (Some off)"
  shows "(F = Some (None, Some off) \<and> length data = unat copied) \<or>
    (\<exists>i r e t. F = Some (Some i, Some r) \<and> array_get (entry (buffer (aesd_device s))) i = Some e \<and>
      t = min (count - copied) (entry_size e - r) \<and>
      read_bytes (buffptr e) (unat r) (unat t) s = Some (take (unat t) (drop (unat copied) data)) \<and>
      unat copied + unat t \<le> length data \<and> unat (copied + t) = unat copied + unat t)"
proof -
  let ?b = "buffer (aesd_device s)"
  let ?cmds = "dev_cmds s"
  let ?o = "unat pos + unat copied"
  have small: "length (dev_text s) < 2 ^ 64" using length_dev_text [OF inv] by simp
  have off: "unat (pos + copied) = ?o"
  proof (cases "unat copied = 0")
    case False
    then have "?o \<le> length (dev_text s)" using c(1) data by (simp; linarith)
    then show ?thesis using small by (simp add: word_nat)
  qed (simp add: unat_eq_0)
  note F = find_locate [OF dev_searchable [OF inv], of "pos + copied" off, folded F_def]
  show ?thesis
  proof (cases "locate (map length ?cmds) ?o")
    case None
    then have "length (dev_text s) \<le> ?o" by (simp add: locate_None_iff dev_text_def length_concat)
    then have "length data = unat copied" using c(1) data by (auto simp: min_def)
    with None F off dev_entry_sizes [OF inv] show ?thesis by simp
  next
    case (Some ir)
    obtain i r where ir: "ir = (i, r)" by (cases ir)
    let ?cmd = "?cmds ! i"
    have i: "i < length ?cmds" "r < length ?cmd"
      using locate_Some_bounds [OF Some [unfolded ir]] by auto
    let ?e = "cb_entries ?b ! i"
    obtain a where e: "buffptr ?e = Some a" "heap s a = Some ?cmd" "length ?cmd \<le> KMALLOC_BOUND"
      "entry_size ?e = of_nat (length ?cmd)"
      using dev_cmds_nth [OF inv i(1)] by auto
    have wf: "cb_wf ?b" using inv by (simp add: dev_inv_def Let_def)
    let ?idx = "(unat (out_offs ?b) + i) mod 10"
    have idx: "array_get (entry ?b) ?idx = Some ?e"
      using i(1) wf nth_cb_entries [OF wf, of i] by (simp add: dev_cmds_def array_get_def) (simp add: cb_wf_def)
    define t where "t = min (count - copied) (entry_size ?e - of_nat r)"
    have sz: "unat (entry_size ?e - of_nat r) = length ?cmd - r" "unat (of_nat r :: u64) = r"
      using e i(2) by (simp_all add: word_nat)
    have ct: "unat (count - copied) = unat count - unat copied" "unat copied < unat count"
      using c(2) by (simp_all add: word_nat word_less_nat_alt)
    have t: "unat t = min (unat count - unat copied) (length ?cmd - r)"
      using sz(1) ct(1) by (simp add: t_def min_def word_le_nat_alt)
    have "drop ?o (dev_text s) = drop r ?cmd @ concat (drop (Suc i) ?cmds)"
      using locate_drop [OF Some [unfolded ir]] by (simp add: dev_text_def)
    then have dr: "drop (unat copied) data = take (unat count - unat copied) (drop r ?cmd @ concat (drop (Suc i) ?cmds))"
      by (simp add: data drop_take add.commute)
    then have "take (unat t) (drop (unat copied) data) = take (unat t) (drop r ?cmd)"
      using t by (simp add: min_def)
    moreover have "unat t \<le> length (drop (unat copied) data)"
      unfolding dr length_take length_append length_drop min.bounded_iff using t by linarith
    then have "unat copied + unat t \<le> length data" using c(1) by simp
    moreover have "unat (copied + t) = unat copied + unat t"
      using t ct(2) unat_u64_lt [of count] by (intro unat_add_u64) linarith
    moreover have "read_bytes (buffptr ?e) (unat (of_nat r :: u64)) (unat t) s = Some (take (unat t) (drop r ?cmd))"
      using e(1,2) sz(2) t i(2) by (simp add: read_bytes_block)
    ultimately show ?thesis
      using F off Some ir idx dev_entry_sizes [OF inv]
      by (intro disjI2 exI [of _ ?idx] exI [of _ "of_nat r"] exI [of _ ?e] exI [of _ t]) (simp add: t_def)
  qed
qed

lemma read_loop_correct:
  assumes inv: "dev_inv s"
    and "data = take (unat count) (drop (unat pos) (dev_text s))"
    and "unat copied \<le> length data" and "unat copied \<le> length ubuf"
  shows "aesd_read_loop s count pos copied off ubuf =
    Some (if length data \<le> length ubuf then Inr (of_nat (length data)) else Inl EFAULT,
      take (unat copied) ubuf @ take (length ubuf - unat copied) (drop (unat copied) data) @
      drop (length data) ubuf)"
  using assms
proof (induction s count pos copied off ubuf rule: aesd_read_loop.induct)
  case (1 s count pos copied off ubuf)
  let ?c = "unat copied"
  let ?F = "aesd_circular_buffer_find_entry_offset_for_fpos
      (Some (buffer (aesd_device s))) (pos + copied) (Some off)"
  show ?case
  proof (cases "copied < count")
    case False
    then have "length data = ?c"
      using "1.prems"(2,3) by (simp add: word_less_nat_alt)
    with False "1.prems"(4) show ?thesis by (subst aesd_read_loop.simps) simp
  next
    case True
    from read_round [OF "1.prems"(1-3) True refl, of off] show ?thesis
    proof (elim disjE conjE exE)
      assume "?F = Some (None, Some off)" "length data = ?c"
      with True "1.prems"(4) show ?thesis by (subst aesd_read_loop.simps) simp
    next
      fix i r e t
      assume F: "?F = Some (Some i, Some r)" and e: "array_get (entry (buffer (aesd_device s))) i = Some e"
        and t: "t = min (count - copied) (entry_size e - r)"
        and src: "read_bytes (buffptr e) (unat r) (unat t) s = Some (take (unat t) (drop ?c data))"
        and le: "?c + unat t \<le> length data" and ct: "unat (copied + t) = ?c + unat t"
      let ?src = "take (unat t) (drop ?c data)"
      have lsrc: "length ?src = unat t" using le by simp
      let ?u = "take ?c ubuf @ take (length ubuf - ?c) ?src @ drop (?c + unat t) ubuf"
      have step: "aesd_read_loop s count pos copied off ubuf =
          (if ?c + unat t \<le> length ubuf then aesd_read_loop s count pos (copied + t) r ?u
           else Some (Inl EFAULT, ?u))"
        using True F e t src lsrc "1.prems"(4)
        by (subst aesd_read_loop.simps) (auto simp: copy_to_user_def Let_def)
      show ?thesis
      proof (cases "?c + unat t \<le> length ubuf")
        case False
        then have "take (length ubuf - ?c) ?src = take (length ubuf - ?c) (drop ?c data)"
          by (simp add: min_def)
        with False step le show ?thesis by simp
      next
        case fits: True
        have u: "length ?u = length ubuf" "take (?c + unat t) ?u = take ?c ubuf @ ?src"
          "drop (length data) ?u = drop (length data) ubuf"
          using fits lsrc le "1.prems"(4) by simp_all
        have rec: "aesd_read_loop s count pos (copied + t) r ?u =
          Some (if length data \<le> length ubuf then Inr (of_nat (length data)) else Inl EFAULT,
            take ?c ubuf @ ?src @ take (length ubuf - (?c + unat t)) (drop (?c + unat t) data) @
            drop (length data) ubuf)"
        proof -
          have copy: "(0, ?u) = copy_to_user ubuf ?c ?src"
            using fits lsrc by (simp add: copy_to_user_def)
          have "fst (Some i, Some r) = Some i" "snd (Some i, Some r) = Some r" by simp_all
          note IH = "1.IH" [OF True F this e t src refl copy]
          have "unat (copied + t) \<le> length ?u" using ct u(1) fits by simp
          with IH [OF _ "1.prems"(1,2)] ct le u show ?thesis by simp
        qed
        have "take (length ubuf - ?c) (drop ?c data) =
            ?src @ take (length ubuf - (?c + unat t)) (drop (?c + unat t) data)"
          using fits take_add [of "unat t" "length ubuf - ?c - unat t" "drop ?c data"]
          by (simp add: add.commute)
        with rec show ?thesis using step fits by simp
      qed
    qed
  qed
qed

lemma aesd_read_correct:
  assumes inv: "dev_inv s" and unlocked: "\<not> lock (aesd_device s)"
    and opened: "private_data filep = Some ()" and wait: "count = 0 \<or> \<not> signalled K (clock s)"
    and data: "data = take (unat count) (drop (unat pos) (dev_text s))"
  shows "\<exists>s'. aesd_read K filep ubuf count pos s =
      Some (if length data \<le> length ubuf then Inr (of_nat (length data)) else Inl EFAULT,
        take (length ubuf) data @ drop (length data) ubuf,
        if length data \<le> length ubuf then pos + of_nat (length data) else pos, s') \<and>
    same_device s s' \<and> \<not> lock (aesd_device s')"
proof (cases "count = 0")
  case True
  then show ?thesis using inv unlocked data by (simp add: aesd_read_def same_device_def)
next
  case False
  define s1 where "s1 = tick (dev_update (lock_update (\<lambda>_. True)) s)"
  have s1: "dev_inv s1" "dev_cmds s1 = dev_cmds s" "dev_partial s1 = dev_partial s" "lock (aesd_device s1)"
    using inv by (simp_all add: s1_def)
  have "data = take (unat count) (drop (unat pos) (dev_text s1))"
    using data s1 by (simp add: dev_text_def)
  from read_loop_correct [OF s1(1) this, of 0 ubuf 0]
  have "aesd_read_loop s1 count pos 0 0 ubuf =
      Some (if length data \<le> length ubuf then Inr (of_nat (length data)) else Inl EFAULT,
        take (length ubuf) data @ drop (length data) ubuf)" by simp
  moreover have "mutex_lock_interruptible K s = Some (False, s1)"
    using wait False unlocked by (simp add: mutex_lock_interruptible_def s1_def)
  ultimately show ?thesis
    using False opened s1 by (simp add: aesd_read_def mutex_unlock_def same_device_def)
qed

section \<open>llseek\<close>

lemma llseek_total_aux:
  "fold (\<lambda>e total_size. if buffptr e \<noteq> NULL then total_size + entry_size e else total_size) es w =
   w + sum_list (map entry_size (filter (\<lambda>e. buffptr e \<noteq> NULL) es))"
  by (induction es arbitrary: w) (auto simp: algebra_simps)

lemma sum_list_rotate: "sum_list (map f (rotate n xs)) = sum_list (map (f :: _ \<Rightarrow> u64) xs)"
proof -
  let ?k = "n mod length xs"
  have "sum_list (map f (rotate n xs)) = sum_list (map f (drop ?k xs)) + sum_list (map f (take ?k xs))"
    by (simp add: rotate_drop_take)
  also have "\<dots> = sum_list (map f (take ?k xs @ drop ?k xs))"
    by (simp only: map_append sum_list_append add.commute)
  finally show ?thesis by simp
qed

lemma of_nat_sum_list_u64: "of_nat (sum_list (map (unat \<circ> f) xs)) = (sum_list (map f xs) :: u64)"
  by (induction xs) auto

text \<open>
  The loop of the seek runs over all ten slots, not only those in use; the unused ones are
  null, so it still adds up the log.
\<close>

lemma llseek_total_correct:
  assumes "dev_inv s"
  shows "llseek_total_size (buffer (aesd_device s)) = of_nat (length (dev_text s))"
proof -
  let ?b = "buffer (aesd_device s)"
  have wf: "cb_wf ?b" using assms by (simp add: dev_inv_def Let_def)
  obtain k where "filter (\<lambda>e. buffptr e \<noteq> NULL) (entry ?b) = rotate k (cb_entries ?b)"
    using used_slots [OF wf] dev_searchable [OF assms] by (auto simp: searchable_def)
  then have "sum_list (map entry_size (filter (\<lambda>e. buffptr e \<noteq> NULL) (entry ?b))) =
      sum_list (map entry_size (cb_entries ?b))"
    by (simp add: sum_list_rotate del: not_None_eq)
  moreover have "of_nat (length (dev_text s)) = (sum_list (map entry_size (cb_entries ?b)) :: u64)"
    using dev_entry_sizes [OF assms]
    by (simp add: dev_text_def length_concat entry_sizes_def of_nat_sum_list_u64 [symmetric])
  moreover have "length (entry ?b) = 10" using wf by (simp add: cb_wf_def)
  ultimately show ?thesis
    by (simp add: llseek_total_size_def AESD_CIRCULAR_BUFFER_FOREACH_def llseek_total_aux del: not_None_eq)
qed

section \<open>Properties\<close>

text \<open>
  C20: \<^verbatim>\<open>aesd_read\<close> copies to the caller what the concatenation of the logged commands holds
  from the file position on, at most \<^verbatim>\<open>count\<close> bytes, even across commands; it returns the
  number of bytes and advances the position by it, or returns \<^verbatim>\<open>EFAULT\<close> and leaves the
  position when the caller's buffer ends earlier. The device is unchanged, no other memory
  is read and the mutex is free afterwards. With a signal the call does nothing.
\<close>

theorem aesd_read_contract:
  assumes "dev_inv s" and "\<not> lock (aesd_device s)" and "private_data filep = Some ()"
    and "data = take (unat count) (drop (unat pos) (dev_text s))"
  shows "if count \<noteq> 0 \<and> signalled K (clock s)
    then aesd_read K filep ubuf count pos s = Some (Inl ERESTARTSYS, ubuf, pos, tick s)
    else \<exists>s'. aesd_read K filep ubuf count pos s =
        Some (if length data \<le> length ubuf then Inr (of_nat (length data)) else Inl EFAULT,
          take (length ubuf) data @ drop (length data) ubuf,
          if length data \<le> length ubuf then pos + of_nat (length data) else pos, s') \<and>
      same_device s s' \<and> \<not> lock (aesd_device s')"
proof (cases "count \<noteq> 0 \<and> signalled K (clock s)")
  case True
  then show ?thesis using assms(3) by (simp add: aesd_read_def mutex_lock_interruptible_def)
next
  case False
  then have "count = 0 \<or> \<not> signalled K (clock s)" by blast
  from aesd_read_correct [OF assms(1-3) this assms(4)] False show ?thesis by auto
qed

theorem aesd_read_contract_witness:
  "\<exists>s'. aesd_read quiet_kernel open_file ''xy'' 2 0 boot_state = Some (Inr 0, ''xy'', 0, s') \<and>
    same_device boot_state s' \<and> \<not> lock (aesd_device s')"
  using aesd_read_contract [of boot_state open_file "[]" 2 0 quiet_kernel "''xy''"]
  by (simp add: dev_text_def)

end
