(* ===== verification/Char_Device_Seek.thy ===== *)
theory Char_Device_Seek
  imports Char_Device_Read
begin

text \<open>
  \<^verbatim>\<open>aesd_llseek\<close> and \<^verbatim>\<open>aesd_ioctl\<close> against the abstract device, with positions as
  mathematical integers: a seek goes to the position asked for or is refused, and the ioctl
  goes to an offset in the command with the given number.
\<close>

section \<open>llseek\<close>

lemma sint_of_nat_u64: "n < 2 ^ 63 \<Longrightarrow> sint (of_nat n :: u64) = int n"
  by (simp add: signed_of_nat signed_take_bit_int_eq_self)

lemma sint_add_u64:
  "- (2 ^ 63) \<le> sint a + sint b \<Longrightarrow> sint a + sint b < 2 ^ 63 \<Longrightarrow> sint ((a :: u64) + b) = sint a + sint b"
  by (simp add: sint_word_ariths signed_take_bit_int_eq_self)

text \<open>The position a seek asks for; \<open>None\<close> if \<^verbatim>\<open>whence\<close> is none of the three values.\<close>

definition seek_target :: "kfile \<Rightarrow> u64 \<Rightarrow> int \<Rightarrow> aesd_state \<Rightarrow> int option" where
  "seek_target filep offset whence s =
     (if whence = 0 then Some (sint offset)
      else if whence = 1 then Some (sint (f_pos filep) + sint offset)
      else if whence = 2 then Some (int (length (dev_text s)) + sint offset)
      else None)"

lemma dev_inv_lock:
  "s1 = tick (dev_update (lock_update (\<lambda>_. True)) s) \<Longrightarrow>
   dev_inv s1 = dev_inv s \<and> dev_text s1 = dev_text s \<and> dev_cmds s1 = dev_cmds s \<and> dev_partial s1 = dev_partial s \<and>
   buffer (aesd_device s1) = buffer (aesd_device s) \<and> lock (aesd_device s1)"
  by (simp add: dev_text_def)

lemma same_device_unlock:
  assumes "s1 = tick (dev_update (lock_update (\<lambda>_. True)) s)" and "dev_inv s"
  shows "\<exists>s2. mutex_unlock s1 = Some s2 \<and> same_device s s2 \<and> \<not> lock (aesd_device s2)"
  using dev_inv_lock [OF assms(1)] assms(2) by (auto simp: mutex_unlock_def same_device_def)

lemma llseek_word:
  assumes inv: "dev_inv s" and t: "seek_target filep offset whence s = Some p"
    and "- (2 ^ 63) \<le> p" and "p < 2 ^ 63"
  shows "\<exists>w. (if whence = 0 then Some offset else if whence = 1 then Some (f_pos filep + offset)
      else if whence = 2 then Some (llseek_total_size (buffer (aesd_device s)) + offset) else None) = Some w \<and>
    sint w = p"
proof -
  have len: "sint (of_nat (length (dev_text s)) :: u64) = int (length (dev_text s))"
    using length_dev_text [OF inv] by (intro sint_of_nat_u64) simp
  have "sint (of_nat (length (dev_text s)) + offset :: u64) = p" if "whence = 2"
    using that t assms(3,4) len by (subst sint_add_u64) (auto simp: seek_target_def)
  with t assms(3,4) show ?thesis
    by (auto simp: seek_target_def llseek_total_correct [OF inv] sint_add_u64 split: if_splits)
qed

lemma aesd_llseek_correct:
  assumes inv: "dev_inv s" and unlocked: "\<not> lock (aesd_device s)"
    and opened: "private_data filep = Some ()" and wait: "\<not> signalled K (clock s)"
    and range: "\<forall>p. seek_target filep offset whence s = Some p \<longrightarrow> - (2 ^ 63) \<le> p \<and> p < 2 ^ 63"
  shows "\<exists>r filep' s'. aesd_llseek K filep offset whence s = Some (r, filep', s') \<and>
    same_device s s' \<and> \<not> lock (aesd_device s') \<and>
    (case seek_target filep offset whence s of
       None \<Rightarrow> r = Inl EINVAL \<and> filep' = filep
     | Some p \<Rightarrow> if p < 0 then r = Inl EINVAL \<and> filep' = filep
                 else \<exists>w. sint w = p \<and> r = Inr w \<and> filep' = filep\<lparr>f_pos := w\<rparr>)"
proof -
  define s1 where "s1 = tick (dev_update (lock_update (\<lambda>_. True)) s)"
  have start: "mutex_lock_interruptible K s = Some (False, s1)"
    using wait unlocked by (simp add: mutex_lock_interruptible_def s1_def)
  obtain s2 where s2: "mutex_unlock s1 = Some s2" "same_device s s2" "\<not> lock (aesd_device s2)"
    using same_device_unlock [OF s1_def inv] by blast
  note s1 = dev_inv_lock [OF s1_def]
  show ?thesis
  proof (cases "seek_target filep offset whence s")
    case None
    then have "whence \<noteq> 0" "whence \<noteq> 1" "whence \<noteq> 2" by (auto simp: seek_target_def split: if_splits)
    with None opened start s2 show ?thesis by (simp add: aesd_llseek_def)
  next
    case (Some p)
    have "dev_inv s1" "seek_target filep offset whence s1 = Some p"
      using s1 inv Some by (auto simp: seek_target_def split: if_splits)
    from llseek_word [OF this] range Some obtain w where
      w: "(if whence = 0 then Some offset else if whence = 1 then Some (f_pos filep + offset)
        else if whence = 2 then Some (llseek_total_size (buffer (aesd_device s1)) + offset) else None) = Some w"
      "sint w = p" by blast
    show ?thesis
      unfolding aesd_llseek_def start opened bind.simps prod.case if_False w(1)
      using Some s2 w(2) by (simp add: Let_def)
  qed
qed

section \<open>ioctl\<close>

lemma uint_unat_u8: "uint (w :: u8) = int (unat w)"
  by simp

lemma ioctl_total_correct:
  assumes "dev_inv s"
  shows "ioctl_total_entries (buffer (aesd_device s)) = of_nat (length (dev_cmds s))"
proof -
  let ?b = "buffer (aesd_device s)"
  have wf: "cb_wf ?b" using assms by (simp add: dev_inv_def Let_def)
  have len: "length (dev_cmds s) = cb_count ?b" using wf by (simp add: dev_cmds_def)
  show ?thesis
  proof (cases "full ?b")
    case True
    with len show ?thesis by (simp add: ioctl_total_entries_def cb_count_def)
  next
    case False
    then have b: "uint (in_offs ?b) < 10" "out_offs ?b = 0"
      using wf by (auto simp: cb_wf_def uint_unat_u8 simp del: of_nat_unat)
    have "(uint (in_offs ?b) + 10) smod 10 = uint (in_offs ?b)"
      using b(1) by (simp add: smod_mod_positive)
    then show ?thesis
      using False b len by (simp add: ioctl_total_entries_def cb_count_def)
  qed
qed

lemma ioctl_index:
  assumes inv: "dev_inv s" and i: "i < length (dev_cmds s)"
    and k: "k = (unat (out_offs (buffer (aesd_device s))) + i) mod 10"
  shows "\<exists>e. array_get (entry (buffer (aesd_device s))) k = Some e \<and>
    entry_size e = of_nat (length (dev_cmds s ! i)) \<and> length (dev_cmds s ! i) \<le> KMALLOC_BOUND"
proof -
  let ?b = "buffer (aesd_device s)"
  have wf: "cb_wf ?b" using inv by (simp add: dev_inv_def Let_def)
  have "i < cb_count ?b" using i wf by (simp add: dev_cmds_def)
  from nth_cb_entries [OF wf this] have "entry ?b ! k = cb_entries ?b ! i" by (simp add: k)
  moreover have "k < length (entry ?b)" using wf k by (simp add: cb_wf_def)
  ultimately show ?thesis using dev_cmds_nth [OF inv i] by auto
qed

lemma unat_slot:
  assumes "unat (o' :: u8) < 10" and "i < 10"
  shows "unat ((ucast o' + of_nat i :: u64) mod buffer_size) = (unat o' + i) mod 10"
    and "unat c = i \<Longrightarrow> unat ((ucast o' + c :: u32) mod 10) = (unat o' + i) mod 10"
proof -
  show "unat ((ucast o' + of_nat i :: u64) mod buffer_size) = (unat o' + i) mod 10"
    using assms by (simp add: unat_mod word_nat)
  have "unat (ucast o' :: u32) = unat o'"
    using assms(1) by (simp add: unsigned_ucast_eq take_bit_nat_eq_self)
  then show "unat c = i \<Longrightarrow> unat ((ucast o' + c :: u32) mod 10) = (unat o' + i) mod 10"
    using assms by (simp add: unat_mod unat_word_ariths)
qed

lemma ioctl_position_correct:
  assumes inv: "dev_inv s"
  shows "n \<le> length (dev_cmds s) \<Longrightarrow>
    ioctl_position (buffer (aesd_device s)) n = Some (of_nat (length (concat (take n (dev_cmds s)))))"
proof (induction n)
  case (Suc n)
  let ?b = "buffer (aesd_device s)"
  have n: "n < length (dev_cmds s)" using Suc.prems by simp
  have "unat (out_offs ?b) < 10" using inv by (simp add: dev_inv_def Let_def cb_wf_def)
  moreover have "n < 10" using n length_dev_cmds [OF inv] by simp
  ultimately have "unat ((ucast (out_offs ?b) + of_nat n :: u64) mod buffer_size) = (unat (out_offs ?b) + n) mod 10"
    by (rule unat_slot(1))
  with ioctl_index [OF inv n this] Suc n show ?case
    by (auto simp: take_Suc_conv_app_nth)
qed simp

lemma aesd_ioctl_correct:
  assumes inv: "dev_inv s" and unlocked: "\<not> lock (aesd_device s)"
    and opened: "private_data filep = Some ()" and wait: "\<not> signalled K (clock s)"
  shows "\<exists>s'. aesd_ioctl K filep (AESDCHAR_IOCSEEKTO K) (Some sk) s = Some
      (if unat (write_cmd sk) < length (dev_cmds s) \<and>
          unat (write_cmd_offset sk) < length (dev_cmds s ! unat (write_cmd sk))
       then (Inr 0, filep\<lparr>f_pos := of_nat (length (concat (take (unat (write_cmd sk)) (dev_cmds s))) +
                                         unat (write_cmd_offset sk))\<rparr>, s')
       else (Inl EINVAL, filep, s')) \<and>
    same_device s s' \<and> \<not> lock (aesd_device s')"
proof -
  define s1 where "s1 = tick (dev_update (lock_update (\<lambda>_. True)) s)"
  have start: "mutex_lock_interruptible K s = Some (False, s1)"
    using wait unlocked by (simp add: mutex_lock_interruptible_def s1_def)
  obtain s2 where s2: "mutex_unlock s1 = Some s2" "same_device s s2" "\<not> lock (aesd_device s2)"
    using same_device_unlock [OF s1_def inv] by blast
  note s1 = dev_inv_lock [OF s1_def]
  let ?c = "unat (write_cmd sk)"
  let ?b = "buffer (aesd_device s)"
  have "length (dev_cmds s) \<le> 10" by (rule length_dev_cmds [OF inv])
  then have ge: "ioctl_total_entries ?b \<le> ucast (write_cmd sk) \<longleftrightarrow> \<not> ?c < length (dev_cmds s)"
    by (simp add: ioctl_total_correct [OF inv] word_le_nat_alt word_nat not_less)
  show ?thesis
  proof (cases "?c < length (dev_cmds s)")
    case False
    with ge s2 start opened s1 show ?thesis by (simp add: aesd_ioctl_def Let_def)
  next
    case True
    have "unat (out_offs ?b) < 10" using inv by (simp add: dev_inv_def Let_def cb_wf_def)
    moreover have "?c < 10" using True \<open>length (dev_cmds s) \<le> 10\<close> by simp
    ultimately have "unat ((ucast (out_offs ?b) + write_cmd sk :: u32) mod 10) = (unat (out_offs ?b) + ?c) mod 10"
      by (rule unat_slot(2)) simp
    with ioctl_index [OF inv True this] obtain e where
      e: "array_get (entry ?b) (unat ((ucast (out_offs ?b) + write_cmd sk :: u32) mod 10)) = Some e"
      "entry_size e = of_nat (length (dev_cmds s ! ?c))" "length (dev_cmds s ! ?c) \<le> KMALLOC_BOUND" by auto
    have pos: "ioctl_position ?b ?c = Some (of_nat (length (concat (take ?c (dev_cmds s)))))"
      using True by (intro ioctl_position_correct [OF inv]) simp
    have off: "entry_size e \<le> ucast (write_cmd_offset sk) \<longleftrightarrow>
        \<not> unat (write_cmd_offset sk) < length (dev_cmds s ! ?c)"
      using e(2,3) by (simp add: word_le_nat_alt word_nat not_less)
    with True ge s2 start opened s1 e(1) off pos show ?thesis
      by (auto simp: aesd_ioctl_def Let_def)
  qed
qed

text \<open>The other outcomes: a bad pointer, a signal, an unknown command, in this order.\<close>

lemma aesd_ioctl_errors:
  assumes inv: "dev_inv s" and unlocked: "\<not> lock (aesd_device s)" and opened: "private_data filep = Some ()"
    and "arg = None \<or> signalled K (clock s) \<or> cmd \<noteq> AESDCHAR_IOCSEEKTO K"
  shows "\<exists>s'. aesd_ioctl K filep cmd arg s = Some
      (Inl (if arg = None then EFAULT else if signalled K (clock s) then ERESTARTSYS else ENOTTY), filep, s') \<and>
    same_device s s' \<and> \<not> lock (aesd_device s')"
proof (cases "arg = None \<or> signalled K (clock s)")
  case True
  then show ?thesis using inv unlocked opened
    by (cases arg) (auto simp: aesd_ioctl_def mutex_lock_interruptible_def same_device_def)
next
  case False
  define s1 where "s1 = tick (dev_update (lock_update (\<lambda>_. True)) s)"
  have "mutex_lock_interruptible K s = Some (False, s1)"
    using False unlocked by (simp add: mutex_lock_interruptible_def s1_def)
  moreover obtain s2 where "mutex_unlock s1 = Some s2" "same_device s s2" "\<not> lock (aesd_device s2)"
    using same_device_unlock [OF s1_def inv] by blast
  ultimately show ?thesis using False assms(3,4) by (auto simp: aesd_ioctl_def)
qed

section \<open>Properties\<close>

text \<open>
  C22: \<^verbatim>\<open>aesd_llseek\<close> moves the file to the position that \<^verbatim>\<open>whence\<close> and the offset name, counted
  from the start, from the current position or from the end of the text in the device, and
  returns it; a negative position and an unknown \<^verbatim>\<open>whence\<close> are refused with \<^verbatim>\<open>EINVAL\<close> and
  leave the file as it was. (Sums outside the range of \<^verbatim>\<open>loff_t\<close> are excluded.)
\<close>

theorem aesd_llseek_contract:
  assumes "dev_inv s" and "\<not> lock (aesd_device s)" and "private_data filep = Some ()"
    and "\<not> signalled K (clock s)"
    and "\<forall>p. seek_target filep offset whence s = Some p \<longrightarrow> - (2 ^ 63) \<le> p \<and> p < 2 ^ 63"
  shows "\<exists>r filep' s'. aesd_llseek K filep offset whence s = Some (r, filep', s') \<and>
    same_device s s' \<and> \<not> lock (aesd_device s') \<and>
    (case seek_target filep offset whence s of
       None \<Rightarrow> r = Inl EINVAL \<and> filep' = filep
     | Some p \<Rightarrow> if p < 0 then r = Inl EINVAL \<and> filep' = filep
                 else \<exists>w. sint w = p \<and> r = Inr w \<and> filep' = filep\<lparr>f_pos := w\<rparr>)"
  by (rule aesd_llseek_correct [OF assms])

theorem aesd_llseek_contract_witness:
  "\<exists>r filep' s'. aesd_llseek quiet_kernel open_file 5 2 boot_state = Some (r, filep', s') \<and>
    (\<exists>w. sint w = 5 \<and> r = Inr w \<and> f_pos filep' = w)"
  using aesd_llseek_contract [of boot_state open_file quiet_kernel 5 2]
  by (auto simp: seek_target_def dev_text_def)

text \<open>
  C21: \<^verbatim>\<open>AESDCHAR_IOCSEEKTO\<close> with command number \<open>c\<close> and offset \<open>o\<close> moves the file to byte
  \<open>o\<close> of command \<open>c\<close>, counted from the oldest command in the device, wherever the ring
  starts; it is refused with \<^verbatim>\<open>EINVAL\<close>, and the file not moved, exactly when there is no
  such command or no such byte in it.
\<close>

theorem aesd_ioctl_seek_contract:
  assumes "dev_inv s" and "\<not> lock (aesd_device s)" and "private_data filep = Some ()"
    and "\<not> signalled K (clock s)"
  shows "\<exists>s'. aesd_ioctl K filep (AESDCHAR_IOCSEEKTO K) (Some sk) s = Some
      (if unat (write_cmd sk) < length (dev_cmds s) \<and>
          unat (write_cmd_offset sk) < length (dev_cmds s ! unat (write_cmd sk))
       then (Inr 0, filep\<lparr>f_pos := of_nat (length (concat (take (unat (write_cmd sk)) (dev_cmds s))) +
                                         unat (write_cmd_offset sk))\<rparr>, s')
       else (Inl EINVAL, filep, s')) \<and>
    same_device s s' \<and> \<not> lock (aesd_device s')"
  by (rule aesd_ioctl_correct [OF assms])

theorem aesd_ioctl_seek_contract_witness:
  "\<exists>s'. aesd_ioctl quiet_kernel open_file (AESDCHAR_IOCSEEKTO quiet_kernel)
      (Some \<lparr>write_cmd = 1, write_cmd_offset = 0\<rparr>) boot_state = Some (Inl EINVAL, open_file, s') \<and>
    same_device boot_state s' \<and> \<not> lock (aesd_device s')"
  using aesd_ioctl_seek_contract [of boot_state open_file quiet_kernel "\<lparr>write_cmd = 1, write_cmd_offset = 0\<rparr>"]
  by simp

end
