(* ===== verification/Data_File.thy ===== *)
theory Data_File
  imports Char_Device_Seek
begin

text \<open>
  What the socket server needs of the file at \<^verbatim>\<open>FILEPATH\<close>: appending, reading from a
  position, and \<^verbatim>\<open>AESDCHAR_IOCSEEKTO\<close>. The server is built for a regular file or, with
  \<^verbatim>\<open>USE_AESD_CHAR_DEVICE\<close>, for the driver's device; the interface \<open>data_file\<close> states what
  both promise, and both are shown to keep it: the regular file directly, the device
  through the handlers of the driver.
\<close>

section \<open>The interface\<close>

record 'st data_ops =
  df_append :: "'st \<Rightarrow> byte list \<Rightarrow> 'st"
  df_read :: "'st \<Rightarrow> nat \<Rightarrow> nat \<Rightarrow> byte list"
  df_seek :: "'st \<Rightarrow> u32 \<Rightarrow> u32 \<Rightarrow> nat option"

locale data_file =
  fixes F :: "'st data_ops"
    and file_inv :: "'st \<Rightarrow> bool"
    and content :: "'st \<Rightarrow> byte list"
  assumes append_inv: "file_inv st \<Longrightarrow> length bs \<le> 1024 \<Longrightarrow> file_inv (df_append F st bs)"
    and read_law: "file_inv st \<Longrightarrow> pos \<le> length (content st) \<Longrightarrow> n \<le> 1024 \<Longrightarrow>
          df_read F st pos n = take n (drop pos (content st))"
    and seek_law: "file_inv st \<Longrightarrow> df_seek F st c off = Some pos \<Longrightarrow> pos \<le> length (content st)"

section \<open>A regular file\<close>

text \<open>The ioctl is not one of a regular file (\<^verbatim>\<open>ENOTTY\<close>).\<close>

definition regular_file :: "byte list data_ops" where
  "regular_file = \<lparr>df_append = (@), df_read = (\<lambda>st pos n. take n (drop pos st)), df_seek = (\<lambda>st c off. None)\<rparr>"

interpretation regular: data_file regular_file "\<lambda>_. True" "\<lambda>st. st"
  by unfold_locales (simp_all add: regular_file_def)

section \<open>The device\<close>

text \<open>
  Each use opens the device anew. A call that fails is as the server sees it: nothing
  appended, nothing read, no position. Reading and seeking give an answer only when the handler has left
  the device as it was, with the mutex free, so that the state need not be passed on.
\<close>

definition left_alone :: "aesd_state \<Rightarrow> aesd_state \<Rightarrow> bool" where
  "left_alone s s' \<longleftrightarrow>
     aesd_device s' = aesd_device s \<and> dev_cmds s' = dev_cmds s \<and> dev_partial s' = dev_partial s"

definition device_file :: "kenv \<Rightarrow> aesd_state data_ops" where
  "device_file K =
     \<lparr>df_append = (\<lambda>s bs. case aesd_write K open_file bs (of_nat (length bs)) 0 s of
          Some (r, pos, s') \<Rightarrow> s' | None \<Rightarrow> s),
      df_read = (\<lambda>s pos n. case aesd_read K open_file (replicate n nul) (of_nat n) (of_nat pos) s of
          Some (Inr m, out, pos', s') \<Rightarrow> if left_alone s s' then take (unat m) out else [] | _ \<Rightarrow> []),
      df_seek = (\<lambda>s c off. case aesd_ioctl K open_file (AESDCHAR_IOCSEEKTO K)
            (Some \<lparr>write_cmd = c, write_cmd_offset = off\<rparr>) s of
          Some (Inr r, filep, s') \<Rightarrow> if left_alone s s' then Some (unat (f_pos filep)) else None | _ \<Rightarrow> None)\<rparr>"

text \<open>The handlers of \<^verbatim>\<open>read\<close> and \<^verbatim>\<open>ioctl\<close> do leave a device alone whose mutex is free.\<close>

lemma left_alone_eq:
  "aesd_device s' = aesd_device s \<Longrightarrow> heap s' = heap s \<Longrightarrow> left_alone s s'"
  by (auto simp: left_alone_def dev_cmds_def dev_partial_def split: option.split)

lemma unlocked_dev: "\<not> lock d \<Longrightarrow> d\<lparr>lock := False\<rparr> = d"
  by simp

lemma lock_and_unlock:
  assumes "\<not> lock (aesd_device s)" and "mutex_lock_interruptible K s = Some (i, s1)"
  shows "i \<Longrightarrow> left_alone s s1" and "mutex_unlock s1 = Some s2 \<Longrightarrow> left_alone s s2"
  using assms
  by (auto simp: mutex_lock_interruptible_def mutex_unlock_def unlocked_dev intro!: left_alone_eq split: if_split_asm)

lemma read_leaves_alone:
  assumes "\<not> lock (aesd_device s)" and "aesd_read K f ubuf count pos s = Some (r, out, pos', s')"
  shows "left_alone s s'"
  using assms lock_and_unlock [OF assms(1)]
  by (auto simp: aesd_read_def left_alone_eq split: if_split_asm Option.bind_splits)

lemma ioctl_leaves_alone:
  assumes "\<not> lock (aesd_device s)" and "aesd_ioctl K f cmd arg s = Some (r, f', s')"
  shows "left_alone s s'"
  using assms lock_and_unlock [OF assms(1)]
  by (auto simp: aesd_ioctl_def Let_def left_alone_eq split: option.splits if_split_asm Option.bind_splits)

definition dev_ready :: "aesd_state \<Rightarrow> bool" where
  "dev_ready s \<longleftrightarrow> dev_inv s \<and> \<not> lock (aesd_device s)"

lemma outcome_inv:
  assumes "write_outcome K s ubuf count r s'" and "dev_inv s"
  shows "dev_inv s'"
proof (cases r)
  case (Inr n)
  with assms show ?thesis by (auto simp: write_outcome_def Let_def logged_def)
next
  case (Inl e)
  with assms show ?thesis by (cases e) (auto simp: write_outcome_def Let_def logged_def same_device_def)
qed

text \<open>A kernel that serves the driver: room for its blocks, and no signals.\<close>

locale serving_kernel = kernel_allocator +
  assumes serving: "serves K"
    and quiet: "\<not> signalled K t"

lemma device_read:
  assumes "dev_inv s" "\<not> lock (aesd_device s)" and quiet: "\<And>t. \<not> signalled K t"
    and pos: "pos \<le> length (dev_text s)" and n: "n \<le> 1024"
  shows "df_read (device_file K) s pos n = take n (drop pos (dev_text s))"
proof -
  define data where "data = take n (drop pos (dev_text s))"
  have w: "unat (of_nat n :: u64) = n" "unat (of_nat pos :: u64) = pos"
    using n pos length_dev_text [OF assms(1)] by (simp_all add: word_nat)
  have len: "length data \<le> n" by (simp add: data_def)
  have m: "unat (of_nat (length data) :: u64) = length data"
    using n len by (intro unat_of_nat_u64) simp
  have "data = take (unat (of_nat n :: u64)) (drop (unat (of_nat pos :: u64)) (dev_text s))"
    by (simp add: data_def w)
  from aesd_read_correct [OF assms(1,2) _ _ this, of open_file K "replicate n nul"] quiet len obtain s' where
    "aesd_read K open_file (replicate n nul) (of_nat n) (of_nat pos) s =
      Some (Inr (of_nat (length data)), take n data @ drop (length data) (replicate n nul),
        of_nat pos + of_nat (length data), s')"
    by auto
  then have "df_read (device_file K) s pos n = data"
    using m len read_leaves_alone [OF assms(2)] by (simp add: device_file_def)
  then show ?thesis by (simp add: data_def)
qed

lemma device_seek:
  assumes "dev_inv s" "\<not> lock (aesd_device s)" and quiet: "\<And>t. \<not> signalled K t"
  shows "df_seek (device_file K) s c off =
    (if unat c < length (dev_cmds s) \<and> unat off < length (dev_cmds s ! unat c)
     then Some (length (concat (take (unat c) (dev_cmds s))) + unat off) else None)"
proof -
  let ?p = "length (concat (take (unat c) (dev_cmds s))) + unat off"
  have "unat (of_nat ?p :: u64) = ?p" if "unat c < length (dev_cmds s)" "unat off < length (dev_cmds s ! unat c)"
  proof -
    have "dev_text s = concat (take (unat c) (dev_cmds s)) @ dev_cmds s ! unat c @ concat (drop (Suc (unat c)) (dev_cmds s))"
      using id_take_nth_drop [OF that(1)] unfolding dev_text_def by (metis concat.simps(2) concat_append)
    then have "?p \<le> length (dev_text s)" using that(2) by simp
    then show ?thesis using length_dev_text [OF assms(1)] by (intro unat_of_nat_u64) simp
  qed
  then show ?thesis
    using aesd_ioctl_correct [OF assms(1,2) _ quiet, of open_file "\<lparr>write_cmd = c, write_cmd_offset = off\<rparr>"]
      ioctl_leaves_alone [OF assms(2), of K open_file]
    by (auto simp: device_file_def simp del: of_nat_add)
qed

sublocale serving_kernel \<subseteq> device: data_file "device_file K" dev_ready dev_text
proof
  fix st :: aesd_state and bs :: "byte list"
  assume st: "dev_ready st" and len: "length bs \<le> 1024"
  have "unat (of_nat (length bs) :: u64) \<le> MAX_RW_COUNT" using len by (simp add: word_nat)
  from aesd_write_correct [OF _ _ _ this, of st open_file bs 0] st obtain r s' where
    "aesd_write K open_file bs (of_nat (length bs)) 0 st = Some (r, 0, s')" "\<not> lock (aesd_device s')"
    "write_outcome K st bs (of_nat (length bs)) r s'"
    by (auto simp: dev_ready_def)
  with st show "dev_ready (df_append (device_file K) st bs)"
    by (simp add: dev_ready_def device_file_def outcome_inv)
next
  fix st :: aesd_state and pos n :: nat
  assume "dev_ready st" "pos \<le> length (dev_text st)" "n \<le> 1024"
  then show "df_read (device_file K) st pos n = take n (drop pos (dev_text st))"
    by (intro device_read) (simp_all add: dev_ready_def quiet)
next
  fix st :: aesd_state and c off :: u32 and pos :: nat
  assume "dev_ready st" and "df_seek (device_file K) st c off = Some pos"
  then have c: "unat c < length (dev_cmds st)" "unat off < length (dev_cmds st ! unat c)"
    "pos = length (concat (take (unat c) (dev_cmds st))) + unat off"
    using device_seek [of st K c off] quiet by (auto simp: dev_ready_def split: if_splits)
  then show "pos \<le> length (dev_text st)"
    using id_take_nth_drop [OF c(1)] unfolding dev_text_def
    by (metis (no_types, lifting) add_left_mono append.assoc concat.simps(2) concat_append length_append less_imp_le
        trans_le_add1)
qed

context serving_kernel
begin

lemma device_data_file: "data_file (device_file K) dev_ready dev_text"
  by (rule device.data_file_axioms)

end

interpretation serving: serving_kernel quiet_kernel
  by (intro serving_kernel.intro serving_kernel_axioms.intro) simp_all

end
