(* ===== verification/Socket_Client.thy ===== *)
theory Socket_Client
  imports Data_File
begin

text \<open>
  The threads of the socket server (\<^verbatim>\<open>server/aesdsocket.c\<close>) that use the data file:
  \<^verbatim>\<open>client_thread\<close> and \<^verbatim>\<open>timestamp_thread\<close>, and the signal handler whose flags stop them. The
  client's buffer is the list of its 1024 bytes, what it holds before the first \<^verbatim>\<open>recv\<close>
  included: the code looks for a newline in it beyond the bytes it has just received.
\<close>

section \<open>State and environment\<close>

text \<open>
  The file operations, and the results of the library calls of one client: whether the
  \<open>n\<close>-th call of \<^verbatim>\<open>fopen\<close> or \<^verbatim>\<open>open\<close> succeeds, how much of a chunk the \<open>n\<close>-th \<^verbatim>\<open>send\<close>
  takes (\<open>None\<close> for an error), how many bytes a flush brings to the file, and whether one
  of the signal flags is seen set.
\<close>

record 'st client_env =
  data :: "'st data_ops"
  open_ok :: "nat \<Rightarrow> bool"
  send_res :: "nat \<Rightarrow> nat \<Rightarrow> nat option"
  flushed :: "nat \<Rightarrow> nat \<Rightarrow> nat"
  stopping :: "nat \<Rightarrow> bool"

text \<open>\<open>files_locked\<close> is \<^verbatim>\<open>mutex_for_files\<close> held by this thread; \<open>calls\<close> counts library calls.\<close>

record 'st client =
  store :: 'st
  sent :: "byte list"
  buf :: "byte list"
  files_locked :: bool
  connected :: bool
  calls :: nat

definition files_lock :: "('st, 'z) client_scheme \<Rightarrow> ('st, 'z) client_scheme option" where
  "files_lock c = (if files_locked c then None else Some (c\<lparr>files_locked := True\<rparr>))"

definition files_unlock :: "('st, 'z) client_scheme \<Rightarrow> ('st, 'z) client_scheme option" where
  "files_unlock c = (if files_locked c then Some (c\<lparr>files_locked := False\<rparr>) else None)"

abbreviation call :: "('st, 'z) client_scheme \<Rightarrow> ('st, 'z) client_scheme" where
  "call c \<equiv> c\<lparr>calls := Suc (calls c)\<rparr>"

section \<open>The buffer\<close>

text \<open>A call that fills the first bytes of the buffer leaves the others.\<close>

definition overlay :: "byte list \<Rightarrow> byte list \<Rightarrow> byte list" where
  "overlay b bs = bs @ drop (length bs) b"

text \<open>The C string at the start of the buffer; the reader of a buffer without a NUL runs past its end.\<close>

definition c_string :: "byte list \<Rightarrow> byte list option" where
  "c_string b = (if nul \<in> set b then Some (takeWhile (\<lambda>x. x \<noteq> nul) b) else None)"

text \<open>\<^verbatim>\<open>strchr(buffer, '\n')\<close> as a condition; it stops at the first newline or NUL.\<close>

definition strchr_newline :: "byte list \<Rightarrow> bool option" where
  "strchr_newline b =
     (case dropWhile (\<lambda>x. x \<noteq> nul \<and> x \<noteq> newline) b of
        [] \<Rightarrow> None
      | x # _ \<Rightarrow> Some (x = newline))"

section \<open>\<^verbatim>\<open>sscanf(after_prefix, "%u,%u", ...)\<close>\<close>

definition isspace :: "byte \<Rightarrow> bool" where
  "isspace c \<longleftrightarrow> c \<in> {CHR 0x20, CHR 0x09, CHR 0x0A, CHR 0x0B, CHR 0x0C, CHR 0x0D}"

definition isdigit :: "byte \<Rightarrow> bool" where
  "isdigit c \<longleftrightarrow> 48 \<le> (of_char c :: nat) \<and> (of_char c :: nat) \<le> 57"

definition digits_value :: "byte list \<Rightarrow> nat" where
  "digits_value ds = foldl (\<lambda>v c. 10 * v + (of_char c - 48)) 0 ds"

text \<open>
  One \<^verbatim>\<open>%u\<close>: white space, an optional sign, digits. A number that does not fit is undefined
  (the outer \<open>None\<close>), no digits is a matching failure (the inner one).
\<close>

definition scan_u :: "byte list \<Rightarrow> (u32 \<times> byte list) option option" where
  "scan_u s =
     (let s1 = dropWhile isspace s;
          neg = (s1 \<noteq> [] \<and> hd s1 = CHR ''-'');
          s2 = (if s1 \<noteq> [] \<and> hd s1 \<in> {CHR ''-'', CHR ''+''} then tl s1 else s1);
          ds = takeWhile isdigit s2;
          v = digits_value ds
      in if ds = [] then Some None
         else if v \<ge> 2 ^ 32 then None
         else Some (Some (if neg then - of_nat v else of_nat v, drop (length ds) s2)))"

text \<open>Both numbers, or \<open>Some None\<close> when fewer than two conversions succeed.\<close>

definition scan_seekto :: "byte list \<Rightarrow> (u32 \<times> u32) option option" where
  "scan_seekto s = do {
     r \<leftarrow> scan_u s;
     case r of
       None \<Rightarrow> Some None
     | Some (my_command, rest) \<Rightarrow>
         (case rest of
            [] \<Rightarrow> Some None
          | c # rest' \<Rightarrow>
              if c \<noteq> CHR '','' then Some None
              else do {
                r' \<leftarrow> scan_u rest';
                case r' of None \<Rightarrow> Some None | Some (my_offset, _) \<Rightarrow> Some (Some (my_command, my_offset))
              })
   }"

definition ioctl_value :: "byte list" where
  "ioctl_value = ''AESDCHAR_IOCSEEKTO:''"

section \<open>Sending the file\<close>

text \<open>
  The loop \<^verbatim>\<open>while ((bytes_received = fread(buffer, 1, 1024, fp)) > 0)\<close>. After an error of
  \<^verbatim>\<open>send\<close> the file is closed in the loop and again behind it, which is undefined.
\<close>

partial_function (option) send_file ::
  "'st client_env \<Rightarrow> nat \<Rightarrow> 'st client \<Rightarrow> 'st client option" where
  "send_file E pos c =
     (if df_read (data E) (store c) pos 1024 = [] then Some c
      else (case send_res E (calls c) (length (df_read (data E) (store c) pos 1024)) of
              None \<Rightarrow> None
            | Some m \<Rightarrow>
                send_file E (pos + length (df_read (data E) (store c) pos 1024))
                  (call (c\<lparr>buf := overlay (buf c) (df_read (data E) (store c) pos 1024),
                           sent := sent c @ take m (df_read (data E) (store c) pos 1024)\<rparr>))))"

text \<open>The loop \<^verbatim>\<open>while ((bytes_received = read(my_value, buffer, sizeof(buffer))) > 0)\<close>; an error ends it.\<close>

partial_function (option) send_rest ::
  "'st client_env \<Rightarrow> nat \<Rightarrow> 'st client \<Rightarrow> 'st client option" where
  "send_rest E pos c =
     (if df_read (data E) (store c) pos 1024 = [] then Some c
      else (case send_res E (calls c) (length (df_read (data E) (store c) pos 1024)) of
              None \<Rightarrow> Some (call (c\<lparr>buf := overlay (buf c) (df_read (data E) (store c) pos 1024)\<rparr>))
            | Some m \<Rightarrow>
                send_rest E (pos + length (df_read (data E) (store c) pos 1024))
                  (call (c\<lparr>buf := overlay (buf c) (df_read (data E) (store c) pos 1024),
                           sent := sent c @ take m (df_read (data E) (store c) pos 1024)\<rparr>))))"

section \<open>One round of the client\<close>

text \<open>\<^verbatim>\<open>fputs\<close> and \<^verbatim>\<open>fflush\<close> on a file opened for appending: without bytes there is no write.\<close>

definition put_file :: "'st data_ops \<Rightarrow> 'st \<Rightarrow> byte list \<Rightarrow> 'st" where
  "put_file F st bs = (if bs = [] then st else df_append F st bs)"

text \<open>Whether the main loop goes round again.\<close>

datatype progress = Continue | Stop

definition append_packet :: "'st client_env \<Rightarrow> 'st client \<Rightarrow> 'st client option" where
  "append_packet E c = do {
     c1 \<leftarrow> files_lock c;
     c2 \<leftarrow> (if open_ok E (calls c1) then do {
              packet \<leftarrow> c_string (buf c1);
              Some (call (c1\<lparr>store := put_file (data E) (store c1) (take (flushed E (calls c1) (length packet)) packet)\<rparr>))
            }
            else Some (call c1));
     files_unlock c2
   }"

definition reply_file :: "'st client_env \<Rightarrow> 'st client \<Rightarrow> 'st client option" where
  "reply_file E c = do {
     c1 \<leftarrow> files_lock c;
     c2 \<leftarrow> (if open_ok E (calls c1) then send_file E 0 (call c1) else Some (call c1));
     files_unlock c2
   }"

definition seek_round :: "'st client_env \<Rightarrow> 'st client \<Rightarrow> (progress \<times> 'st client) option" where
  "seek_round E c = do {
     s \<leftarrow> c_string (drop (length ioctl_value) (buf c));
     r \<leftarrow> scan_seekto s;
     case r of
       None \<Rightarrow> Some (Stop, c)
     | Some (my_command, my_offset) \<Rightarrow>
         if \<not> open_ok E (calls c) then Some (Stop, call c)
         else (case df_seek (data E) (store c) my_command my_offset of
                 None \<Rightarrow> Some (Stop, call c)
               | Some pos \<Rightarrow> map_option (Pair Continue) (send_rest E pos (call c)))
   }"

definition data_round :: "'st client_env \<Rightarrow> 'st client \<Rightarrow> (progress \<times> 'st client) option" where
  "data_round E c = do {
     c1 \<leftarrow> append_packet E c;
     c2 \<leftarrow> reply_file E c1;
     nl \<leftarrow> strchr_newline (buf c2);
     Some (if nl then Stop else Continue, c2)
   }"

text \<open>The round after \<^verbatim>\<open>recv\<close> gave the bytes \<open>bs\<close>.\<close>

definition client_round :: "'st client_env \<Rightarrow> byte list \<Rightarrow> 'st client \<Rightarrow> (progress \<times> 'st client) option" where
  "client_round E bs c =
     (let c1 = c\<lparr>buf := overlay (buf c) (bs @ [nul])\<rparr>
      in if take (length ioctl_value) (buf c1) = ioctl_value then seek_round E c1 else data_round E c1)"

section \<open>The client thread\<close>

text \<open>
  What \<^verbatim>\<open>recv\<close> gives: between 1 and 1023 bytes, 0 at the end of the connection, or an error.
  The client runs on a finite sequence of them, and then waits: \<open>connected\<close> is still set.
\<close>

datatype recv = Received "byte list" | Disconnected | Recv_Error

fun client_loop :: "'st client_env \<Rightarrow> recv list \<Rightarrow> 'st client \<Rightarrow> (progress \<times> 'st client) option" where
  "client_loop E rs c =
     (if stopping E (calls c) then Some (Stop, c)
      else (case rs of
              [] \<Rightarrow> Some (Continue, c)
            | Received bs # rs' \<Rightarrow> do {
                (n, c') \<leftarrow> client_round E bs c;
                if n = Stop then Some (Stop, c') else client_loop E rs' c'
              }
            | _ # rs' \<Rightarrow> Some (Stop, c)))"

definition client_thread :: "'st client_env \<Rightarrow> recv list \<Rightarrow> 'st client \<Rightarrow> 'st client option" where
  "client_thread E rs c = do {
     (n, c') \<leftarrow> client_loop E rs c;
     Some (if n = Stop then c'\<lparr>connected := False\<rparr> else c')
   }"

section \<open>The timestamp thread and the signal handler\<close>

text \<open>One round: \<open>stamp\<close> is the line that \<^verbatim>\<open>strftime\<close> made.\<close>

definition timestamp_round :: "'st client_env \<Rightarrow> byte list \<Rightarrow> 'st client \<Rightarrow> 'st client option" where
  "timestamp_round E stamp c = do {
     c1 \<leftarrow> files_lock c;
     let c2 = (if open_ok E (calls c1)
               then call (c1\<lparr>store := put_file (data E) (store c1) (take (flushed E (calls c1) (length stamp)) stamp)\<rparr>)
               else call c1);
     files_unlock c2
   }"

fun timestamp_thread :: "'st client_env \<Rightarrow> byte list list \<Rightarrow> 'st client \<Rightarrow> 'st client option" where
  "timestamp_thread E stamps c =
     (if stopping E (calls c) then Some c
      else (case stamps of
              [] \<Rightarrow> Some c
            | stamp # stamps' \<Rightarrow> do {
                c' \<leftarrow> timestamp_round E stamp c;
                timestamp_thread E stamps' c'
              }))"

record flags =
  caught_sigint :: bool
  caught_sigterm :: bool

definition SIGINT :: nat where "SIGINT = 2"
definition SIGTERM :: nat where "SIGTERM = 15"

definition signal_handler :: "nat \<Rightarrow> flags \<Rightarrow> flags" where
  "signal_handler n f =
     (if n = SIGINT then f\<lparr>caught_sigint := True\<rparr>
      else if n = SIGTERM then f\<lparr>caught_sigterm := True\<rparr> else f)"

declare client_loop.simps [simp del] timestamp_thread.simps [simp del]

end
