(* ===== verification/Socket_Server.thy ===== *)
theory Socket_Server
  imports Thread_List Socket_Client
begin

text \<open>
  \<^verbatim>\<open>main\<close> of \<^verbatim>\<open>server/aesdsocket.c\<close>: the arguments, turning into a daemon, the signal
  handlers, the listening socket, the timestamp thread, the accept loop and the shutdown.
  The results of the system calls are parameters; the state is what the process holds: its
  sockets, the boxes that pass a descriptor to a new thread, the thread list and the data
  file. Log messages are not modelled.
\<close>

section \<open>State and environment\<close>

text \<open>
  One entry of the list of \<^verbatim>\<open>getaddrinfo\<close>: the socket, if it can be created, whether the
  option can be set and whether it can be bound.
\<close>

record addr_result =
  socket_fd :: "nat option"
  setsockopt_ok :: bool
  bind_ok :: bool

record main_env =
  fork1 :: int
  fork2 :: int
  sigaction_term_ok :: bool
  sigaction_int_ok :: bool
  addrinfo :: "addr_result list option"
  listen_ok :: bool
  use_char_device :: bool
  timestamp_tid :: "nat option"
  timestamp_node :: ptr

text \<open>
  \<open>boxes\<close> are the blocks of the \<^verbatim>\<open>malloc(sizeof(int))\<close> of the accept loop, with the
  descriptor they hold; \<open>handed\<close> are the client threads started and their descriptors, \<open>ended\<close> those
  of them that have ended, each after closing its descriptor;
  \<open>file_exists\<close> is whether there is a data file.
\<close>

record server =
  sockets :: "nat set"
  boxes :: "nat \<rightharpoonup> nat"
  threads :: thread_state
  handed :: "(nat \<times> nat) list"
  ended :: "nat set"
  file_exists :: bool

section \<open>Starting\<close>

definition run_as_daemon :: "string list \<Rightarrow> bool" where
  "run_as_daemon argv = list_ex (\<lambda>a. a = ''-d'') (drop 1 argv)"

text \<open>The exit status of the process that called, or \<open>None\<close> for the daemon, which goes on.\<close>

definition daemonize :: "main_env \<Rightarrow> nat option" where
  "daemonize E =
     (if fork1 E < 0 then Some 1
      else if fork1 E > 0 then Some 0
      else if fork2 E < 0 then Some 1
      else if fork2 E > 0 then Some 0
      else None)"

text \<open>The loop over the addresses: the first socket that can be bound is kept, the others closed.\<close>

fun bind_loop :: "addr_result list \<Rightarrow> server \<Rightarrow> nat option \<times> server" where
  "bind_loop [] s = (None, s)"
| "bind_loop (p # ps) s =
     (case socket_fd p of
        None \<Rightarrow> bind_loop ps s
      | Some fd \<Rightarrow>
          let s1 = s\<lparr>sockets := insert fd (sockets s)\<rparr>
          in if \<not> setsockopt_ok p then bind_loop ps (s1\<lparr>sockets := sockets s1 - {fd}\<rparr>)
             else if \<not> bind_ok p then bind_loop ps (s1\<lparr>sockets := sockets s1 - {fd}\<rparr>)
             else (Some fd, s1))"

text \<open>\<open>Inl\<close> is the status with which the process exits, \<open>Inr\<close> the listening socket.\<close>

definition server_start :: "main_env \<Rightarrow> string list \<Rightarrow> server \<Rightarrow> ((nat + nat) \<times> server) option" where
  "server_start E argv s =
     (case (if run_as_daemon argv then daemonize E else None) of
        Some status \<Rightarrow> Some (Inl status, s)
      | None \<Rightarrow>
          if \<not> sigaction_term_ok E then Some (Inl 1, s)
          else if \<not> sigaction_int_ok E then Some (Inl 1, s)
          else (case addrinfo E of
                  None \<Rightarrow> Some (Inl 1, s)
                | Some serverinfo \<Rightarrow>
                    (case bind_loop serverinfo s of
                       (None, s1) \<Rightarrow> Some (Inl 1, s1)
                     | (Some sockfd, s1) \<Rightarrow>
                         if \<not> listen_ok E then Some (Inl 1, s1\<lparr>sockets := sockets s1 - {sockfd}\<rparr>)
                         else if use_char_device E then Some (Inr sockfd, s1)
                         else (case timestamp_tid E of
                                 None \<Rightarrow> Some (Inl 1, s1\<lparr>sockets := sockets s1 - {sockfd}\<rparr>)
                               | Some tid \<Rightarrow> do {
                                   t \<leftarrow> add_node (timestamp_node E) tid (threads s1);
                                   Some (Inr sockfd, s1\<lparr>threads := t\<rparr>)
                                 }))))"

section \<open>The accept loop\<close>

text \<open>
  One round: no memory for the box; \<^verbatim>\<open>accept\<close> fails after the box \<open>a\<close> was allocated; or it
  gives the descriptor \<open>fd\<close> and the thread can (\<open>Some tid\<close>) or cannot be created.
  \<open>fast\<close>: the new thread has read and freed its box before \<^verbatim>\<open>main\<close> goes on. Between the rounds a
  client thread can come to its end (\<open>Client_Ends\<close>), at which it closes its descriptor, so that
  \<^verbatim>\<open>accept\<close> can give the same number again.
\<close>

datatype round =
    No_Memory
  | Accept_Error nat
  | Accepted nat nat "nat option" ptr bool
  | Client_Ends nat

definition box_read :: "nat \<Rightarrow> server \<Rightarrow> nat option" where
  "box_read a s = boxes s a"

definition box_free :: "nat \<Rightarrow> server \<Rightarrow> server option" where
  "box_free a s = (if boxes s a = None then None else Some (s\<lparr>boxes := (boxes s)(a := None)\<rparr>))"

text \<open>The end of a client thread: \<^verbatim>\<open>close(client_fd)\<close>.\<close>

definition client_ends :: "nat \<Rightarrow> server \<Rightarrow> server option" where
  "client_ends tid s =
     (if tid \<in> ended s then None
      else case map_of (handed s) tid of
             None \<Rightarrow> None
           | Some client_fd \<Rightarrow> Some (s\<lparr>sockets := sockets s - {client_fd}, ended := insert tid (ended s)\<rparr>))"

text \<open>
  The thread's \<^verbatim>\<open>*(int *)arg\<close> and \<^verbatim>\<open>free(arg)\<close> come before or after \<^verbatim>\<open>main\<close>'s last use of
  the box, the descriptor in its last log message.
\<close>

definition accept_round :: "round \<Rightarrow> server \<Rightarrow> server option" where
  "accept_round r s =
     (case r of
        No_Memory \<Rightarrow> Some s
      | Accept_Error a \<Rightarrow> box_free a (s\<lparr>boxes := (boxes s)(a \<mapsto> 0)\<rparr>)
      | Accepted a fd created node fast \<Rightarrow>
          let s1 = s\<lparr>boxes := (boxes s)(a \<mapsto> fd), sockets := insert fd (sockets s)\<rparr>
          in (case created of
                None \<Rightarrow> do {
                  fd' \<leftarrow> box_read a s1;
                  box_free a (s1\<lparr>sockets := sockets s1 - {fd'}\<rparr>)
                }
              | Some tid \<Rightarrow> do {
                  fd' \<leftarrow> box_read a s1;
                  let s2 = s1\<lparr>handed := handed s1 @ [(tid, fd')]\<rparr>;
                  s3 \<leftarrow> (if fast then box_free a s2 else Some s2);
                  t \<leftarrow> add_node node tid (threads s3);
                  let s4 = s3\<lparr>threads := t\<rparr>;
                  box_read a s4;
                  if fast then Some s4 else box_free a s4
                })
      | Client_Ends tid \<Rightarrow> client_ends tid s)"


section \<open>Shutdown\<close>




section \<open>The listening socket\<close>

definition usable :: "addr_result \<Rightarrow> bool" where
  "usable p \<longleftrightarrow> socket_fd p \<noteq> None \<and> setsockopt_ok p \<and> bind_ok p"

lemma bind_loop_correct:
  assumes "\<forall>p \<in> set ps. \<forall>fd. socket_fd p = Some fd \<longrightarrow> fd \<notin> sockets s"
  shows "bind_loop ps s =
    (case find usable ps of None \<Rightarrow> (None, s)
     | Some p \<Rightarrow> (socket_fd p, s\<lparr>sockets := insert (the (socket_fd p)) (sockets s)\<rparr>))"
  using assms
proof (induction ps)
  case (Cons p ps)
  show ?case
  proof (cases "socket_fd p")
    case None
    with Cons show ?thesis by (simp add: usable_def)
  next
    case (Some fd)
    then have "insert fd (sockets s) - {fd} = sockets s" using Cons.prems by simp
    with Cons Some show ?thesis by (simp add: usable_def Let_def)
  qed
qed simp

section \<open>What is left after the run\<close>







text \<open>The descriptors of the client threads \<open>h\<close> that are not among the ended \<open>S\<close>.\<close>

definition live_fds :: "(nat \<times> nat) list \<Rightarrow> nat set \<Rightarrow> nat set" where
  "live_fds h S = {fd. \<exists>tid. (tid, fd) \<in> set h \<and> tid \<notin> S}"


lemma live_fds_simps [simp]:
  "live_fds (h @ [(tid, fd)]) S = (if tid \<in> S then live_fds h S else insert fd (live_fds h S))"
  "live_fds [] S = {}"
  by (auto simp: live_fds_def)






lemma server_start_correct:
  assumes "thread_inv [] (threads s)"
    and "\<forall>ps p fd. addrinfo E = Some ps \<longrightarrow> p \<in> set ps \<longrightarrow> socket_fd p = Some fd \<longrightarrow> fd \<notin> sockets s"
  shows "\<exists>r s'. server_start E argv s = Some (r, s') \<and>
    (case r of
       Inl status \<Rightarrow> s' = s \<and> (status = 0 \<longrightarrow> run_as_daemon argv \<and> (fork1 E > 0 \<or> fork2 E > 0))
     | Inr fd \<Rightarrow> (\<exists>ps p. addrinfo E = Some ps \<and> find usable ps = Some p \<and> socket_fd p = Some fd) \<and>
         sockets s' = insert fd (sockets s) \<and>
         (if use_char_device E then threads s' = threads s
          else \<exists>tid. timestamp_tid E = Some tid \<and>
            thread_inv (case timestamp_node E of None \<Rightarrow> [] | Some n \<Rightarrow> [(n, tid)]) (threads s')))"
proof (cases "(if run_as_daemon argv then daemonize E else None) \<noteq> None \<or> \<not> sigaction_term_ok E \<or>
    \<not> sigaction_int_ok E \<or> addrinfo E = None")
  case True
  then have "\<exists>status. server_start E argv s = Some (Inl status, s) \<and>
      (status = 0 \<longrightarrow> run_as_daemon argv \<and> (fork1 E > 0 \<or> fork2 E > 0))"
    by (cases "run_as_daemon argv") (auto simp: server_start_def daemonize_def split: option.splits if_split_asm)
  then obtain status where "server_start E argv s = Some (Inl status, s)"
    "status = 0 \<longrightarrow> run_as_daemon argv \<and> (fork1 E > 0 \<or> fork2 E > 0)" by blast
  then show ?thesis by (intro exI [of _ "Inl status"] exI [of _ s]) simp
next
  case False
  then obtain ps where ps: "addrinfo E = Some ps" by auto
  have start: "server_start E argv s = (case bind_loop ps s of
      (None, s1) \<Rightarrow> Some (Inl 1, s1)
    | (Some sockfd, s1) \<Rightarrow>
        if \<not> listen_ok E then Some (Inl 1, s1\<lparr>sockets := sockets s1 - {sockfd}\<rparr>)
        else if use_char_device E then Some (Inr sockfd, s1)
        else (case timestamp_tid E of
                None \<Rightarrow> Some (Inl 1, s1\<lparr>sockets := sockets s1 - {sockfd}\<rparr>)
              | Some tid \<Rightarrow> do {
                  t \<leftarrow> add_node (timestamp_node E) tid (threads s1);
                  Some (Inr sockfd, s1\<lparr>threads := t\<rparr>)
                }))"
    using False ps by (simp add: server_start_def)
  have "\<forall>p \<in> set ps. \<forall>fd. socket_fd p = Some fd \<longrightarrow> fd \<notin> sockets s" using assms(2) ps by blast
  note bind = bind_loop_correct [OF this]
  show ?thesis
  proof (cases "find usable ps")
    case None
    then have "server_start E argv s = Some (Inl 1, s)" using start bind by simp
    then show ?thesis by (intro exI [of _ "Inl 1"] exI [of _ s]) simp
  next
    case (Some p)
    then have "usable p" "p \<in> set ps" by (auto simp: find_Some_iff)
    then obtain fd where fd: "socket_fd p = Some fd" "fd \<notin> sockets s"
      using assms(2) ps by (auto simp: usable_def)
    then have gone: "insert fd (sockets s) - {fd} = sockets s" by simp
    have "nodes (threads s) = Map.empty" using assms(1) by (simp add: thread_inv_def)
    then have add: "\<exists>t. add_node (timestamp_node E) tid (threads s) = Some t \<and>
        thread_inv (case timestamp_node E of None \<Rightarrow> [] | Some n \<Rightarrow> [(n, tid)]) t" for tid
      using add_node_correct [OF assms(1), of "timestamp_node E" tid] by auto
    show ?thesis
    proof (cases "timestamp_tid E")
      case None
      then show ?thesis using start bind Some fd ps gone by simp
    next
      case (Some tid)
      from add [of tid] obtain t where "add_node (timestamp_node E) tid (threads s) = Some t"
        "thread_inv (case timestamp_node E of None \<Rightarrow> [] | Some n \<Rightarrow> [(n, tid)]) t" by blast
      with Some show ?thesis using start bind \<open>find usable ps = Some p\<close> fd ps gone by simp
    qed
  qed
qed


text \<open>What starting leaves alone.\<close>

definition same_books :: "server \<Rightarrow> server \<Rightarrow> bool" where
  "same_books s s' \<longleftrightarrow> boxes s' = boxes s \<and> handed s' = handed s \<and> ended s' = ended s \<and> file_exists s' = file_exists s"

lemma same_books_simps [simp]:
  "same_books s s" "same_books s (s'\<lparr>sockets := S\<rparr>) = same_books s s'"
  "same_books s (s'\<lparr>threads := t\<rparr>) = same_books s s'" "same_books (s\<lparr>sockets := S\<rparr>) s' = same_books s s'"
  by (simp_all add: same_books_def)



section \<open>Properties\<close>

definition idle_server :: server where
  "idle_server = \<lparr>sockets = {0, 1, 2}, boxes = Map.empty, threads = no_threads, handed = [], ended = {}, file_exists = True\<rparr>"

definition demo_main :: main_env where
  "demo_main = \<lparr>fork1 = 0, fork2 = 0, sigaction_term_ok = True, sigaction_int_ok = True,
     addrinfo = Some [\<lparr>socket_fd = Some 3, setsockopt_ok = True, bind_ok = False\<rparr>,
                      \<lparr>socket_fd = Some 4, setsockopt_ok = True, bind_ok = True\<rparr>],
     listen_ok = True, use_char_device = False, timestamp_tid = Some 100, timestamp_node = Some 1\<rparr>"

text \<open>
  C30: When the server cannot start it exits with a non-zero status (zero only for the
  parents of the daemon) and no socket is left open; when it starts, exactly one new socket
  is open, that of the first address for which the socket could be created, configured and
  bound, and the timestamp thread is in the list of threads (unless the device is used).
\<close>

theorem server_start_outcomes:
  assumes "thread_inv [] (threads s)"
    and "\<forall>ps p fd. addrinfo E = Some ps \<longrightarrow> p \<in> set ps \<longrightarrow> socket_fd p = Some fd \<longrightarrow> fd \<notin> sockets s"
  shows "\<exists>r s'. server_start E argv s = Some (r, s') \<and>
    (case r of
       Inl status \<Rightarrow> s' = s \<and> (status = 0 \<longrightarrow> run_as_daemon argv \<and> (fork1 E > 0 \<or> fork2 E > 0))
     | Inr fd \<Rightarrow> (\<exists>ps p. addrinfo E = Some ps \<and> find usable ps = Some p \<and> socket_fd p = Some fd) \<and>
         sockets s' = insert fd (sockets s) \<and>
         (if use_char_device E then threads s' = threads s
          else \<exists>tid. timestamp_tid E = Some tid \<and>
            thread_inv (case timestamp_node E of None \<Rightarrow> [] | Some n \<Rightarrow> [(n, tid)]) (threads s')))"
  by (rule server_start_correct [OF assms])

theorem server_start_outcomes_witness:
  "\<exists>s'. server_start demo_main [''aesdsocket''] idle_server = Some (Inr 4, s') \<and> sockets s' = {0, 1, 2, 4} \<and>
    thread_inv [(1, 100)] (threads s')"
proof -
  have "\<exists>r s'. server_start demo_main [''aesdsocket''] idle_server = Some (r, s') \<and>
      (case r of Inl status \<Rightarrow> s' = idle_server \<and>
           (status = 0 \<longrightarrow> run_as_daemon [''aesdsocket''] \<and> (fork1 demo_main > 0 \<or> fork2 demo_main > 0))
       | Inr fd \<Rightarrow> (\<exists>ps p. addrinfo demo_main = Some ps \<and> find usable ps = Some p \<and> socket_fd p = Some fd) \<and>
         sockets s' = insert fd (sockets idle_server) \<and>
         (if use_char_device demo_main then threads s' = threads idle_server
          else \<exists>tid. timestamp_tid demo_main = Some tid \<and>
            thread_inv (case timestamp_node demo_main of None \<Rightarrow> [] | Some n \<Rightarrow> [(n, tid)]) (threads s')))"
    by (rule server_start_outcomes) (auto simp: idle_server_def no_threads_inv demo_main_def)
  moreover have "\<exists>s'. server_start demo_main [''aesdsocket''] idle_server = Some (Inr 4, s')"
    by (simp add: server_start_def demo_main_def run_as_daemon_def idle_server_def no_threads_def add_node_def
        threads_lock_def threads_unlock_def Let_def)
  ultimately show ?thesis by (auto simp: demo_main_def idle_server_def)
qed





text \<open>
  A thread that reads and frees its box before \<^verbatim>\<open>main\<close> logs the descriptor makes that
  log message a read of freed memory: the server then has no defined outcome.
\<close>

theorem fast_thread_use_after_free:
  "accept_round (Accepted a fd (Some tid) node True) s = None"
  by (simp add: accept_round_def box_read_def box_free_def Let_def split: option.splits)

end
