(* ===== verification/Queue_Memory.thy ===== *)
theory Queue_Memory
  imports Aesd_Prelude
begin

text \<open>
  The memory on which the macros of \<^verbatim>\<open>queue.h\<close> work, the lists that queue heads represent
  in it, and the interface the four kinds of queue share.

  A head of a queue and an entry of an element have the same layout: a pointer to an element
  (\<^verbatim>\<open>slh_first\<close>, \<^verbatim>\<open>stqe_next\<close>, \<dots>) and, in the kinds that have one, the address of such a pointer
  (\<^verbatim>\<open>stqh_last\<close>, \<^verbatim>\<open>le_prev\<close>, \<^verbatim>\<open>tqh_last\<close>, \<^verbatim>\<open>tqe_prev\<close>). A location is a head or the entry of
  an element, and the address of its first field is the location itself, which is what lets
  \<^verbatim>\<open>TAILQ_PREV\<close> read an entry as a head.
\<close>

section \<open>Locations and memory\<close>

datatype loc = Head nat | Elem nat

text \<open>\<open>cell\<close> holds the first fields, and is defined exactly on the allocated locations; \<open>addr\<close> holds
  the second fields, undefined while they are uninitialised.\<close>

record qmem =
  cell :: "loc \<rightharpoonup> ptr"
  addr :: "loc \<rightharpoonup> loc"

definition get_cell :: "loc \<Rightarrow> qmem \<Rightarrow> ptr option" where
  "get_cell l m = cell m l"

definition set_cell :: "loc \<Rightarrow> ptr \<Rightarrow> qmem \<Rightarrow> qmem option" where
  "set_cell l p m = (if cell m l = None then None else Some (m\<lparr>cell := (cell m)(l \<mapsto> p)\<rparr>))"

definition get_addr :: "loc \<Rightarrow> qmem \<Rightarrow> loc option" where
  "get_addr l m = (if cell m l = None then None else addr m l)"

definition set_addr :: "loc \<Rightarrow> loc \<Rightarrow> qmem \<Rightarrow> qmem option" where
  "set_addr l a m = (if cell m l = None then None else Some (m\<lparr>addr := (addr m)(l \<mapsto> a)\<rparr>))"

text \<open>The entry of the element a pointer points to; the null pointer has none.\<close>

definition entry :: "ptr \<Rightarrow> loc option" where
  "entry p = map_option Elem p"

text \<open>\<^verbatim>\<open>__containerof\<close>: the element whose entry a location is; a head is in no element.\<close>

fun containerof :: "loc \<Rightarrow> ptr option" where
  "containerof (Elem e) = Some (Some e)"
| "containerof (Head h) = None"

definition free_elem :: "nat \<Rightarrow> qmem \<Rightarrow> qmem option" where
  "free_elem e m = (if cell m (Elem e) = None then None
     else Some (m\<lparr>cell := (cell m)(Elem e := None), addr := (addr m)(Elem e := None)\<rparr>))"

lemma entry_simps [simp]: "entry (Some e) = Some (Elem e)" "entry None = None"
  by (simp_all add: entry_def)

lemma Elem_image [simp]: "Elem e \<in> Elem ` A \<longleftrightarrow> e \<in> A" "Head h \<notin> Elem ` A"
  by auto

section \<open>Loops\<close>

text \<open>\<^verbatim>\<open>while (NEXT(curelm) != elm) curelm = NEXT(curelm);\<close>\<close>

partial_function (option) seek_prev :: "(ptr \<Rightarrow> qmem \<Rightarrow> ptr option) \<Rightarrow> ptr \<Rightarrow> ptr \<Rightarrow> qmem \<Rightarrow> ptr option" where
  "seek_prev succ elm curelm m = do {
     n \<leftarrow> succ curelm m;
     if n = elm then Some curelm else seek_prev succ elm n m
   }"

text \<open>\<^verbatim>\<open>for (; var; var = NEXT(var)) body\<close>, where the body works on the memory and on variables
  of its own, and the variant that reads the next element before it runs the body.\<close>

type_synonym 's body = "nat \<Rightarrow> qmem \<times> 's \<Rightarrow> (qmem \<times> 's) option"

partial_function (option) foreach ::
    "(ptr \<Rightarrow> qmem \<Rightarrow> ptr option) \<Rightarrow> 's body \<Rightarrow> ptr \<Rightarrow> qmem \<times> 's \<Rightarrow> (qmem \<times> 's) option" where
  "foreach succ body var s =
     (case var of
        None \<Rightarrow> Some s
      | Some e \<Rightarrow> do {
          s1 \<leftarrow> body e s;
          var1 \<leftarrow> succ var (fst s1);
          foreach succ body var1 s1
        })"

partial_function (option) foreach_safe ::
    "(ptr \<Rightarrow> qmem \<Rightarrow> ptr option) \<Rightarrow> 's body \<Rightarrow> ptr \<Rightarrow> qmem \<times> 's \<Rightarrow> (qmem \<times> 's) option" where
  "foreach_safe succ body var s =
     (case var of
        None \<Rightarrow> Some s
      | Some e \<Rightarrow> do {
          tvar \<leftarrow> succ var (fst s);
          s1 \<leftarrow> body e s;
          foreach_safe succ body tvar s1
        })"

declare seek_prev.simps [code] foreach.simps [code] foreach_safe.simps [code]

section \<open>Updates\<close>

text \<open>Writes to allocated locations as total updates, on which the simplifier works.\<close>

definition alloc :: "qmem \<Rightarrow> loc \<Rightarrow> bool" where
  "alloc m l \<longleftrightarrow> cell m l \<noteq> None"

definition upd_cell :: "loc \<Rightarrow> ptr \<Rightarrow> qmem \<Rightarrow> qmem" where
  "upd_cell l p m = m\<lparr>cell := (cell m)(l \<mapsto> p)\<rparr>"

definition upd_addr :: "loc \<Rightarrow> loc \<Rightarrow> qmem \<Rightarrow> qmem" where
  "upd_addr l a m = m\<lparr>addr := (addr m)(l \<mapsto> a)\<rparr>"

lemma set_cell_alloc [simp]: "alloc m l \<Longrightarrow> set_cell l p m = Some (upd_cell l p m)"
  by (simp add: alloc_def set_cell_def upd_cell_def)

lemma set_addr_alloc [simp]: "alloc m l \<Longrightarrow> set_addr l a m = Some (upd_addr l a m)"
  by (simp add: alloc_def set_addr_def upd_addr_def)

lemma get_addr_alloc [simp]: "alloc m l \<Longrightarrow> get_addr l m = addr m l"
  by (auto simp: alloc_def get_addr_def)

lemma get_cell_eq [simp]: "get_cell l m = cell m l"
  by (simp add: get_cell_def)

lemma upd_simps [simp]:
  "cell (upd_cell l p m) = (cell m)(l \<mapsto> p)" "addr (upd_cell l p m) = addr m"
  "cell (upd_addr l a m) = cell m" "addr (upd_addr l a m) = (addr m)(l \<mapsto> a)"
  by (simp_all add: upd_cell_def upd_addr_def)

lemma alloc_upd [simp]:
  "alloc (upd_cell l p m) l' \<longleftrightarrow> l' = l \<or> alloc m l'" "alloc (upd_addr l a m) l' = alloc m l'"
  by (auto simp: alloc_def)

lemma alloc_cell [simp]: "cell m l = Some p \<Longrightarrow> alloc m l"
  by (simp add: alloc_def)

section \<open>Lists in memory\<close>

text \<open>\<open>seg m l xs p\<close>: following the first fields from \<open>l\<close> one visits the elements \<open>xs\<close>, and the
  last of the fields holds \<open>p\<close>; \<open>tail_cell l xs\<close> is the location of that field, and \<open>backs\<close> says
  that the second field of each element is the location before it.\<close>

fun seg :: "qmem \<Rightarrow> loc \<Rightarrow> nat list \<Rightarrow> ptr \<Rightarrow> bool" where
  "seg m l [] p \<longleftrightarrow> cell m l = Some p"
| "seg m l (x # xs) p \<longleftrightarrow> cell m l = Some (Some x) \<and> seg m (Elem x) xs p"

definition tail_cell :: "loc \<Rightarrow> nat list \<Rightarrow> loc" where
  "tail_cell l xs = (if xs = [] then l else Elem (last xs))"

fun backs :: "qmem \<Rightarrow> loc \<Rightarrow> nat list \<Rightarrow> bool" where
  "backs m l [] \<longleftrightarrow> True"
| "backs m l (x # xs) \<longleftrightarrow> addr m (Elem x) = Some l \<and> backs m (Elem x) xs"

lemma tail_cell_simps [simp]:
  "tail_cell l [] = l" "tail_cell l (x # xs) = tail_cell (Elem x) xs" "tail_cell l (xs @ [x]) = Elem x"
  "tail_cell l (xs @ ys) = tail_cell (tail_cell l xs) ys"
  by (simp_all add: tail_cell_def)

lemma tail_cell_in: "tail_cell l xs = l \<or> tail_cell l xs \<in> Elem ` set xs"
  by (simp add: tail_cell_def)

lemma seg_append [simp]:
  "seg m l (xs @ y # ys) p \<longleftrightarrow> seg m l xs (Some y) \<and> seg m (Elem y) ys p"
  by (induction xs arbitrary: l) auto

lemma seg_tail_cell: "seg m l xs p \<Longrightarrow> cell m (tail_cell l xs) = Some p"
  by (induction xs arbitrary: l) auto

lemma backs_append [simp]:
  "backs m l (xs @ ys) \<longleftrightarrow> backs m l xs \<and> backs m (tail_cell l xs) ys"
  by (induction xs arbitrary: l) auto

lemma seg_alloc: "seg m l xs p \<Longrightarrow> alloc m l" "seg m l xs p \<Longrightarrow> x \<in> set xs \<Longrightarrow> alloc m (Elem x)"
proof -
  show "seg m l xs p \<Longrightarrow> alloc m l" by (cases xs) auto
  show "seg m l xs p \<Longrightarrow> x \<in> set xs \<Longrightarrow> alloc m (Elem x)"
  proof (induction xs arbitrary: l)
    case (Cons y ys)
    then show ?case by (cases ys) auto
  qed simp
qed

lemma seg_first_alloc: "seg m (Elem x) xs p \<Longrightarrow> alloc m (Elem x)"
  by (rule seg_alloc)

lemma qmem_eqI: "cell m = cell m' \<Longrightarrow> addr m = addr m' \<Longrightarrow> m = (m' :: qmem)"
  by simp

lemma seg_cong:
  "(\<And>l'. l' = l \<or> l' \<in> Elem ` set xs \<Longrightarrow> cell m' l' = cell m l') \<Longrightarrow> seg m' l xs p = seg m l xs p"
  by (induction xs arbitrary: l) auto

lemma backs_cong:
  "(\<And>l'. l' \<in> Elem ` set xs \<Longrightarrow> addr m' l' = addr m l') \<Longrightarrow> backs m' l xs = backs m l xs"
  by (induction xs arbitrary: l) auto

lemma seg_upd [simp]:
  "l' \<noteq> l \<Longrightarrow> l' \<notin> Elem ` set xs \<Longrightarrow> seg (upd_cell l' q m) l xs p = seg m l xs p"
  "seg (upd_addr l' a m) l xs p = seg m l xs p"
  by (auto intro!: seg_cong)

lemma backs_upd [simp]:
  "l' \<notin> Elem ` set xs \<Longrightarrow> backs (upd_addr l' a m) l xs = backs m l xs"
  "backs (upd_cell l' q m) l xs = backs m l xs"
  by (auto intro!: backs_cong)

text \<open>Writing the last field of a segment redirects its end, and nothing else.\<close>

lemma seg_upd_tail:
  "seg m l xs p \<Longrightarrow> distinct xs \<Longrightarrow> l \<notin> Elem ` set xs \<Longrightarrow> seg (upd_cell (tail_cell l xs) q m) l xs q"
proof (induction xs arbitrary: l)
  case (Cons x xs)
  have "tail_cell (Elem x) xs \<noteq> l" using tail_cell_in [of "Elem x" xs] Cons.prems(3) by auto
  with Cons show ?case by auto
qed simp

lemma seek_prev_seg:
  assumes succ: "\<And>c. succ (Some c) m = cell m (Elem c)"
  shows "seg m (Elem c) xs p \<Longrightarrow> p \<notin> Some ` set xs \<Longrightarrow>
    seek_prev succ p (Some c) m = Some (Some (last (c # xs)))"
proof (induction xs arbitrary: c)
  case Nil
  then show ?case by (simp add: seek_prev.simps [of succ p "Some c"] succ)
next
  case (Cons x xs)
  then have "seek_prev succ p (Some x) m = Some (Some (last (x # xs)))" by simp
  with Cons.prems show ?case by (auto simp: seek_prev.simps [of succ p "Some c"] succ)
qed

text \<open>From the field that starts a segment the loop reaches the last element of the segment.\<close>

lemma seek_from:
  assumes succ: "\<And>c. succ (Some c) m = cell m (Elem c)"
    and seg: "seg m l (xs @ [a]) p" and p: "p \<notin> Some ` set (xs @ [a])"
  obtains c where "cell m l = Some (Some c)" "Some c \<noteq> p" "seek_prev succ p (Some c) m = Some (Some a)"
proof (cases xs)
  case Nil
  with seg p show ?thesis by (intro that [of a]) (auto simp: seek_prev.simps [of succ p "Some a"] succ)
next
  case (Cons c cs)
  with seg p have "seek_prev succ p (Some c) m = Some (Some (last (c # cs @ [a])))"
    by (intro seek_prev_seg succ) auto
  with Cons seg p show ?thesis by (intro that [of c]) auto
qed

text \<open>A traversal that collects what it visits, in either form of the loop.\<close>

definition visit_body :: "nat list body" where
  "visit_body e s = Some (fst s, snd s @ [e])"

lemma visit_body_pair [simp]: "visit_body e (m, vs) = Some (m, vs @ [e])"
  by (simp add: visit_body_def)

lemma foreach_visit:
  assumes succ: "\<And>c. succ (Some c) m = cell m (Elem c)"
  shows "seg m l xs NULL \<Longrightarrow> cell m l = Some p \<Longrightarrow> foreach succ visit_body p (m, vs) = Some (m, vs @ xs)"
proof (induction xs arbitrary: l p vs)
  case Nil
  then show ?case by (simp add: foreach.simps [of succ visit_body NULL])
next
  case (Cons x xs)
  obtain n where n: "cell m (Elem x) = Some n" using Cons.prems(1) by (cases xs) auto
  with Cons show ?case by (auto simp: foreach.simps [of succ visit_body "Some x"] succ)
qed

lemma foreach_safe_visit:
  assumes succ: "\<And>c. succ (Some c) m = cell m (Elem c)"
  shows "seg m l xs NULL \<Longrightarrow> cell m l = Some p \<Longrightarrow> foreach_safe succ visit_body p (m, vs) = Some (m, vs @ xs)"
proof (induction xs arbitrary: l p vs)
  case Nil
  then show ?case by (simp add: foreach_safe.simps [of succ visit_body NULL])
next
  case (Cons x xs)
  obtain n where n: "cell m (Elem x) = Some n" using Cons.prems(1) by (cases xs) auto
  with Cons show ?case by (auto simp: foreach_safe.simps [of succ visit_body "Some x"] succ)
qed

end
