(* ===== verification/Queue_Interface.thy ===== *)
theory Queue_Interface
  imports Queue_Memory
begin

text \<open>
  What the four kinds of queue of \<^verbatim>\<open>queue.h\<close> have in common: \<^verbatim>\<open>INIT\<close>, \<^verbatim>\<open>INSERT_HEAD\<close>,
  \<^verbatim>\<open>INSERT_AFTER\<close>, \<^verbatim>\<open>REMOVE\<close>, \<^verbatim>\<open>CONCAT\<close>, \<^verbatim>\<open>SWAP\<close> and \<^verbatim>\<open>FOREACH\<close>. The locale \<open>linked_queue\<close> states the laws
  of these operations, each with the locations it may change, and shows that any
  program of such operations on any number of queues does to the memory what it does to
  mathematical lists. Each kind of queue interprets the locale in its own theory.
\<close>

section \<open>Changes and their extent\<close>

definition frame :: "loc set \<Rightarrow> qmem \<Rightarrow> qmem \<Rightarrow> bool" where
  "frame A m m' \<longleftrightarrow> (\<forall>l. alloc m' l = alloc m l) \<and>
     (\<forall>l. l \<notin> A \<longrightarrow> cell m' l = cell m l \<and> addr m' l = addr m l)"

definition agree :: "loc set \<Rightarrow> qmem \<Rightarrow> qmem \<Rightarrow> bool" where
  "agree A m m' \<longleftrightarrow> (\<forall>l \<in> A. cell m' l = cell m l \<and> addr m' l = addr m l)"

definition cells :: "nat \<Rightarrow> nat list \<Rightarrow> loc set" where
  "cells h xs = insert (Head h) (Elem ` set xs)"

text \<open>\<open>yields r A m P\<close>: the operation with the result \<open>r\<close> is defined, changes the memory \<open>m\<close> only
  in \<open>A\<close> and establishes \<open>P\<close>.\<close>

definition yields :: "qmem option \<Rightarrow> loc set \<Rightarrow> qmem \<Rightarrow> (qmem \<Rightarrow> bool) \<Rightarrow> bool" where
  "yields r A m P \<longleftrightarrow> (\<exists>m'. r = Some m' \<and> frame A m m' \<and> P m')"

lemma yieldsE:
  assumes "yields r A m P"
  obtains m' where "r = Some m'" "frame A m m'" "P m'"
  using assms by (auto simp: yields_def)

lemma frame_refl [simp]: "frame A m m"
  by (simp add: frame_def)

lemma frame_upd [simp]:
  "l \<in> A \<Longrightarrow> alloc m' l \<Longrightarrow> frame A m (upd_cell l p m') \<longleftrightarrow> frame A m m'"
  "l \<in> A \<Longrightarrow> frame A m (upd_addr l a m') \<longleftrightarrow> frame A m m'"
  by (auto simp: frame_def alloc_def)

lemma frame_agree: "frame A m m' \<Longrightarrow> A \<inter> B = {} \<Longrightarrow> agree B m m'"
  by (auto simp: frame_def agree_def)

lemma agree_seg: "agree (cells h xs) m m' \<Longrightarrow> seg m' (Head h) xs p = seg m (Head h) xs p"
  by (rule seg_cong) (auto simp: agree_def cells_def)

lemma agree_backs: "agree (cells h xs) m m' \<Longrightarrow> backs m' l xs = backs m l xs"
  by (rule backs_cong) (auto simp: agree_def cells_def)

lemma agree_head: "agree (cells h xs) m m' \<Longrightarrow> addr m' (Head h) = addr m (Head h)"
  by (auto simp: agree_def cells_def)

lemma frame_alloc: "frame A m m' \<Longrightarrow> alloc m' l = alloc m l"
  by (simp add: frame_def)

section \<open>Programs of queue operations\<close>

record queue_api =
  init_op :: "nat \<Rightarrow> qmem \<Rightarrow> qmem option"
  insert_head_op :: "nat \<Rightarrow> ptr \<Rightarrow> qmem \<Rightarrow> qmem option"
  insert_after_op :: "nat \<Rightarrow> ptr \<Rightarrow> ptr \<Rightarrow> qmem \<Rightarrow> qmem option"
  remove_op :: "nat \<Rightarrow> ptr \<Rightarrow> qmem \<Rightarrow> qmem option"
  concat_op :: "nat \<Rightarrow> nat \<Rightarrow> qmem \<Rightarrow> qmem option"
  swap_op :: "nat \<Rightarrow> nat \<Rightarrow> qmem \<Rightarrow> qmem option"
  visit_op :: "nat \<Rightarrow> qmem \<Rightarrow> nat list option"

datatype queue_cmd =
    Init nat | Insert_head nat nat | Insert_after nat nat nat | Remove nat nat
  | Concat nat nat | Swap nat nat

fun exec_cmd :: "queue_api \<Rightarrow> queue_cmd \<Rightarrow> qmem \<Rightarrow> qmem option" where
  "exec_cmd q (Init h) m = init_op q h m"
| "exec_cmd q (Insert_head h e) m = insert_head_op q h (Some e) m"
| "exec_cmd q (Insert_after h a e) m = insert_after_op q h (Some a) (Some e) m"
| "exec_cmd q (Remove h e) m = remove_op q h (Some e) m"
| "exec_cmd q (Concat h1 h2) m = concat_op q h1 h2 m"
| "exec_cmd q (Swap h1 h2) m = swap_op q h1 h2 m"

fun exec_cmds :: "queue_api \<Rightarrow> queue_cmd list \<Rightarrow> qmem \<Rightarrow> qmem option" where
  "exec_cmds q [] m = Some m"
| "exec_cmds q (c # cs) m = do { m1 \<leftarrow> exec_cmd q c m; exec_cmds q cs m1 }"

text \<open>The same programs on lists, one for each head; \<open>hs\<close> are the heads and \<open>es\<close> the elements in
  use. A program is undefined when it inserts an element that is in a queue already, or names
  one that is not in the queue.\<close>

fun insert_behind :: "nat \<Rightarrow> nat \<Rightarrow> nat list \<Rightarrow> nat list" where
  "insert_behind a e [] = []"
| "insert_behind a e (x # xs) = (if x = a then x # e # xs else x # insert_behind a e xs)"

definition unused :: "nat list \<Rightarrow> nat list \<Rightarrow> (nat \<Rightarrow> nat list) \<Rightarrow> nat \<Rightarrow> bool" where
  "unused hs es s e \<longleftrightarrow> e \<in> set es \<and> (\<forall>h \<in> set hs. e \<notin> set (s h))"

fun cmd_spec :: "nat list \<Rightarrow> nat list \<Rightarrow> queue_cmd \<Rightarrow> (nat \<Rightarrow> nat list) \<Rightarrow> (nat \<Rightarrow> nat list) option" where
  "cmd_spec hs es (Init h) s = (if h \<in> set hs then Some (s(h := [])) else None)"
| "cmd_spec hs es (Insert_head h e) s =
     (if h \<in> set hs \<and> unused hs es s e then Some (s(h := e # s h)) else None)"
| "cmd_spec hs es (Insert_after h a e) s =
     (if h \<in> set hs \<and> a \<in> set (s h) \<and> unused hs es s e
      then Some (s(h := insert_behind a e (s h))) else None)"
| "cmd_spec hs es (Remove h e) s =
     (if h \<in> set hs \<and> e \<in> set (s h) then Some (s(h := remove1 e (s h))) else None)"
| "cmd_spec hs es (Concat h1 h2) s =
     (if h1 \<in> set hs \<and> h2 \<in> set hs \<and> h1 \<noteq> h2 then Some (s(h1 := s h1 @ s h2, h2 := [])) else None)"
| "cmd_spec hs es (Swap h1 h2) s =
     (if h1 \<in> set hs \<and> h2 \<in> set hs \<and> h1 \<noteq> h2 then Some (s(h1 := s h2, h2 := s h1)) else None)"

fun cmds_spec ::
    "nat list \<Rightarrow> nat list \<Rightarrow> queue_cmd list \<Rightarrow> (nat \<Rightarrow> nat list) \<Rightarrow> (nat \<Rightarrow> nat list) option" where
  "cmds_spec hs es [] s = Some s"
| "cmds_spec hs es (c # cs) s = do { s1 \<leftarrow> cmd_spec hs es c s; cmds_spec hs es cs s1 }"

lemma insert_behind_split: "a \<notin> set xs \<Longrightarrow> insert_behind a e (xs @ a # ys) = xs @ a # e # ys"
  by (induction xs) auto

text \<open>A memory with the given heads and elements, none of them initialised.\<close>

fun blank_cell :: "nat list \<Rightarrow> nat list \<Rightarrow> loc \<Rightarrow> ptr option" where
  "blank_cell hs es (Head h) = (if h \<in> set hs then Some NULL else None)"
| "blank_cell hs es (Elem e) = (if e \<in> set es then Some NULL else None)"

definition blank :: "nat list \<Rightarrow> nat list \<Rightarrow> qmem" where
  "blank hs es = \<lparr>cell = blank_cell hs es, addr = (\<lambda>l. None)\<rparr>"

lemma alloc_blank [simp]:
  "alloc (blank hs es) (Head h) \<longleftrightarrow> h \<in> set hs" "alloc (blank hs es) (Elem e) \<longleftrightarrow> e \<in> set es"
  by (simp_all add: alloc_def blank_def)

section \<open>The interface\<close>

locale linked_queue =
  fixes q :: queue_api and rep :: "qmem \<Rightarrow> nat \<Rightarrow> nat list \<Rightarrow> bool"
  assumes rep_distinct: "rep m h xs \<Longrightarrow> distinct xs"
    and rep_agree: "rep m h xs \<Longrightarrow> agree (cells h xs) m m' \<Longrightarrow> rep m' h xs"
    and rep_alloc: "rep m h xs \<Longrightarrow> alloc m (Head h)"
    and init_law: "alloc m (Head h) \<Longrightarrow> yields (init_op q h m) {Head h} m (\<lambda>m'. rep m' h [])"
    and insert_head_law:
      "rep m h xs \<Longrightarrow> alloc m (Elem e) \<Longrightarrow> e \<notin> set xs \<Longrightarrow>
       yields (insert_head_op q h (Some e) m) (cells h (e # xs)) m (\<lambda>m'. rep m' h (e # xs))"
    and insert_after_law:
      "rep m h (xs @ a # ys) \<Longrightarrow> alloc m (Elem e) \<Longrightarrow> e \<notin> set (xs @ a # ys) \<Longrightarrow>
       yields (insert_after_op q h (Some a) (Some e) m) (cells h (e # xs @ a # ys)) m
         (\<lambda>m'. rep m' h (xs @ a # e # ys))"
    and remove_law:
      "rep m h (xs @ e # ys) \<Longrightarrow>
       yields (remove_op q h (Some e) m) (cells h (xs @ e # ys)) m (\<lambda>m'. rep m' h (xs @ ys))"
    and concat_law:
      "rep m h1 xs \<Longrightarrow> rep m h2 ys \<Longrightarrow> h1 \<noteq> h2 \<Longrightarrow> set xs \<inter> set ys = {} \<Longrightarrow>
       yields (concat_op q h1 h2 m) (cells h1 xs \<union> cells h2 ys) m
         (\<lambda>m'. rep m' h1 (xs @ ys) \<and> rep m' h2 [])"
    and swap_law:
      "rep m h1 xs \<Longrightarrow> rep m h2 ys \<Longrightarrow> h1 \<noteq> h2 \<Longrightarrow> set xs \<inter> set ys = {} \<Longrightarrow>
       yields (swap_op q h1 h2 m) (cells h1 xs \<union> cells h2 ys) m (\<lambda>m'. rep m' h1 ys \<and> rep m' h2 xs)"
    and visit_law: "rep m h xs \<Longrightarrow> visit_op q h m = Some xs"
begin

lemma rep_frame: "rep m h xs \<Longrightarrow> frame A m m' \<Longrightarrow> A \<inter> cells h xs = {} \<Longrightarrow> rep m' h xs"
  using rep_agree frame_agree by blast

definition world :: "nat list \<Rightarrow> nat list \<Rightarrow> qmem \<Rightarrow> (nat \<Rightarrow> nat list) \<Rightarrow> bool" where
  "world hs es m s \<longleftrightarrow> (\<forall>h \<in> set hs. rep m h (s h)) \<and> (\<forall>e \<in> set es. alloc m (Elem e)) \<and>
     (\<forall>h \<in> set hs. \<forall>h' \<in> set hs. h \<noteq> h' \<longrightarrow> set (s h) \<inter> set (s h') = {})"

text \<open>An operation may change the queues of some heads \<open>H\<close> and elements that no other head has; the
  queues of the other heads stay.\<close>

lemma world_frame:
  assumes w: "world hs es m s" and f: "frame A m m'" and A: "A \<subseteq> Head ` H \<union> Elem ` E"
    and E: "\<forall>h \<in> set hs. h \<notin> H \<longrightarrow> E \<inter> set (s h) = {} \<and> s' h = s h"
    and E': "\<forall>h \<in> set hs. h \<in> H \<longrightarrow> rep m' h (s' h) \<and> set (s' h) \<subseteq> E"
    and H: "\<forall>h \<in> set hs \<inter> H. \<forall>h' \<in> set hs \<inter> H. h \<noteq> h' \<longrightarrow> set (s' h) \<inter> set (s' h') = {}"
  shows "world hs es m' s'"
proof -
  have "rep m' h (s' h)" if h: "h \<in> set hs" for h
  proof (cases "h \<in> H")
    case True
    with E' h show ?thesis by blast
  next
    case False
    with E h have e: "s' h = s h" "E \<inter> set (s h) = {}" by auto
    have "rep m h (s h)" using w h by (simp add: world_def)
    moreover have "A \<inter> cells h (s h) = {}" using A e False by (auto simp: cells_def)
    ultimately show ?thesis unfolding e using f rep_frame by blast
  qed
  moreover have "set (s' h) \<inter> set (s' h') = {}" if "h \<in> set hs" "h' \<in> set hs" "h \<noteq> h'" for h h'
    using that E E' H w unfolding world_def
    by (cases "h \<in> H"; cases "h' \<in> H") (simp_all, blast+)
  ultimately show ?thesis using w frame_alloc [OF f] by (auto simp: world_def)
qed

lemma world_unused:
  "world hs es m s \<Longrightarrow> unused hs es s e \<Longrightarrow> h \<in> set hs \<Longrightarrow> alloc m (Elem e) \<and> e \<notin> set (s h)"
  by (auto simp: world_def unused_def)

lemma world_rep: "world hs es m s \<Longrightarrow> h \<in> set hs \<Longrightarrow> rep m h (s h)"
  by (simp add: world_def)

lemma world_disjoint:
  "world hs es m s \<Longrightarrow> h \<in> set hs \<Longrightarrow> h' \<in> set hs \<Longrightarrow> h \<noteq> h' \<Longrightarrow> set (s h) \<inter> set (s h') = {}"
  by (simp add: world_def)

text \<open>One command on one queue: the law of the command, read as a change of the world.\<close>

lemma world_single:
  assumes w: "world hs es m s" and h: "h \<in> set hs"
    and y: "yields r (cells h zs) m (\<lambda>m'. rep m' h xs)"
    and xs: "set xs \<subseteq> set zs" and zs: "\<forall>h' \<in> set hs. h' \<noteq> h \<longrightarrow> set zs \<inter> set (s h') = {}"
  shows "\<exists>m'. r = Some m' \<and> world hs es m' (s(h := xs))"
proof -
  from y obtain m' where m': "r = Some m'" "frame (cells h zs) m m'" "rep m' h xs" by (rule yieldsE)
  have "world hs es m' (s(h := xs))"
    by (rule world_frame [OF w m'(2), of "{h}" "set zs"]) (use xs zs m'(3) in \<open>auto simp: cells_def\<close>)
  with m'(1) show ?thesis by blast
qed

lemma world_pair:
  assumes w: "world hs es m s" and h: "h1 \<in> set hs" "h2 \<in> set hs" "h1 \<noteq> h2"
    and y: "yields r (cells h1 (s h1) \<union> cells h2 (s h2)) m (\<lambda>m'. rep m' h1 xs \<and> rep m' h2 ys)"
    and xs: "set xs \<union> set ys \<subseteq> set (s h1) \<union> set (s h2)" and d: "set xs \<inter> set ys = {}"
  shows "\<exists>m'. r = Some m' \<and> world hs es m' (s(h1 := xs, h2 := ys))"
proof -
  from y obtain m' where m': "r = Some m'" "frame (cells h1 (s h1) \<union> cells h2 (s h2)) m m'"
    "rep m' h1 xs \<and> rep m' h2 ys" by (rule yieldsE)
  have "(set (s h1) \<union> set (s h2)) \<inter> set (s h) = {}" if "h \<in> set hs" "h \<notin> {h1, h2}" for h
    using world_disjoint [OF w h(1) that(1)] world_disjoint [OF w h(2) that(1)] that by auto
  then have "world hs es m' (s(h1 := xs, h2 := ys))"
    by (intro world_frame [OF w m'(2), of "{h1, h2}" "set (s h1) \<union> set (s h2)"])
      (use h xs d m'(3) in \<open>auto simp: cells_def\<close>)
  with m'(1) show ?thesis by blast
qed

lemma exec_cmd_refines:
  assumes w: "world hs es m s" and c: "cmd_spec hs es c s = Some s'"
  shows "\<exists>m'. exec_cmd q c m = Some m' \<and> world hs es m' s'"
proof (cases c)
  case (Init h)
  with c have h: "h \<in> set hs" and s': "s' = s(h := [])" by (auto split: if_splits)
  have "yields (init_op q h m) (cells h []) m (\<lambda>m'. rep m' h [])"
    using init_law [OF rep_alloc [OF world_rep [OF w h]]] by (simp add: cells_def)
  from world_single [OF w h this] show ?thesis unfolding s' Init by simp
next
  case (Insert_head h e)
  with c have h: "h \<in> set hs" and u: "unused hs es s e" and s': "s' = s(h := e # s h)"
    by (auto split: if_splits)
  from u world_disjoint [OF w h] have "\<forall>h' \<in> set hs. h' \<noteq> h \<longrightarrow> set (e # s h) \<inter> set (s h') = {}"
    by (auto simp: unused_def)
  with world_single [OF w h insert_head_law [OF world_rep [OF w h]]] world_unused [OF w u h]
  show ?thesis unfolding s' Insert_head by simp
next
  case (Insert_after h a e)
  with c have h: "h \<in> set hs" and a: "a \<in> set (s h)" and u: "unused hs es s e"
    and s': "s' = s(h := insert_behind a e (s h))" by (auto split: if_splits)
  from a obtain xs ys where xy: "s h = xs @ a # ys" "a \<notin> set xs" by (meson split_list_first)
  from u world_disjoint [OF w h] have "\<forall>h' \<in> set hs. h' \<noteq> h \<longrightarrow> set (e # s h) \<inter> set (s h') = {}"
    by (auto simp: unused_def)
  with world_single [OF w h insert_after_law [OF world_rep [OF w h, unfolded xy]]] world_unused [OF w u h]
  show ?thesis unfolding s' Insert_after by (auto simp: xy insert_behind_split)
next
  case (Remove h e)
  with c have h: "h \<in> set hs" and e: "e \<in> set (s h)" and s': "s' = s(h := remove1 e (s h))"
    by (auto split: if_splits)
  from e obtain xs ys where xy: "s h = xs @ e # ys" "e \<notin> set xs" by (meson split_list_first)
  from world_disjoint [OF w h] have "\<forall>h' \<in> set hs. h' \<noteq> h \<longrightarrow> set (s h) \<inter> set (s h') = {}"
    by auto
  with world_single [OF w h remove_law [OF world_rep [OF w h, unfolded xy]]]
  show ?thesis unfolding s' Remove by (auto simp: xy remove1_append)
next
  case (Concat h1 h2)
  with c have h: "h1 \<in> set hs" "h2 \<in> set hs" "h1 \<noteq> h2" and s': "s' = s(h1 := s h1 @ s h2, h2 := [])"
    by (auto split: if_splits)
  from world_pair [OF w h concat_law [OF world_rep [OF w h(1)] world_rep [OF w h(2)] h(3)
      world_disjoint [OF w h]]]
  show ?thesis unfolding s' Concat by simp
next
  case (Swap h1 h2)
  with c have h: "h1 \<in> set hs" "h2 \<in> set hs" "h1 \<noteq> h2" and s': "s' = s(h1 := s h2, h2 := s h1)"
    by (auto split: if_splits)
  from world_pair [OF w h swap_law [OF world_rep [OF w h(1)] world_rep [OF w h(2)] h(3)
      world_disjoint [OF w h]]] world_disjoint [OF w h]
  show ?thesis unfolding s' Swap by (simp add: inf_commute)
qed

lemma exec_cmds_refines:
  "world hs es m s \<Longrightarrow> cmds_spec hs es cs s = Some s' \<Longrightarrow>
   \<exists>m'. exec_cmds q cs m = Some m' \<and> world hs es m' s'"
proof (induction cs arbitrary: m s)
  case (Cons c cs)
  from Cons.prems(2) obtain s1 where s1: "cmd_spec hs es c s = Some s1" "cmds_spec hs es cs s1 = Some s'"
    by (auto simp: bind_eq_Some_conv)
  from exec_cmd_refines [OF Cons.prems(1) s1(1)] Cons.IH [OF _ s1(2)] show ?case by fastforce
qed simp

text \<open>Initialising the heads makes a world of empty queues, whatever the memory holds.\<close>

lemma init_all:
  assumes "\<forall>h \<in> set hs. alloc m (Head h)" and "\<forall>e \<in> set es. alloc m (Elem e)"
  shows "\<exists>m'. exec_cmds q (map Init hs) m = Some m' \<and> world hs es m' (\<lambda>h. []) \<and>
    (\<forall>h. h \<notin> set hs \<longrightarrow> rep m h [] \<longrightarrow> rep m' h [])"
  using assms
proof (induction hs arbitrary: m)
  case (Cons h hs)
  from Cons.prems(1) have "yields (init_op q h m) {Head h} m (\<lambda>m'. rep m' h [])"
    by (intro init_law) simp
  then obtain m1 where m1: "init_op q h m = Some m1" "frame {Head h} m m1" "rep m1 h []" by (rule yieldsE)
  have keep: "rep m1 h' []" if "h' \<noteq> h" "rep m h' []" for h'
    using rep_frame [OF that(2) m1(2)] that(1) by (simp add: cells_def)
  from Cons.prems obtain m' where m': "exec_cmds q (map Init hs) m1 = Some m'" "world hs es m' (\<lambda>h. [])"
    "\<forall>h. h \<notin> set hs \<longrightarrow> rep m1 h [] \<longrightarrow> rep m' h []"
    using Cons.IH [of m1] frame_alloc [OF m1(2)] by auto
  have "rep m' h []" using m'(2,3) m1(3) by (cases "h \<in> set hs") (auto simp: world_def)
  then show ?case using m1(1) m' keep by (auto simp: world_def)
qed (simp add: world_def)

text \<open>Any program on freshly initialised heads is defined, and a traversal of each queue then
  visits the elements of the list the program computes.\<close>

lemma programs_rep:
  assumes "\<forall>h \<in> set hs. alloc m (Head h)" and "\<forall>e \<in> set es. alloc m (Elem e)"
    and "cmds_spec hs es cs (\<lambda>h. []) = Some s"
  obtains m' where "exec_cmds q (map Init hs @ cs) m = Some m'" "\<forall>h \<in> set hs. rep m' h (s h)"
proof -
  have app: "exec_cmds q (cs1 @ cs2) m = exec_cmds q cs1 m \<bind> exec_cmds q cs2" for cs1 cs2
    by (induction cs1 arbitrary: m) (auto split: Option.bind_splits)
  from init_all [OF assms(1,2)] obtain m1
    where m1: "exec_cmds q (map Init hs) m = Some m1" "world hs es m1 (\<lambda>h. [])" by blast
  from exec_cmds_refines [OF m1(2) assms(3)] m1(1) that show ?thesis
    by (auto simp: app world_def)
qed

lemma programs_refine:
  assumes "\<forall>h \<in> set hs. alloc m (Head h)" and "\<forall>e \<in> set es. alloc m (Elem e)"
    and "cmds_spec hs es cs (\<lambda>h. []) = Some s"
  shows "\<exists>m'. exec_cmds q (map Init hs @ cs) m = Some m' \<and> (\<forall>h \<in> set hs. visit_op q h m' = Some (s h))"
  using programs_rep [OF assms] visit_law by metis

end

section \<open>Emptying a queue in a loop\<close>

text \<open>The body that takes the visited element out of the queue and frees it. In the loop that
  reads the next element first it empties the queue; in the plain loop, the next element is
  read from the freed one.\<close>

definition drop_body :: "queue_api \<Rightarrow> nat \<Rightarrow> unit body" where
  "drop_body q h e s = do {
     m1 \<leftarrow> remove_op q h (Some e) (fst s);
     m2 \<leftarrow> free_elem e m1;
     Some (m2, snd s)
   }"

locale chained_queue = linked_queue +
  fixes succ :: "ptr \<Rightarrow> qmem \<Rightarrow> ptr option"
  assumes succ_law: "succ (Some e) m = cell m (Elem e)"
    and rep_seg: "rep m h xs \<Longrightarrow> seg m (Head h) xs NULL"
begin

lemma drop_body_first:
  assumes r: "rep m h (x # xs)"
  shows "\<exists>m'. drop_body q h x (m, ()) = Some (m', ()) \<and> rep m' h xs \<and> \<not> alloc m' (Elem x) \<and>
    (\<forall>e. e \<noteq> x \<longrightarrow> alloc m' (Elem e) = alloc m (Elem e))"
proof -
  from remove_law [of m h "[]" x xs] r obtain m1
    where m1: "remove_op q h (Some x) m = Some m1" "frame (cells h (x # xs)) m m1" "rep m1 h xs"
    by (auto elim: yieldsE)
  let ?m = "m1\<lparr>cell := (cell m1)(Elem x := None), addr := (addr m1)(Elem x := None)\<rparr>"
  from rep_seg [OF r] have "alloc m (Elem x)" by (rule seg_alloc(2)) simp
  with frame_alloc [OF m1(2)] have "free_elem x m1 = Some ?m" by (auto simp: free_elem_def alloc_def)
  moreover have "rep ?m h xs"
    by (rule rep_agree [OF m1(3)]) (use rep_distinct [OF r] in \<open>auto simp: agree_def cells_def\<close>)
  ultimately show ?thesis using m1(1) frame_alloc [OF m1(2)] by (auto simp: drop_body_def alloc_def)
qed

lemma foreach_safe_drains:
  assumes "rep m h xs" and "cell m (Head h) = Some p"
  shows "\<exists>m'. foreach_safe succ (drop_body q h) p (m, ()) = Some (m', ()) \<and> rep m' h [] \<and>
    (\<forall>e. alloc m' (Elem e) \<longleftrightarrow> alloc m (Elem e) \<and> e \<notin> set xs)"
  using assms
proof (induction xs arbitrary: m p)
  case Nil
  with rep_seg [OF Nil(1)] show ?case by (auto simp: foreach_safe.simps [of succ _ NULL])
next
  case (Cons x xs)
  from rep_seg [OF Cons.prems(1)] Cons.prems(2) have p: "p = Some x" and s: "seg m (Elem x) xs NULL" by auto
  from s obtain n where n: "cell m (Elem x) = Some n" by (cases xs) auto
  from drop_body_first [OF Cons.prems(1)] obtain m1
    where m1: "drop_body q h x (m, ()) = Some (m1, ())" "rep m1 h xs" "\<not> alloc m1 (Elem x)"
      "\<forall>e. e \<noteq> x \<longrightarrow> alloc m1 (Elem e) = alloc m (Elem e)" by blast
  have "cell m1 (Head h) = Some n" using rep_seg [OF m1(2)] s n by (cases xs) auto
  from Cons.IH [OF m1(2) this] obtain m'
    where m': "foreach_safe succ (drop_body q h) n (m1, ()) = Some (m', ())" "rep m' h []"
      "\<forall>e. alloc m' (Elem e) \<longleftrightarrow> alloc m1 (Elem e) \<and> e \<notin> set xs" by blast
  moreover have "alloc m' (Elem e) \<longleftrightarrow> alloc m (Elem e) \<and> e \<notin> set (x # xs)" for e
    using m'(3) m1(3,4) by (cases "e = x") auto
  ultimately show ?case
    using m1(1) n by (auto simp: p foreach_safe.simps [of succ _ "Some x"] succ_law)
qed

lemma foreach_use_after_free:
  assumes "rep m h (x # xs)"
  shows "foreach succ (drop_body q h) (Some x) (m, ()) = None"
  using drop_body_first [OF assms] by (auto simp: foreach.simps [of succ _ "Some x"] succ_law alloc_def)

end

section \<open>First in, first out\<close>

text \<open>The kinds with a tail pointer serve as fifo queues: inserting at the tail, and taking the first
  element out. A run collects the pointers that the removals took.\<close>

record fifo_api =
  enqueue_op :: "nat \<Rightarrow> ptr \<Rightarrow> qmem \<Rightarrow> qmem option"
  front_op :: "nat \<Rightarrow> qmem \<Rightarrow> ptr option"
  dequeue_op :: "nat \<Rightarrow> ptr \<Rightarrow> qmem \<Rightarrow> qmem option"

datatype fifo_cmd = Enqueue nat | Dequeue

fun exec_fifo :: "fifo_api \<Rightarrow> nat \<Rightarrow> fifo_cmd list \<Rightarrow> qmem \<Rightarrow> (qmem \<times> ptr list) option" where
  "exec_fifo f h [] m = Some (m, [])"
| "exec_fifo f h (Enqueue e # cs) m = do { m1 \<leftarrow> enqueue_op f h (Some e) m; exec_fifo f h cs m1 }"
| "exec_fifo f h (Dequeue # cs) m = do {
     p \<leftarrow> front_op f h m;
     m1 \<leftarrow> dequeue_op f h p m;
     (m2, out) \<leftarrow> exec_fifo f h cs m1;
     Some (m2, p # out)
   }"

fun enqueued :: "fifo_cmd list \<Rightarrow> nat list" where
  "enqueued [] = []"
| "enqueued (Enqueue e # cs) = e # enqueued cs"
| "enqueued (Dequeue # cs) = enqueued cs"

fun dequeues :: "fifo_cmd list \<Rightarrow> nat" where
  "dequeues [] = 0"
| "dequeues (Enqueue e # cs) = dequeues cs"
| "dequeues (Dequeue # cs) = Suc (dequeues cs)"

text \<open>No removal meets an empty queue, starting with \<open>n\<close> elements.\<close>

fun balanced :: "nat \<Rightarrow> fifo_cmd list \<Rightarrow> bool" where
  "balanced n [] = True"
| "balanced n (Enqueue e # cs) = balanced (Suc n) cs"
| "balanced n (Dequeue # cs) = (0 < n \<and> balanced (n - 1) cs)"

locale tail_queue = chained_queue +
  fixes f :: fifo_api
  assumes enqueue_law:
      "rep m h xs \<Longrightarrow> alloc m (Elem e) \<Longrightarrow> e \<notin> set xs \<Longrightarrow>
       yields (enqueue_op f h (Some e) m) (cells h (e # xs)) m (\<lambda>m'. rep m' h (xs @ [e]))"
    and dequeue_law:
      "rep m h (x # xs) \<Longrightarrow>
       yields (dequeue_op f h (Some x) m) (cells h (x # xs)) m (\<lambda>m'. rep m' h xs)"
    and front_law: "front_op f h m = cell m (Head h)"
begin

lemma fifo_order:
  assumes "rep m h xs" and "balanced (length xs) cs" and "distinct (xs @ enqueued cs)"
    and "\<forall>e \<in> set (enqueued cs). alloc m (Elem e)"
  shows "\<exists>m'. exec_fifo f h cs m = Some (m', map Some (take (dequeues cs) (xs @ enqueued cs))) \<and>
    rep m' h (drop (dequeues cs) (xs @ enqueued cs))"
  using assms
proof (induction cs arbitrary: m xs)
  case (Cons c cs)
  show ?case
  proof (cases c)
    case (Enqueue e)
    with Cons.prems have "alloc m (Elem e)" "e \<notin> set xs" by auto
    from enqueue_law [OF Cons.prems(1) this] obtain m1
      where m1: "enqueue_op f h (Some e) m = Some m1" "frame (cells h (e # xs)) m m1" "rep m1 h (xs @ [e])"
      by (rule yieldsE)
    with Cons.IH [of m1 "xs @ [e]"] Cons.prems Enqueue frame_alloc [OF m1(2)] show ?thesis by auto
  next
    case Dequeue
    with Cons.prems obtain x ys where xs: "xs = x # ys" by (cases xs) auto
    from dequeue_law [of m h x ys] Cons.prems(1) obtain m1
      where m1: "dequeue_op f h (Some x) m = Some m1" "frame (cells h xs) m m1" "rep m1 h ys"
      unfolding xs by (auto elim: yieldsE)
    moreover have "front_op f h m = Some (Some x)"
      using rep_seg [OF Cons.prems(1)] by (simp add: front_law xs)
    ultimately show ?thesis
      using Cons.IH [of m1 ys] Cons.prems Dequeue frame_alloc [OF m1(2)] by (auto simp: xs)
  qed
qed simp

end

end
