(* ===== verification/Queue_Slist.thy ===== *)
theory Queue_Slist
  imports Queue_Interface
begin

text \<open>
  The singly-linked lists of \<^verbatim>\<open>queue.h\<close> (\<^verbatim>\<open>SLIST_*\<close>), one definition per macro, and their
  interpretation of \<open>linked_queue\<close>.
\<close>

section \<open>Macros\<close>

definition SLIST_FIRST :: "nat \<Rightarrow> qmem \<Rightarrow> ptr option" where
  "SLIST_FIRST head m = get_cell (Head head) m"

definition SLIST_NEXT :: "ptr \<Rightarrow> qmem \<Rightarrow> ptr option" where
  "SLIST_NEXT elm m = do { l \<leftarrow> entry elm; get_cell l m }"

definition set_SLIST_NEXT :: "ptr \<Rightarrow> ptr \<Rightarrow> qmem \<Rightarrow> qmem option" where
  "set_SLIST_NEXT elm p m = do { l \<leftarrow> entry elm; set_cell l p m }"

definition SLIST_EMPTY :: "nat \<Rightarrow> qmem \<Rightarrow> bool option" where
  "SLIST_EMPTY head m = do { p \<leftarrow> SLIST_FIRST head m; Some (p = NULL) }"

definition SLIST_INIT :: "nat \<Rightarrow> qmem \<Rightarrow> qmem option" where
  "SLIST_INIT head m = set_cell (Head head) NULL m"

text \<open>\<^verbatim>\<open>while (SLIST_NEXT(curelm, field) != NULL)\<close> stops at the element before the null pointer.\<close>

definition SLIST_CONCAT :: "nat \<Rightarrow> nat \<Rightarrow> qmem \<Rightarrow> qmem option" where
  "SLIST_CONCAT head1 head2 m = do {
     curelm \<leftarrow> SLIST_FIRST head1 m;
     first2 \<leftarrow> SLIST_FIRST head2 m;
     if curelm = NULL then do {
       m1 \<leftarrow> set_cell (Head head1) first2 m;
       if first2 \<noteq> NULL then SLIST_INIT head2 m1 else Some m1
     }
     else if first2 \<noteq> NULL then do {
       last1 \<leftarrow> seek_prev SLIST_NEXT NULL curelm m;
       m1 \<leftarrow> set_SLIST_NEXT last1 first2 m;
       SLIST_INIT head2 m1
     }
     else Some m
   }"

definition SLIST_INSERT_AFTER :: "ptr \<Rightarrow> ptr \<Rightarrow> qmem \<Rightarrow> qmem option" where
  "SLIST_INSERT_AFTER slistelm elm m = do {
     n \<leftarrow> SLIST_NEXT slistelm m;
     m1 \<leftarrow> set_SLIST_NEXT elm n m;
     set_SLIST_NEXT slistelm elm m1
   }"

definition SLIST_INSERT_HEAD :: "nat \<Rightarrow> ptr \<Rightarrow> qmem \<Rightarrow> qmem option" where
  "SLIST_INSERT_HEAD head elm m = do {
     n \<leftarrow> SLIST_FIRST head m;
     m1 \<leftarrow> set_SLIST_NEXT elm n m;
     set_cell (Head head) elm m1
   }"

definition SLIST_REMOVE_AFTER :: "ptr \<Rightarrow> qmem \<Rightarrow> qmem option" where
  "SLIST_REMOVE_AFTER elm m = do {
     n \<leftarrow> SLIST_NEXT elm m;
     nn \<leftarrow> SLIST_NEXT n m;
     set_SLIST_NEXT elm nn m
   }"

definition SLIST_REMOVE_HEAD :: "nat \<Rightarrow> qmem \<Rightarrow> qmem option" where
  "SLIST_REMOVE_HEAD head m = do {
     p \<leftarrow> SLIST_FIRST head m;
     n \<leftarrow> SLIST_NEXT p m;
     set_cell (Head head) n m
   }"

definition SLIST_REMOVE :: "nat \<Rightarrow> ptr \<Rightarrow> qmem \<Rightarrow> qmem option" where
  "SLIST_REMOVE head elm m = do {
     p \<leftarrow> SLIST_FIRST head m;
     if p = elm then SLIST_REMOVE_HEAD head m
     else do {
       curelm \<leftarrow> seek_prev SLIST_NEXT elm p m;
       SLIST_REMOVE_AFTER curelm m
     }
   }"

definition SLIST_SWAP :: "nat \<Rightarrow> nat \<Rightarrow> qmem \<Rightarrow> qmem option" where
  "SLIST_SWAP head1 head2 m = do {
     swap_first \<leftarrow> SLIST_FIRST head1 m;
     first2 \<leftarrow> SLIST_FIRST head2 m;
     m1 \<leftarrow> set_cell (Head head1) first2 m;
     set_cell (Head head2) swap_first m1
   }"

text \<open>The loops. The \<^verbatim>\<open>FROM\<close> variants start at \<^verbatim>\<open>var\<close> unless it is null.\<close>

definition SLIST_FOREACH :: "'s body \<Rightarrow> nat \<Rightarrow> qmem \<times> 's \<Rightarrow> (qmem \<times> 's) option" where
  "SLIST_FOREACH body head s = do {
     var \<leftarrow> SLIST_FIRST head (fst s);
     foreach SLIST_NEXT body var s
   }"

definition SLIST_FOREACH_FROM :: "'s body \<Rightarrow> ptr \<Rightarrow> nat \<Rightarrow> qmem \<times> 's \<Rightarrow> (qmem \<times> 's) option" where
  "SLIST_FOREACH_FROM body var head s = do {
     var1 \<leftarrow> (if var \<noteq> NULL then Some var else SLIST_FIRST head (fst s));
     foreach SLIST_NEXT body var1 s
   }"

definition SLIST_FOREACH_SAFE :: "'s body \<Rightarrow> nat \<Rightarrow> qmem \<times> 's \<Rightarrow> (qmem \<times> 's) option" where
  "SLIST_FOREACH_SAFE body head s = do {
     var \<leftarrow> SLIST_FIRST head (fst s);
     foreach_safe SLIST_NEXT body var s
   }"

definition SLIST_FOREACH_FROM_SAFE :: "'s body \<Rightarrow> ptr \<Rightarrow> nat \<Rightarrow> qmem \<times> 's \<Rightarrow> (qmem \<times> 's) option" where
  "SLIST_FOREACH_FROM_SAFE body var head s = do {
     var1 \<leftarrow> (if var \<noteq> NULL then Some var else SLIST_FIRST head (fst s));
     foreach_safe SLIST_NEXT body var1 s
   }"

text \<open>\<^verbatim>\<open>SLIST_FOREACH_PREVPTR\<close> hands the body the element and the location that points to it, and
  reads the next element from the entry of this one.\<close>

partial_function (option) prevptr_loop ::
    "(nat \<Rightarrow> loc \<Rightarrow> qmem \<times> 's \<Rightarrow> (qmem \<times> 's) option) \<Rightarrow> loc \<Rightarrow> qmem \<times> 's \<Rightarrow> (qmem \<times> 's) option" where
  "prevptr_loop body varp s = do {
     var \<leftarrow> get_cell varp (fst s);
     case var of
       None \<Rightarrow> Some s
     | Some e \<Rightarrow> do {
         s1 \<leftarrow> body e varp s;
         prevptr_loop body (Elem e) s1
       }
   }"

declare prevptr_loop.simps [code]

definition SLIST_FOREACH_PREVPTR ::
    "(nat \<Rightarrow> loc \<Rightarrow> qmem \<times> 's \<Rightarrow> (qmem \<times> 's) option) \<Rightarrow> nat \<Rightarrow> qmem \<times> 's \<Rightarrow> (qmem \<times> 's) option" where
  "SLIST_FOREACH_PREVPTR body head s = prevptr_loop body (Head head) s"

section \<open>Correctness\<close>

definition slist :: "qmem \<Rightarrow> nat \<Rightarrow> nat list \<Rightarrow> bool" where
  "slist m h xs \<longleftrightarrow> seg m (Head h) xs NULL \<and> distinct xs"

lemma SLIST_access [simp]:
  "SLIST_FIRST h m = cell m (Head h)" "SLIST_NEXT (Some e) m = cell m (Elem e)"
  "SLIST_NEXT None m = None"
  "alloc m (Elem e) \<Longrightarrow> set_SLIST_NEXT (Some e) p m = Some (upd_cell (Elem e) p m)"
  by (simp_all add: SLIST_FIRST_def SLIST_NEXT_def set_SLIST_NEXT_def)

lemma SLIST_INIT_alloc [simp]: "alloc m (Head h) \<Longrightarrow> SLIST_INIT h m = Some (upd_cell (Head h) NULL m)"
  by (simp add: SLIST_INIT_def)

lemma slist_insert_head:
  assumes "slist m h xs" and "alloc m (Elem e)" and "e \<notin> set xs"
  shows "yields (SLIST_INSERT_HEAD h (Some e) m) (cells h (e # xs)) m (\<lambda>m'. slist m' h (e # xs))"
  using assms by (cases xs) (auto simp: SLIST_INSERT_HEAD_def yields_def slist_def cells_def)

lemma slist_insert_after:
  assumes "slist m h (xs @ a # ys)" and "alloc m (Elem e)" and "e \<notin> set (xs @ a # ys)"
  shows "yields (SLIST_INSERT_AFTER (Some a) (Some e) m) (cells h (e # xs @ a # ys)) m
    (\<lambda>m'. slist m' h (xs @ a # e # ys))"
  using assms
  by (cases ys) (auto simp: SLIST_INSERT_AFTER_def yields_def slist_def cells_def)

lemma slist_remove_head:
  assumes "slist m h (e # ys)"
  shows "yields (SLIST_REMOVE_HEAD h m) (cells h (e # ys)) m (\<lambda>m'. slist m' h ys)"
  using assms by (cases ys) (auto simp: SLIST_REMOVE_HEAD_def yields_def slist_def cells_def)

lemma slist_remove_after:
  assumes "slist m h (xs @ a # e # ys)"
  shows "yields (SLIST_REMOVE_AFTER (Some a) m) (cells h (xs @ a # e # ys)) m (\<lambda>m'. slist m' h (xs @ a # ys))"
  using assms by (cases ys) (auto simp: SLIST_REMOVE_AFTER_def yields_def slist_def cells_def)

lemma slist_remove:
  assumes "slist m h (xs @ e # ys)"
  shows "yields (SLIST_REMOVE h (Some e) m) (cells h (xs @ e # ys)) m (\<lambda>m'. slist m' h (xs @ ys))"
proof (cases xs rule: rev_cases)
  case Nil
  with assms slist_remove_head [of m h e ys] show ?thesis by (simp add: SLIST_REMOVE_def slist_def)
next
  case (snoc zs a)
  with assms have "seg m (Head h) (zs @ [a]) (Some e)" "Some e \<notin> Some ` set (zs @ [a])"
    by (auto simp: slist_def)
  then obtain c where "cell m (Head h) = Some (Some c)" "c \<noteq> e"
    "seek_prev SLIST_NEXT (Some e) (Some c) m = Some (Some a)"
    by (rule seek_from [of SLIST_NEXT, rotated]) auto
  then have "SLIST_REMOVE h (Some e) m = SLIST_REMOVE_AFTER (Some a) m"
    by (simp add: SLIST_REMOVE_def)
  with slist_remove_after [of m h zs a e ys] assms snoc show ?thesis by simp
qed

lemma slist_concat:
  assumes "slist m h1 xs" and "slist m h2 ys" and "h1 \<noteq> h2" and "set xs \<inter> set ys = {}"
  shows "yields (SLIST_CONCAT h1 h2 m) (cells h1 xs \<union> cells h2 ys) m
    (\<lambda>m'. slist m' h1 (xs @ ys) \<and> slist m' h2 [])"
proof (cases ys)
  case Nil
  with assms show ?thesis by (cases xs) (auto simp: SLIST_CONCAT_def yields_def slist_def cells_def)
next
  case (Cons y zs)
  show ?thesis
  proof (cases xs rule: rev_cases)
    case Nil
    with Cons assms show ?thesis by (auto simp: SLIST_CONCAT_def yields_def slist_def cells_def)
  next
    case (snoc us l)
    with assms(1) have "seg m (Head h1) (us @ [l]) NULL" "NULL \<notin> Some ` set (us @ [l])"
      by (auto simp: slist_def)
    then obtain c where c: "cell m (Head h1) = Some (Some c)"
      "seek_prev SLIST_NEXT NULL (Some c) m = Some (Some l)"
      by (rule seek_from [of SLIST_NEXT, rotated]) auto
    from assms snoc Cons c have "SLIST_CONCAT h1 h2 m = Some (upd_cell (Head h2) NULL (upd_cell (Elem l) (Some y) m))"
      by (auto simp: SLIST_CONCAT_def slist_def)
    with assms snoc Cons show ?thesis by (auto simp: yields_def slist_def cells_def)
  qed
qed

lemma slist_swap:
  assumes "slist m h1 xs" and "slist m h2 ys" and "h1 \<noteq> h2" and "set xs \<inter> set ys = {}"
  shows "yields (SLIST_SWAP h1 h2 m) (cells h1 xs \<union> cells h2 ys) m
    (\<lambda>m'. slist m' h1 ys \<and> slist m' h2 xs)"
  using assms by (cases xs; cases ys) (auto simp: SLIST_SWAP_def yields_def slist_def cells_def)

text \<open>The traversals.\<close>

lemma SLIST_FOREACH_visits:
  assumes "slist m h xs"
  shows "SLIST_FOREACH visit_body h (m, vs) = Some (m, vs @ xs)"
proof -
  from assms obtain p where "cell m (Head h) = Some p" by (cases xs) (auto simp: slist_def)
  with assms foreach_visit [of SLIST_NEXT m "Head h" xs p vs] show ?thesis
    by (simp add: SLIST_FOREACH_def slist_def)
qed

lemma SLIST_FOREACH_FROM_visits:
  assumes "slist m h (xs @ a # ys)"
  shows "SLIST_FOREACH_FROM visit_body (Some a) h (m, vs) = Some (m, vs @ a # ys)"
  using assms foreach_visit [of SLIST_NEXT m "tail_cell (Head h) xs" "a # ys" "Some a" vs]
  by (auto simp: SLIST_FOREACH_FROM_def slist_def dest: seg_tail_cell)

section \<open>Interpretation\<close>

definition slist_visit :: "nat \<Rightarrow> qmem \<Rightarrow> nat list option" where
  "slist_visit h m = map_option snd (SLIST_FOREACH visit_body h (m, []))"

definition slist_api :: queue_api where
  "slist_api = \<lparr>init_op = SLIST_INIT, insert_head_op = SLIST_INSERT_HEAD,
     insert_after_op = (\<lambda>h. SLIST_INSERT_AFTER), remove_op = SLIST_REMOVE,
     concat_op = SLIST_CONCAT, swap_op = SLIST_SWAP, visit_op = slist_visit\<rparr>"

interpretation sl: chained_queue slist_api slist SLIST_NEXT
proof unfold_locales
  show "slist m h xs \<Longrightarrow> distinct xs" "slist m h xs \<Longrightarrow> alloc m (Head h)"
    "slist m h xs \<Longrightarrow> seg m (Head h) xs NULL" for m h xs
    by (auto simp: slist_def dest: seg_alloc)
  show "slist m h xs \<Longrightarrow> agree (cells h xs) m m' \<Longrightarrow> slist m' h xs" for m h xs m'
    by (simp add: slist_def agree_seg)
  show "alloc m (Head h) \<Longrightarrow> yields (init_op slist_api h m) {Head h} m (\<lambda>m'. slist m' h [])" for m h
    by (simp add: slist_api_def yields_def slist_def)
  show "slist m h xs \<Longrightarrow> visit_op slist_api h m = Some xs" for m h xs
    by (simp add: slist_api_def slist_visit_def SLIST_FOREACH_visits)
qed (simp_all add: slist_api_def slist_insert_head slist_insert_after slist_remove slist_concat slist_swap)

end
