(* ===== verification/Shared_File.thy ===== *)
theory Shared_File
  imports Aesd_Prelude
begin

text \<open>
  A file to which several threads or processes append: its history is the list of the
  appends, each with who did it. The servers that write without a lock state with it what of
  the file is whose.
\<close>

type_synonym appends = "(nat \<times> byte list) list"

definition part :: "nat \<Rightarrow> appends \<Rightarrow> byte list" where
  "part i h = concat (map snd (filter (\<lambda>e. fst e = i) h))"

lemma part_simps [simp]:
  "part i [] = []" "part i (h @ [(j, bs)]) = part i h @ (if j = i then bs else [])"
  by (simp_all add: part_def)

text \<open>The file after the appends \<open>h\<close>, when it held \<open>base\<close> before them.\<close>

definition file_with :: "byte list \<Rightarrow> appends \<Rightarrow> byte list" where
  "file_with base h = base @ concat (map snd h)"

lemma file_with_simps [simp]: "file_with base (h @ [(j, bs)]) = file_with base h @ bs" "file_with b [] = b"
  by (simp_all add: file_with_def)

lemma take_append_le: "k \<le> length h \<Longrightarrow> take k (h @ x) = take k h"
  by simp

end
