(* ===== verification/Forking_Server.thy ===== *)
theory Forking_Server
  imports Socket_Server Queue_Slist Shared_File
begin

text \<open>
  The server of \<^verbatim>\<open>server/server_prototypes/server.prototype.0.0.3.c\<close>, which forks a process for each
  connection. The processes share the data file, to which each appends through a stream of its own
  and without a lock; the parent keeps an \<^verbatim>\<open>SLIST\<close> of threads, into which nothing is inserted.
  Parent, children and signals are interleaved in any order.
\<close>

section \<open>State\<close>

text \<open>
  A child before the named action. \<open>Ch_Rewind\<close> writes out what is left in the stream; \<open>Ch_Read pos\<close> and
  \<open>Ch_Flush\<close> are the \<^verbatim>\<open>fread\<close> with its \<^verbatim>\<open>send\<close> and the \<^verbatim>\<open>fflush\<close> of the second loop: the stream is
  being read, so that \<^verbatim>\<open>fflush\<close> has nothing to write, and discards what was read ahead: the next
  \<^verbatim>\<open>fread\<close> takes what is in the file then. After a chunk that was cut short by the end of the file
  (\<open>Ch_Flush None\<close>) the next \<^verbatim>\<open>fread\<close> gives nothing. A child that sends to a closed connection is
  killed by \<^verbatim>\<open>SIGPIPE\<close>.
\<close>

datatype child_pc =
    Ch_Open | Ch_Recv | Ch_Rewind | Ch_Read nat | Ch_Flush "nat option" | Ch_Close | Ch_Exited nat | Ch_Killed

text \<open>
  \<open>stream\<close> is what was put into the stream \<^verbatim>\<open>fp\<close> and not written to the file yet; \<open>inode\<close> the file
  that \<^verbatim>\<open>fp\<close> has open, and \<open>given\<close> what was handed to \<^verbatim>\<open>send\<close>. \<open>got\<close> are the received strings.
\<close>

record child =
  child_at :: child_pc
  sock :: nat
  inode :: nat
  stream :: "byte list"
  got :: "byte list list"
  given :: "byte list"
  sent :: "byte list"

text \<open>The parent before the named action; at \<open>P_Waiting\<close> it is blocked in \<^verbatim>\<open>accept\<close>.\<close>

datatype parent_pc =
    P_Check | P_Accept | P_Waiting | P_Fork nat | P_Close nat | P_Clean | P_Shut | P_Remove_Int | P_Remove_Term
  | P_Remove | P_Exited nat | P_Killed

text \<open>
  \<open>contents\<close> are the files by inode and \<open>filepath\<close> is the inode that \<^verbatim>\<open>FILEPATH\<close> names: a child
  goes on with the file it has opened after the name is gone. \<open>history\<close> is what was appended to
  each file, with the child that did it. \<open>statuses\<close> and \<open>joined\<close> belong to the elements of the queue.
\<close>

record fork_server =
  contents :: "nat \<Rightarrow> byte list"
  filepath :: "nat option"
  next_inode :: nat
  history :: "nat \<Rightarrow> appends"
  children :: "nat \<rightharpoonup> child"
  parent_at :: parent_pc
  sockfd :: nat
  fds :: "nat set"
  caught_sigint :: bool
  caught_sigterm :: bool
  handled :: "nat set"
  mem :: qmem
  statuses :: "nat \<rightharpoonup> nat"
  joined :: "nat list"

definition SIGINT :: nat where "SIGINT = 2"
definition SIGTERM :: nat where "SIGTERM = 15"
definition COMPLETED :: nat where "COMPLETED = 1"
definition thread_queue :: nat where "thread_queue = 0"

definition signal_handler :: "nat \<Rightarrow> fork_server \<Rightarrow> fork_server" where
  "signal_handler signal_number s =
     (if signal_number = SIGINT then s\<lparr>caught_sigint := True\<rparr>
      else if signal_number = SIGTERM then s\<lparr>caught_sigterm := True\<rparr>
      else s)"

section \<open>A child\<close>

text \<open>
  What happens to a child: whether \<^verbatim>\<open>fopen\<close> succeeds; what \<^verbatim>\<open>recv\<close> gives; that the stream
  writes its first \<open>k\<close> bytes to the file, which the C library does when it likes in the first
  loop and completely in \<^verbatim>\<open>rewind\<close> (the file takes all it is given: a full disk, for which the library
  leaves open what becomes of the stream, is not modelled); what \<^verbatim>\<open>send\<close> takes of a chunk, \<open>None\<close> for \<^verbatim>\<open>SIGPIPE\<close>.
\<close>

datatype child_event = Opens bool | Receives "byte list option" | Writes_Out nat | Reads "nat option" | Goes_On

definition open_append :: "fork_server \<Rightarrow> nat \<times> fork_server" where
  "open_append s =
     (case filepath s of
        Some n \<Rightarrow> (n, s)
      | None \<Rightarrow> (next_inode s, s\<lparr>filepath := Some (next_inode s), contents := (contents s)(next_inode s := []),
                   next_inode := Suc (next_inode s)\<rparr>))"

definition append_file :: "nat \<Rightarrow> nat \<Rightarrow> byte list \<Rightarrow> fork_server \<Rightarrow> fork_server" where
  "append_file i n bs s =
     s\<lparr>contents := (contents s)(n := contents s n @ bs), history := (history s)(n := history s n @ [(i, bs)])\<rparr>"

abbreviation set_child :: "nat \<Rightarrow> child \<Rightarrow> fork_server \<Rightarrow> fork_server" where
  "set_child i c s \<equiv> s\<lparr>children := (children s)(i \<mapsto> c)\<rparr>"

text \<open>\<^verbatim>\<open>exit\<close> in the child; the buffer is 1024 bytes, one of which \<^verbatim>\<open>recv\<close> leaves for the NUL.\<close>

definition child_next :: "nat \<Rightarrow> child_event \<Rightarrow> fork_server \<Rightarrow> fork_server option" where
  "child_next i ev s = do {
     c \<leftarrow> children s i;
     case child_at c of
       Ch_Open \<Rightarrow>
         (case ev of
            Opens True \<Rightarrow> let (n, s1) = open_append s in Some (set_child i (c\<lparr>inode := n, child_at := Ch_Recv\<rparr>) s1)
          | Opens False \<Rightarrow> Some (set_child i (c\<lparr>child_at := Ch_Exited 1\<rparr>) s)
          | _ \<Rightarrow> None)
     | Ch_Recv \<Rightarrow>
         (case ev of
            Receives (Some bs) \<Rightarrow>
              if bs = [] \<or> length bs > 1023 then None
              else let str = takeWhile (\<lambda>x. x \<noteq> nul) bs
                   in Some (set_child i (c\<lparr>stream := stream c @ str, got := got c @ [str],
                        child_at := (if newline \<in> set str then Ch_Rewind else Ch_Recv)\<rparr>) s)
          | Receives None \<Rightarrow> Some (set_child i (c\<lparr>child_at := Ch_Rewind\<rparr>) s)
          | Writes_Out k \<Rightarrow>
              if 0 < k \<and> k \<le> length (stream c)
              then Some (set_child i (c\<lparr>stream := drop k (stream c)\<rparr>) (append_file i (inode c) (take k (stream c)) s))
              else None
          | _ \<Rightarrow> None)
     | Ch_Rewind \<Rightarrow>
         (case ev of
            Writes_Out k \<Rightarrow>
              if 0 < k \<and> k \<le> length (stream c)
              then Some (set_child i (c\<lparr>stream := drop k (stream c)\<rparr>) (append_file i (inode c) (take k (stream c)) s))
              else None
          | Goes_On \<Rightarrow> if stream c = [] then Some (set_child i (c\<lparr>child_at := Ch_Read 0\<rparr>) s) else None
          | _ \<Rightarrow> None)
     | Ch_Read pos \<Rightarrow>
         (let chunk = take 1024 (drop pos (contents s (inode c)))
          in if chunk = [] then Some (set_child i (c\<lparr>child_at := Ch_Close\<rparr>) s)
             else case ev of
               Reads (Some k) \<Rightarrow>
                 if k \<le> length chunk
                 then Some (set_child i (c\<lparr>given := given c @ chunk, sent := sent c @ take k chunk,
                        child_at := Ch_Flush (if length chunk < 1024 then None else Some (pos + length chunk))\<rparr>) s)
                 else None
             | Reads None \<Rightarrow> Some (set_child i (c\<lparr>child_at := Ch_Killed\<rparr>) s)
             | _ \<Rightarrow> None)
     | Ch_Flush next_pos \<Rightarrow>
         (if ev = Goes_On
          then Some (set_child i (c\<lparr>child_at := (case next_pos of None \<Rightarrow> Ch_Close | Some pos \<Rightarrow> Ch_Read pos)\<rparr>) s)
          else None)
     | Ch_Close \<Rightarrow> (if ev = Goes_On then Some (set_child i (c\<lparr>child_at := Ch_Exited 0\<rparr>) s) else None)
     | Ch_Exited n \<Rightarrow> None
     | Ch_Killed \<Rightarrow> None
   }"

section \<open>The parent\<close>

text \<open>The loop over the queue: what it does with an element whose thread has completed.\<close>

definition clean_body :: "((nat \<rightharpoonup> nat) \<times> nat list) body" where
  "clean_body iter s = do {
     st \<leftarrow> fst (snd s) iter;
     if st = COMPLETED then do {
       m1 \<leftarrow> SLIST_REMOVE thread_queue (Some iter) (fst s);
       m2 \<leftarrow> free_elem iter m1;
       Some (m2, ((fst (snd s))(iter := None), snd (snd s) @ [iter]))
     }
     else Some s
   }"

definition clean_queue :: "fork_server \<Rightarrow> fork_server option" where
  "clean_queue s = do {
     (m, st, js) \<leftarrow> SLIST_FOREACH_SAFE clean_body thread_queue (mem s, statuses s, joined s);
     Some (s\<lparr>mem := m, statuses := st, joined := js\<rparr>)
   }"

definition remove_file :: "fork_server \<Rightarrow> fork_server" where
  "remove_file s = s\<lparr>filepath := None\<rparr>"

definition new_child :: "nat \<Rightarrow> child" where
  "new_child fd = \<lparr>child_at = Ch_Open, sock = fd, inode = 0, stream = [], got = [], given = [], sent = []\<rparr>"

text \<open>
  What \<^verbatim>\<open>accept\<close> and \<^verbatim>\<open>fork\<close> give: \<open>None\<close> for an error, which \<^verbatim>\<open>!fork()\<close> takes for the parent.
  \<open>Accepts\<close> is not up to the parent: it comes when there is a connection or an error of the network.
  \<^verbatim>\<open>fork\<close> always returns.
\<close>

datatype parent_event = Accepts "nat option" | Forks "nat option" | Proceeds

definition parent_next :: "parent_event \<Rightarrow> fork_server \<Rightarrow> fork_server option" where
  "parent_next ev s =
     (case parent_at s of
        P_Check \<Rightarrow>
          Some (s\<lparr>parent_at := (if caught_sigint s \<or> caught_sigterm s then P_Shut else P_Accept)\<rparr>)
      | P_Accept \<Rightarrow> (if ev = Proceeds then Some (s\<lparr>parent_at := P_Waiting\<rparr>) else None)
      | P_Waiting \<Rightarrow>
          (case ev of
             Accepts None \<Rightarrow> Some (s\<lparr>parent_at := P_Check\<rparr>)
           | Accepts (Some fd) \<Rightarrow>
               if fd \<in> fds s then None else Some (s\<lparr>fds := insert fd (fds s), parent_at := P_Fork fd\<rparr>)
           | _ \<Rightarrow> None)
      | P_Fork fd \<Rightarrow>
          (case ev of
             Forks None \<Rightarrow> Some (s\<lparr>parent_at := P_Close fd\<rparr>)
           | Forks (Some pid) \<Rightarrow>
               if children s pid = None
               then Some (set_child pid (new_child fd) (s\<lparr>parent_at := P_Close fd\<rparr>)) else None
           | _ \<Rightarrow> None)
      | P_Close fd \<Rightarrow> Some (s\<lparr>fds := fds s - {fd}, parent_at := P_Clean\<rparr>)
      | P_Clean \<Rightarrow> do { s1 \<leftarrow> clean_queue s; Some (s1\<lparr>parent_at := P_Check\<rparr>) }
      | P_Shut \<Rightarrow> Some (s\<lparr>fds := fds s - {sockfd s}, parent_at := P_Remove_Int\<rparr>)
      | P_Remove_Int \<Rightarrow> Some ((if caught_sigint s then remove_file s else s)\<lparr>parent_at := P_Remove_Term\<rparr>)
      | P_Remove_Term \<Rightarrow> Some ((if caught_sigterm s then remove_file s else s)\<lparr>parent_at := P_Remove\<rparr>)
      | P_Remove \<Rightarrow> Some ((remove_file s)\<lparr>parent_at := P_Exited 0\<rparr>)
      | P_Exited n \<Rightarrow> None
      | P_Killed \<Rightarrow> None)"

text \<open>
  A signal to the parent, \<^verbatim>\<open>SIGINT\<close> or \<^verbatim>\<open>SIGTERM\<close>; one whose handler could not be installed ends it. The
  handlers are installed without \<^verbatim>\<open>SA_RESTART\<close>: a blocked \<^verbatim>\<open>accept\<close> is interrupted, and the loop goes on
  as after an error.
\<close>

definition take_signal :: "nat \<Rightarrow> fork_server \<Rightarrow> fork_server option" where
  "take_signal n s =
     (if n \<notin> {SIGINT, SIGTERM} then None
      else case parent_at s of
        P_Exited st \<Rightarrow> None
      | P_Killed \<Rightarrow> None
      | P_Waiting \<Rightarrow>
          if n \<in> handled s then Some ((signal_handler n s)\<lparr>parent_at := P_Check\<rparr>) else Some (s\<lparr>parent_at := P_Killed\<rparr>)
      | _ \<Rightarrow> if n \<in> handled s then Some (signal_handler n s) else Some (s\<lparr>parent_at := P_Killed\<rparr>))"

text \<open>From the start of \<^verbatim>\<open>main\<close> to the loop: the status with which it ends, or the state.\<close>

record fork_env =
  sigterm_ok :: bool
  sigint_ok :: bool
  daemon_fork :: int
  addresses :: "addr_result list option"
  listen_result :: bool

fun bind_first :: "addr_result list \<Rightarrow> nat set \<Rightarrow> (nat + nat option) \<times> nat set" where
  "bind_first [] S = (Inr None, S)"
| "bind_first (p # ps) S =
     (case socket_fd p of
        None \<Rightarrow> bind_first ps S
      | Some fd \<Rightarrow>
          if \<not> setsockopt_ok p then (Inl 1, insert fd S)
          else if \<not> bind_ok p then bind_first ps (insert fd S - {fd})
          else (Inr (Some fd), insert fd S))"

definition fork_start :: "fork_env \<Rightarrow> string list \<Rightarrow> fork_server \<Rightarrow> (nat + fork_server) option" where
  "fork_start E argv s = do {
     m \<leftarrow> SLIST_INIT thread_queue (mem s);
     let s1 = s\<lparr>mem := m, handled := (if sigterm_ok E then {SIGTERM} else {}) \<union> (if sigint_ok E then {SIGINT} else {})\<rparr>;
     if run_as_daemon argv \<and> daemon_fork E < 0 then Some (Inl 255)
     else if run_as_daemon argv \<and> daemon_fork E > 0 then Some (Inl 0)
     else case addresses E of
       None \<Rightarrow> Some (Inl 1)
     | Some serverinfo \<Rightarrow>
         (case bind_first serverinfo (fds s1) of
            (Inl status, S) \<Rightarrow> Some (Inl status)
          | (Inr None, S) \<Rightarrow> Some (Inl 1)
          | (Inr (Some fd), S) \<Rightarrow>
              if \<not> listen_result E then Some (Inl 1)
              else Some (Inr (s1\<lparr>fds := S, sockfd := fd, parent_at := P_Check\<rparr>)))
   }"

text \<open>The process before \<^verbatim>\<open>main\<close>, with the data file as it is on the disk.\<close>

definition fork_process :: "byte list option \<Rightarrow> nat set \<Rightarrow> fork_server" where
  "fork_process disk open_fds =
     \<lparr>contents = (\<lambda>n. if n = 0 then (case disk of None \<Rightarrow> [] | Some bs \<Rightarrow> bs) else []),
      filepath = (case disk of None \<Rightarrow> None | Some bs \<Rightarrow> Some 0), next_inode = 1, history = (\<lambda>n. []),
      children = Map.empty, parent_at = P_Check, sockfd = 0, fds = open_fds, caught_sigint = False,
      caught_sigterm = False, handled = {}, mem = \<lparr>cell = [Head thread_queue \<mapsto> NULL], addr = Map.empty\<rparr>,
      statuses = Map.empty, joined = []\<rparr>"

section \<open>Runs\<close>

datatype fork_event = Parent parent_event | Child nat child_event | Signal nat

fun fork_next :: "fork_event \<Rightarrow> fork_server \<Rightarrow> fork_server option" where
  "fork_next (Parent ev) s = parent_next ev s"
| "fork_next (Child i ev) s = child_next i ev s"
| "fork_next (Signal n) s = take_signal n s"

fun fork_run :: "fork_event list \<Rightarrow> fork_server \<Rightarrow> fork_server option" where
  "fork_run [] s = Some s"
| "fork_run (ev # evs) s = do { s1 \<leftarrow> fork_next ev s; fork_run evs s1 }"

section \<open>Files and replies\<close>

definition base_of :: "byte list option \<Rightarrow> nat \<Rightarrow> byte list" where
  "base_of disk n = (if n = 0 then (case disk of None \<Rightarrow> [] | Some bs \<Rightarrow> bs) else [])"

text \<open>A reply is the file as it was at one moment, at which all strings of the child were in it.\<close>

definition snapshot :: "byte list \<Rightarrow> appends \<Rightarrow> nat \<Rightarrow> child \<Rightarrow> bool" where
  "snapshot base h i c \<longleftrightarrow>
     (\<exists>k \<le> length h. given c = file_with base (take k h) \<and> part i (take k h) = concat (got c))"

section \<open>Invariant\<close>

definition child_inv :: "(nat \<Rightarrow> byte list) \<Rightarrow> (nat \<Rightarrow> appends) \<Rightarrow> nat \<Rightarrow> child \<Rightarrow> bool" where
  "child_inv base H i c \<longleftrightarrow>
     (\<forall>n. n \<noteq> inode c \<longrightarrow> part i (H n) = []) \<and>
     part i (H (inode c)) @ stream c = concat (got c) \<and>
     (case child_at c of
        Ch_Open \<Rightarrow> got c = [] \<and> given c = []
      | Ch_Recv \<Rightarrow> given c = []
      | Ch_Rewind \<Rightarrow> given c = []
      | Ch_Read pos \<Rightarrow> stream c = [] \<and> pos \<le> length (file_with (base (inode c)) (H (inode c))) \<and>
          given c = take pos (file_with (base (inode c)) (H (inode c)))
      | Ch_Flush None \<Rightarrow> stream c = [] \<and> snapshot (base (inode c)) (H (inode c)) i c
      | Ch_Flush (Some pos) \<Rightarrow> stream c = [] \<and> pos \<le> length (file_with (base (inode c)) (H (inode c))) \<and>
          given c = take pos (file_with (base (inode c)) (H (inode c)))
      | Ch_Close \<Rightarrow> stream c = [] \<and> snapshot (base (inode c)) (H (inode c)) i c
      | Ch_Exited st \<Rightarrow> if st = 0 then stream c = [] \<and> snapshot (base (inode c)) (H (inode c)) i c
                       else st = 1 \<and> got c = [] \<and> given c = []
      | Ch_Killed \<Rightarrow> stream c = [])"

definition files_inv :: "byte list option \<Rightarrow> fork_server \<Rightarrow> bool" where
  "files_inv disk s \<longleftrightarrow>
     (\<forall>n. contents s n = file_with (base_of disk n) (history s n)) \<and>
     0 < next_inode s \<and> (\<forall>n \<ge> next_inode s. history s n = []) \<and>
     (\<forall>n. filepath s = Some n \<longrightarrow> n < next_inode s) \<and>
     (\<forall>i c. children s i = Some c \<longrightarrow> inode c < next_inode s) \<and>
     (\<forall>i n. children s i = None \<longrightarrow> part i (history s n) = []) \<and>
     (\<forall>i c. children s i = Some c \<longrightarrow> child_inv (base_of disk) (history s) i c)"

text \<open>The descriptors of the parent beside those it was started with.\<close>

definition parent_fds :: "nat \<Rightarrow> nat set \<Rightarrow> parent_pc \<Rightarrow> nat set \<Rightarrow> bool" where
  "parent_fds k S p F \<longleftrightarrow>
     (case p of
        P_Fork fd \<Rightarrow> fd \<notin> insert k S \<and> F = insert fd (insert k S)
      | P_Close fd \<Rightarrow> fd \<notin> insert k S \<and> F = insert fd (insert k S)
      | P_Remove_Int \<Rightarrow> F = S
      | P_Remove_Term \<Rightarrow> F = S
      | P_Remove \<Rightarrow> F = S
      | P_Exited st \<Rightarrow> st = 0 \<and> F = S
      | P_Killed \<Rightarrow> True
      | _ \<Rightarrow> F = insert k S)"

lemma parent_fds_simps [simp]:
  "parent_fds k S P_Check F \<longleftrightarrow> F = insert k S"
  "parent_fds k S P_Accept F \<longleftrightarrow> F = insert k S"
  "parent_fds k S P_Waiting F \<longleftrightarrow> F = insert k S"
  "parent_fds k S (P_Fork fd) F \<longleftrightarrow> fd \<notin> insert k S \<and> F = insert fd (insert k S)"
  "parent_fds k S (P_Close fd) F \<longleftrightarrow> fd \<notin> insert k S \<and> F = insert fd (insert k S)"
  "parent_fds k S P_Clean F \<longleftrightarrow> F = insert k S"
  "parent_fds k S P_Shut F \<longleftrightarrow> F = insert k S"
  "parent_fds k S P_Remove_Int F \<longleftrightarrow> F = S"
  "parent_fds k S P_Remove_Term F \<longleftrightarrow> F = S"
  "parent_fds k S P_Remove F \<longleftrightarrow> F = S"
  "parent_fds k S (P_Exited st) F \<longleftrightarrow> st = 0 \<and> F = S"
  "parent_fds k S P_Killed F"
  by (simp_all add: parent_fds_def)

definition parent_inv :: "nat set \<Rightarrow> fork_server \<Rightarrow> bool" where
  "parent_inv open_fds s \<longleftrightarrow>
     slist (mem s) thread_queue [] \<and> sockfd s \<notin> open_fds \<and>
     parent_fds (sockfd s) open_fds (parent_at s) (fds s)"

lemma snapshot_at [simp]: "snapshot base h i (c\<lparr>child_at := q\<rparr>) = snapshot base h i c"
  by (simp add: snapshot_def)

text \<open>What one child appends does not concern the others.\<close>

lemma snapshot_later: "snapshot base h i c \<Longrightarrow> snapshot base (h @ x) i c"
  unfolding snapshot_def by (metis le_trans length_append le_add1 take_append_le)

lemma child_inv_other:
  assumes "child_inv base H i c" and "i \<noteq> j"
  shows "child_inv base (H(n := H n @ [(j, bs)])) i c"
  using assms by (cases "child_at c") (auto simp: child_inv_def snapshot_later split: option.split)

lemma files_inv_append:
  assumes inv: "files_inv disk s" and c: "children s i = Some c"
    and c': "child_inv (base_of disk) (history (append_file i (inode c) bs s)) i c'" "inode c' = inode c"
  shows "files_inv disk (set_child i c' (append_file i (inode c) bs s))"
proof -
  have "0 < next_inode s" "\<not> next_inode s \<le> inode c"
    using inv c unfolding files_inv_def by (simp, metis linorder_not_le)
  moreover have "child_inv (base_of disk) (history (append_file i (inode c) bs s)) j d"
    if "children s j = Some d" "j \<noteq> i" for j d
    using inv that by (simp add: files_inv_def append_file_def child_inv_other)
  ultimately show ?thesis using inv c c' by (auto simp: files_inv_def append_file_def)
qed

lemma files_inv_child:
  assumes "files_inv disk s" and "child_inv (base_of disk) (history s) i c'" and "inode c' < next_inode s"
  shows "files_inv disk (set_child i c' s)"
  using assms by (auto simp: files_inv_def)

lemma files_inv_open:
  assumes "files_inv disk s" and "open_append s = (n, s1)"
  shows "files_inv disk s1 \<and> n < next_inode s1 \<and> history s1 = history s \<and> children s1 = children s"
proof (cases "filepath s")
  case None
  have "history s (next_inode s) = []" "base_of disk (next_inode s) = []"
    using assms(1) by (auto simp: files_inv_def base_of_def)
  moreover have "(\<forall>i c. children s i = Some c \<longrightarrow> inode c < Suc (next_inode s))"
    using assms(1) by (metis files_inv_def less_Suc_eq)
  ultimately show ?thesis using assms None by (auto simp: open_append_def files_inv_def)
next
  case (Some n')
  then show ?thesis using assms by (auto simp: open_append_def files_inv_def)
qed

section \<open>Every step keeps the invariant\<close>

lemma child_inv_writes:
  assumes "child_inv base H i c" and "child_at c = Ch_Recv \<or> child_at c = Ch_Rewind"
  shows "child_inv base (H(inode c := H (inode c) @ [(i, take k (stream c))])) i (c\<lparr>stream := drop k (stream c)\<rparr>)"
  using assms by (auto simp: child_inv_def)

lemma child_writes:
  assumes "files_inv disk s" and "children s i = Some c" and "child_at c = Ch_Recv \<or> child_at c = Ch_Rewind"
  shows "files_inv disk (set_child i (c\<lparr>stream := drop k (stream c)\<rparr>) (append_file i (inode c) (take k (stream c)) s))"
proof -
  have "child_inv (base_of disk) (history s) i c" using assms(1,2) by (simp add: files_inv_def)
  from child_inv_writes [OF this assms(3)] show ?thesis
    by (intro files_inv_append assms(1,2)) (use assms(3) in \<open>auto simp: append_file_def\<close>)
qed

lemma child_reads_end:
  assumes "child_inv base H i c" and "child_at c = Ch_Read pos"
    and "length (file_with (base (inode c)) (H (inode c))) \<le> pos + length chunk"
    and "chunk = take 1024 (drop pos (file_with (base (inode c)) (H (inode c))))"
    and "q = Ch_Close \<or> q = Ch_Flush None"
  shows "child_inv base H i (c\<lparr>given := given c @ chunk, sent := x, child_at := q\<rparr>)"
proof -
  let ?F = "file_with (base (inode c)) (H (inode c))"
  have c: "stream c = []" "given c = take pos ?F" "pos \<le> length ?F"
    "part i (H (inode c)) @ stream c = concat (got c)"
    using assms(1,2) by (auto simp: child_inv_def)
  have "chunk = drop pos ?F" using assms(3,4) c(3) by auto
  with c have "given c @ chunk = ?F" by simp
  with c have "snapshot (base (inode c)) (H (inode c)) i (c\<lparr>given := given c @ chunk, sent := x, child_at := q\<rparr>)"
    unfolding snapshot_def by (intro exI [of _ "length (H (inode c))"]) simp
  with c assms(1,5) show ?thesis by (auto simp: child_inv_def)
qed

lemma child_reads_on:
  assumes "child_inv base H i c" and "child_at c = Ch_Read pos" and "length chunk = 1024"
    and "chunk = take 1024 (drop pos (file_with (base (inode c)) (H (inode c))))"
  shows "child_inv base H i (c\<lparr>given := given c @ chunk, sent := x, child_at := Ch_Flush (Some (pos + 1024))\<rparr>)"
  using assms by (auto simp: child_inv_def take_add)

lemma child_next_inv:
  assumes inv: "files_inv disk s" and step: "child_next i ev s = Some s'"
  shows "files_inv disk s'"
proof -
  from step obtain c where c: "children s i = Some c" by (auto simp: child_next_def bind_eq_Some_conv)
  have ci: "child_inv (base_of disk) (history s) i c"
    and node: "inode c < next_inode s"
    and content: "contents s (inode c) = file_with (base_of disk (inode c)) (history s (inode c))"
    using inv c by (auto simp: files_inv_def)
  show ?thesis
  proof (cases "child_at c")
    case Ch_Open
    obtain n s1 where op: "open_append s = (n, s1)" by fastforce
    note s1 = files_inv_open [OF inv op]
    have p: "part i (history s n) = []" for n using ci Ch_Open by (cases "n = inode c") (auto simp: child_inv_def)
    have "stream c = []" "got c = []" "given c = []" using ci Ch_Open by (auto simp: child_inv_def)
    with p have "child_inv (base_of disk) (history s) i (c\<lparr>inode := n, child_at := Ch_Recv\<rparr>)"
      "child_inv (base_of disk) (history s) i (c\<lparr>child_at := Ch_Exited 1\<rparr>)"
      by (auto simp: child_inv_def)
    then have "files_inv disk (set_child i (c\<lparr>inode := n, child_at := Ch_Recv\<rparr>) s1)"
      "files_inv disk (set_child i (c\<lparr>child_at := Ch_Exited 1\<rparr>) s)"
      using files_inv_child [of disk s1 i "c\<lparr>inode := n, child_at := Ch_Recv\<rparr>"]
        files_inv_child [of disk s i "c\<lparr>child_at := Ch_Exited 1\<rparr>"] s1 inv node by simp_all
    with step c Ch_Open op show ?thesis by (auto simp: child_next_def split: child_event.splits bool.splits)
  next
    case Ch_Recv
    have "files_inv disk (set_child i (c\<lparr>child_at := Ch_Rewind\<rparr>) s)"
      using ci Ch_Recv node by (intro files_inv_child inv) (simp_all add: child_inv_def)
    moreover have "files_inv disk (set_child i (c\<lparr>stream := stream c @ str, got := got c @ [str],
        child_at := q\<rparr>) s)" if "q = Ch_Rewind \<or> q = Ch_Recv" for str q
      using ci Ch_Recv that node by (intro files_inv_child inv) (auto simp: child_inv_def)
    ultimately show ?thesis using step c Ch_Recv child_writes [OF inv c]
      by (auto simp: child_next_def Let_def split: child_event.splits option.splits if_split_asm)
  next
    case Ch_Rewind
    have "files_inv disk (set_child i (c\<lparr>child_at := Ch_Read 0\<rparr>) s)" if "stream c = []"
      using ci Ch_Rewind that node by (intro files_inv_child inv) (simp_all add: child_inv_def)
    with step c Ch_Rewind child_writes [OF inv c] show ?thesis
      by (auto simp: child_next_def split: child_event.splits if_split_asm)
  next
    case (Ch_Read pos)
    define chunk where "chunk = take 1024 (drop pos (contents s (inode c)))"
    have ch: "chunk = take 1024 (drop pos (file_with (base_of disk (inode c)) (history s (inode c))))"
      by (simp add: chunk_def content)
    have short: "length (file_with (base_of disk (inode c)) (history s (inode c))) \<le> pos + length chunk"
      if "length chunk < 1024" using that by (simp add: ch)
    note ending = child_reads_end [OF ci Ch_Read _ ch] and going = child_reads_on [OF ci Ch_Read _ ch]
    have le: "length chunk \<le> 1024" by (simp add: chunk_def)
    have "files_inv disk (set_child i (c\<lparr>child_at := Ch_Close\<rparr>) s)" if "chunk = []"
      using ending [of Ch_Close "sent c"] short that node by (intro files_inv_child inv) simp_all
    moreover have "files_inv disk (set_child i (c\<lparr>child_at := Ch_Killed\<rparr>) s)"
      using ci Ch_Read node by (intro files_inv_child inv) (auto simp: child_inv_def)
    moreover have "files_inv disk (set_child i (c\<lparr>given := given c @ chunk, sent := x,
        child_at := Ch_Flush (if length chunk < 1024 then None else Some (pos + length chunk))\<rparr>) s)" for x
      using ending [of "Ch_Flush None" x] going [of x] short le node by (intro files_inv_child inv) auto
    ultimately show ?thesis
      using step c Ch_Read unfolding child_next_def
      by (auto simp: chunk_def [symmetric] Let_def simp del: take_eq_Nil drop_eq_Nil split: child_event.splits option.splits if_split_asm)
  next
    case (Ch_Flush next_pos)
    have "files_inv disk (set_child i (c\<lparr>child_at := (case next_pos of None \<Rightarrow> Ch_Close | Some pos \<Rightarrow> Ch_Read pos)\<rparr>) s)"
    proof (rule files_inv_child [OF inv])
      show "child_inv (base_of disk) (history s) i
          (c\<lparr>child_at := (case next_pos of None \<Rightarrow> Ch_Close | Some pos \<Rightarrow> Ch_Read pos)\<rparr>)"
        using ci Ch_Flush by (cases next_pos) (auto simp: child_inv_def)
    qed (use node in simp)
    with step c Ch_Flush show ?thesis by (auto simp: child_next_def split: if_split_asm)
  next
    case Ch_Close
    have "files_inv disk (set_child i (c\<lparr>child_at := Ch_Exited 0\<rparr>) s)"
      using ci Ch_Close node by (intro files_inv_child inv) (auto simp: child_inv_def snapshot_def)
    with step c Ch_Close show ?thesis by (auto simp: child_next_def split: if_split_asm)
  qed (use step c in \<open>simp_all add: child_next_def\<close>)
qed

lemma clean_queue_empty:
  "slist (mem s) thread_queue [] \<Longrightarrow> clean_queue s = Some s"
  by (simp add: clean_queue_def SLIST_FOREACH_SAFE_def slist_def foreach_safe.simps)

lemma files_inv_fork:
  assumes "files_inv disk s" and "children s i = None"
  shows "files_inv disk (set_child i (new_child fd) (s\<lparr>parent_at := q\<rparr>))"
proof -
  have "child_inv (base_of disk) (history s) i (new_child fd)"
    using assms by (simp add: files_inv_def child_inv_def new_child_def)
  with assms show ?thesis by (auto simp: files_inv_def new_child_def)
qed

lemma files_inv_cong:
  assumes "contents s' = contents s" "history s' = history s" "children s' = children s"
    "next_inode s' = next_inode s" "filepath s' = filepath s \<or> filepath s' = None"
  shows "files_inv disk s \<Longrightarrow> files_inv disk s'"
  using assms by (auto simp: files_inv_def)

lemma parent_next_parent:
  assumes "parent_inv S s"
  shows "case parent_next ev s of None \<Rightarrow> True | Some s' \<Rightarrow> parent_inv S s'"
proof -
  have q: "clean_queue s = Some s" using assms by (simp add: parent_inv_def clean_queue_empty)
  with assms show ?thesis
    by (cases "parent_at s"; cases ev; simp add: parent_inv_def parent_next_def remove_file_def split: option.split)
qed

lemma take_signal_parent:
  "parent_inv S s \<Longrightarrow> case take_signal n s of None \<Rightarrow> True | Some s' \<Rightarrow> parent_inv S s'"
  by (cases "parent_at s"; simp add: parent_inv_def take_signal_def signal_handler_def)

lemma parent_next_files:
  assumes "files_inv disk s" and "parent_inv S s" and "parent_next ev s = Some s'"
  shows "files_inv disk s'"
proof (cases "\<exists>fd. parent_at s = P_Fork fd")
  case True
  then obtain fd where fd: "parent_at s = P_Fork fd" by blast
  have "files_inv disk (s\<lparr>parent_at := P_Close fd\<rparr>)"
    by (rule files_inv_cong [OF _ _ _ _ _ assms(1)]) simp_all
  with fd assms(3) files_inv_fork [OF assms(1)] show ?thesis
    by (auto simp: parent_next_def split: parent_event.splits option.splits if_split_asm)
next
  case False
  have q: "slist (mem s) thread_queue []" using assms(2) by (simp add: parent_inv_def)
  from False assms(3) have "contents s' = contents s \<and> history s' = history s \<and> children s' = children s \<and>
      next_inode s' = next_inode s \<and> (filepath s' = filepath s \<or> filepath s' = None)"
    by (cases "parent_at s")
      (auto simp: parent_next_def remove_file_def clean_queue_empty [OF q] split: parent_event.splits option.splits if_split_asm)
  then show ?thesis using files_inv_cong [of s' s] assms(1) by blast
qed

lemma take_signal_files:
  assumes "files_inv disk s" and "take_signal n s = Some s'"
  shows "files_inv disk s'"
proof -
  have "contents s' = contents s \<and> history s' = history s \<and> children s' = children s \<and>
      next_inode s' = next_inode s \<and> filepath s' = filepath s"
    using assms(2) by (auto simp: take_signal_def signal_handler_def split: parent_pc.splits if_split_asm)
  then show ?thesis using files_inv_cong [of s' s] assms(1) by blast
qed

lemma child_next_parent:
  assumes "child_next i ev s = Some s'" and "parent_inv S s"
  shows "parent_inv S s'"
proof -
  from assms(1) obtain c where c: "children s i = Some c" by (auto simp: child_next_def bind_eq_Some_conv)
  have "mem s' = mem s \<and> sockfd s' = sockfd s \<and> parent_at s' = parent_at s \<and> fds s' = fds s"
    using assms(1) c by (cases "child_at c")
      (auto simp: child_next_def open_append_def append_file_def Let_def
        split: child_event.splits option.splits bool.splits if_split_asm)
  with assms(2) show ?thesis by (simp add: parent_inv_def)
qed

lemma fork_next_inv:
  assumes "files_inv disk s" and "parent_inv S s" and "fork_next ev s = Some s'"
  shows "files_inv disk s' \<and> parent_inv S s'"
proof (cases ev)
  case (Parent e)
  with assms parent_next_files parent_next_parent [OF assms(2), of e] show ?thesis by auto
next
  case (Child i e)
  with assms child_next_inv child_next_parent show ?thesis by simp
next
  case (Signal n)
  with assms take_signal_files take_signal_parent [OF assms(2), of n] show ?thesis by auto
qed

lemma fork_run_inv:
  "fork_run evs s = Some s' \<Longrightarrow> files_inv disk s \<Longrightarrow> parent_inv S s \<Longrightarrow> files_inv disk s' \<and> parent_inv S s'"
  by (induction evs arbitrary: s) (auto simp: bind_eq_Some_conv dest: fork_next_inv)

section \<open>Start\<close>

lemma bind_first_fds:
  assumes "\<forall>p \<in> set ps. \<forall>fd. socket_fd p = Some fd \<longrightarrow> fd \<notin> S" and "bind_first ps S = (Inr (Some fd), S')"
  shows "fd \<notin> S \<and> S' = insert fd S"
  using assms
proof (induction ps)
  case (Cons p ps)
  show ?case
  proof (cases "socket_fd p")
    case (Some fd')
    then have "insert fd' S - {fd'} = S" using Cons.prems(1) by simp
    with Cons Some show ?thesis by (auto split: if_split_asm)
  qed (use Cons in simp)
qed simp

definition fresh_sockets :: "fork_env \<Rightarrow> nat set \<Rightarrow> bool" where
  "fresh_sockets E S \<longleftrightarrow>
     (\<forall>ps. addresses E = Some ps \<longrightarrow> (\<forall>p \<in> set ps. \<forall>fd. socket_fd p = Some fd \<longrightarrow> fd \<notin> S))"

lemma fork_start_inv:
  assumes "fork_start E argv (fork_process disk S) = Some (Inr s)" and "fresh_sockets E S"
  shows "files_inv disk s \<and> parent_inv S s"
proof -
  let ?p = "fork_process disk S"
  have init: "SLIST_INIT thread_queue (mem ?p) = Some (mem ?p)"
    by (auto simp: SLIST_INIT_def set_cell_def fork_process_def)
  from assms(1) obtain ps fd where ps: "addresses E = Some ps" "bind_first ps S = (Inr (Some fd), fds s)"
    and s: "mem s = mem ?p" "sockfd s = fd" "parent_at s = P_Check" "contents s = contents ?p"
      "history s = history ?p" "children s = children ?p" "next_inode s = next_inode ?p" "filepath s = filepath ?p"
    unfolding fork_start_def init
    by (auto simp: fork_process_def Let_def split: if_split_asm option.splits prod.splits sum.splits)
  have "fd \<notin> S \<and> fds s = insert fd S"
    using bind_first_fds [OF _ ps(2)] assms(2) ps(1) by (simp add: fresh_sockets_def)
  moreover have "files_inv disk ?p"
    by (auto simp: files_inv_def fork_process_def base_of_def split: option.splits)
  moreover have "slist (mem ?p) thread_queue []" by (simp add: slist_def fork_process_def)
  ultimately show ?thesis using s files_inv_cong [of s ?p] by (simp add: parent_inv_def)
qed

section \<open>The timer thread\<close>

text \<open>
  \<^verbatim>\<open>threadFunc\<close> and \<^verbatim>\<open>myTime\<close>, which \<^verbatim>\<open>main\<close> never starts. Both lock the one mutex, which is not
  recursive: locking it while the thread holds it never returns. A round is whether the file can
  be opened and the text of \<^verbatim>\<open>strftime\<close>; the rounds end when a signal has been caught.
\<close>

record timer_state =
  mutex_held :: bool
  time_file :: "byte list"
  status :: nat

definition RUNNING :: nat where "RUNNING = 0"

definition mutex_lock :: "timer_state \<Rightarrow> timer_state option" where
  "mutex_lock s = (if mutex_held s then None else Some (s\<lparr>mutex_held := True\<rparr>))"

definition mutex_unlock :: "timer_state \<Rightarrow> timer_state option" where
  "mutex_unlock s = (if mutex_held s then Some (s\<lparr>mutex_held := False\<rparr>) else None)"

definition myTime :: "bool \<Rightarrow> byte list \<Rightarrow> timer_state \<Rightarrow> timer_state option" where
  "myTime fopen_ok str s = do {
     s1 \<leftarrow> mutex_lock s;
     if fopen_ok then mutex_unlock (s1\<lparr>time_file := time_file s1 @ str @ [newline]\<rparr>) else mutex_unlock s1
   }"

fun timer_rounds :: "(bool \<times> byte list) list \<Rightarrow> timer_state \<Rightarrow> timer_state option" where
  "timer_rounds [] s = Some s"
| "timer_rounds (r # rs) s = do {
     s1 \<leftarrow> mutex_lock s;
     s2 \<leftarrow> myTime (fst r) (snd r) s1;
     s3 \<leftarrow> mutex_unlock s2;
     timer_rounds rs s3
   }"

definition threadFunc :: "(bool \<times> byte list) list \<Rightarrow> timer_state \<Rightarrow> timer_state option" where
  "threadFunc rounds s = do {
     s1 \<leftarrow> timer_rounds rounds (s\<lparr>status := RUNNING\<rparr>);
     s2 \<leftarrow> mutex_lock s1;
     mutex_unlock (s2\<lparr>status := COMPLETED\<rparr>)
   }"

text \<open>The first round locks the mutex twice: the thread writes nothing and never completes.\<close>

lemma threadFunc_deadlocks:
  assumes "\<not> mutex_held s"
  shows "threadFunc rounds s = (if rounds = [] then Some (s\<lparr>status := COMPLETED\<rparr>) else None)"
  using assms by (cases rounds; cases s) (simp_all add: threadFunc_def mutex_lock_def mutex_unlock_def myTime_def)

section \<open>Properties\<close>

definition demo_fork_env :: fork_env where
  "demo_fork_env = \<lparr>sigterm_ok = True, sigint_ok = True, daemon_fork = 0,
     addresses = Some [\<lparr>socket_fd = Some 3, setsockopt_ok = True, bind_ok = True\<rparr>], listen_result = True\<rparr>"

definition demo_accept :: "nat \<Rightarrow> nat \<Rightarrow> fork_event list" where
  "demo_accept fd pid = [Parent Proceeds, Parent Proceeds, Parent (Accepts (Some fd)), Parent (Forks (Some pid)),
     Parent Proceeds, Parent Proceeds]"

text \<open>Child 7 writes its packet in two pieces, between which child 8 writes its own.\<close>

definition demo_mix :: "fork_event list" where
  "demo_mix = demo_accept 4 7 @ demo_accept 4 8 @
     [Child 7 (Opens True), Child 8 (Opens True), Child 7 (Receives (Some [CHR ''a'', CHR ''b''])),
      Child 7 (Writes_Out 1), Child 8 (Receives (Some [CHR ''c'', newline])), Child 8 (Writes_Out 2),
      Child 8 Goes_On, Child 7 (Receives (Some [newline])), Child 7 (Writes_Out 2),
      Child 8 (Reads (Some 3)), Child 8 Goes_On, Child 8 Goes_On]"

lemma demo_mix_run:
  "\<exists>s0 s c. fork_start demo_fork_env [] (fork_process None {0, 1, 2}) = Some (Inr s0) \<and>
    fork_run demo_mix s0 = Some s \<and> contents s 1 = [CHR ''a'', CHR ''c'', newline, CHR ''b'', newline] \<and>
    children s 8 = Some c \<and> child_at c = Ch_Exited 0 \<and> got c = [[CHR ''c'', newline]] \<and> inode c = 1"
  by (simp add: fork_start_def demo_fork_env_def fork_process_def run_as_daemon_def SLIST_INIT_def set_cell_def
      demo_mix_def demo_accept_def parent_next_def child_next_def clean_queue_def SLIST_FOREACH_SAFE_def
      foreach_safe.simps new_child_def open_append_def append_file_def thread_queue_def Let_def)

text \<open>
  C16: The children of the forking server, in every interleaving with each other, with the parent and
  with signals. A file is what it was followed by what the children wrote, and what one child
  wrote and still has in its stream is what it received, in order. A child that has ended
  gave to \<^verbatim>\<open>send\<close> the whole file as it was at one moment, with everything it had received in it.
  (Packets of different children can be mixed in the file. The file takes all that the streams write.)
\<close>

theorem fork_replies:
  assumes "fork_start E argv (fork_process disk S) = Some (Inr s0)" and "fresh_sockets E S"
    and "fork_run evs s0 = Some s"
  shows "(\<forall>n. contents s n = file_with (base_of disk n) (history s n)) \<and>
    (\<forall>i c. children s i = Some c \<longrightarrow>
      part i (history s (inode c)) @ stream c = concat (got c) \<and>
      (\<forall>n. n \<noteq> inode c \<longrightarrow> part i (history s n) = []) \<and>
      (child_at c = Ch_Exited 0 \<longrightarrow> stream c = [] \<and>
        (\<exists>k \<le> length (history s (inode c)).
           given c = file_with (base_of disk (inode c)) (take k (history s (inode c))) \<and>
           part i (take k (history s (inode c))) = concat (got c))))"
proof -
  have "files_inv disk s" using fork_run_inv [OF assms(3)] fork_start_inv [OF assms(1,2)] by blast
  then have files: "\<forall>n. contents s n = file_with (base_of disk n) (history s n)"
    and inv: "\<And>i c. children s i = Some c \<Longrightarrow> child_inv (base_of disk) (history s) i c"
    by (simp_all add: files_inv_def)
  have "part i (history s (inode c)) @ stream c = concat (got c) \<and>
      (\<forall>n. n \<noteq> inode c \<longrightarrow> part i (history s n) = []) \<and>
      (child_at c = Ch_Exited 0 \<longrightarrow> stream c = [] \<and> snapshot (base_of disk (inode c)) (history s (inode c)) i c)"
    if "children s i = Some c" for i c
    using inv [OF that] by (auto simp: child_inv_def)
  with files show ?thesis unfolding snapshot_def by blast
qed

theorem fork_replies_witness:
  "\<exists>s0 s c. fork_start demo_fork_env [] (fork_process None {0, 1, 2}) = Some (Inr s0) \<and>
    fork_run demo_mix s0 = Some s \<and> contents s 1 = [CHR ''a'', CHR ''c'', newline, CHR ''b'', newline] \<and>
    children s 8 = Some c \<and>
    (\<exists>k \<le> length (history s 1). given c = file_with [] (take k (history s 1)) \<and>
      part 8 (take k (history s 1)) = [CHR ''c'', newline])"
proof -
  from demo_mix_run obtain s0 s c where s: "fork_start demo_fork_env [] (fork_process None {0, 1, 2}) = Some (Inr s0)"
    "fork_run demo_mix s0 = Some s" "contents s 1 = [CHR ''a'', CHR ''c'', newline, CHR ''b'', newline]"
    "children s 8 = Some c" "child_at c = Ch_Exited 0" "got c = [[CHR ''c'', newline]]" "inode c = 1" by blast
  have "fresh_sockets demo_fork_env {0, 1, 2}" by (simp add: fresh_sockets_def demo_fork_env_def)
  from conjunct2 [OF fork_replies [OF s(1) this s(2)]] s(4,5)
  have "\<exists>k \<le> length (history s (inode c)). given c = file_with (base_of None (inode c)) (take k (history s (inode c))) \<and>
      part 8 (take k (history s (inode c))) = concat (got c)" by blast
  then have "\<exists>k \<le> length (history s 1). given c = file_with [] (take k (history s 1)) \<and>
      part 8 (take k (history s 1)) = [CHR ''c'', newline]" using s(6,7) by (simp add: base_of_def)
  with s(1-4) show ?thesis by blast
qed

text \<open>
  The number of its own steps after which the parent has ended when a signal was caught. In and before
  \<^verbatim>\<open>accept\<close> there is no such number.
\<close>

fun to_end :: "parent_pc \<Rightarrow> nat" where
  "to_end (P_Fork fd) = 8"
| "to_end (P_Close fd) = 7"
| "to_end P_Clean = 6"
| "to_end P_Check = 5"
| "to_end P_Shut = 4"
| "to_end P_Remove_Int = 3"
| "to_end P_Remove_Term = 2"
| "to_end P_Remove = 1"
| "to_end p = 0"

definition caught :: "fork_server \<Rightarrow> bool" where
  "caught s \<longleftrightarrow> caught_sigint s \<or> caught_sigterm s"

definition parent_turns :: "fork_event list \<Rightarrow> nat" where
  "parent_turns evs = length (filter (\<lambda>ev. case ev of Parent e \<Rightarrow> True | _ \<Rightarrow> False) evs)"

text \<open>Children do not concern the parent, and signals only set its flags, unless they end or wake it.\<close>

lemma child_next_frame:
  assumes "child_next i ev s = Some s'"
  shows "parent_at s' = parent_at s \<and> caught s' = caught s \<and> handled s' = handled s"
proof -
  from assms obtain c where "children s i = Some c" by (auto simp: child_next_def bind_eq_Some_conv)
  with assms show ?thesis
    by (cases "child_at c")
      (auto simp: child_next_def open_append_def append_file_def caught_def Let_def
        split: child_event.splits option.splits bool.splits if_split_asm)
qed

lemma take_signal_frame:
  assumes "take_signal n s = Some s'"
  shows "handled s' = handled s" and "caught s \<Longrightarrow> caught s'"
    and "parent_at s' = parent_at s \<or> parent_at s = P_Waiting \<and> parent_at s' = P_Check \<or>
      parent_at s' = P_Killed \<and> n \<notin> handled s \<and> n \<in> {SIGINT, SIGTERM}"
  using assms by (auto simp: take_signal_def signal_handler_def caught_def split: parent_pc.splits if_split_asm)

lemma parent_next_frame:
  assumes "parent_inv S s" and "parent_next ev s = Some s'"
  shows "handled s' = handled s \<and> caught s' = caught s \<and> parent_at s' \<noteq> P_Killed"
proof -
  have "clean_queue s = Some s" using assms(1) by (simp add: parent_inv_def clean_queue_empty)
  with assms(2) show ?thesis
    by (cases "parent_at s"; cases ev)
      (auto simp: parent_next_def remove_file_def caught_def split: option.splits if_split_asm)
qed

text \<open>Once a signal was caught, each step of the parent brings it one step nearer to its end.\<close>

lemma parent_next_to_end:
  assumes "parent_inv S s" and "parent_next ev s = Some s'" and "caught s" and "parent_at s \<notin> {P_Accept, P_Waiting}"
  shows "to_end (parent_at s) = Suc (to_end (parent_at s')) \<and> parent_at s' \<notin> {P_Accept, P_Waiting, P_Killed}"
proof -
  have "clean_queue s = Some s" using assms(1) by (simp add: parent_inv_def clean_queue_empty)
  with assms(2-4) show ?thesis
    by (cases "parent_at s"; cases ev)
      (auto simp: parent_next_def remove_file_def caught_def split: option.splits if_split_asm)
qed

lemma ending_run:
  "fork_run evs s = Some s' \<Longrightarrow> files_inv disk s \<Longrightarrow> parent_inv S s \<Longrightarrow> caught s \<Longrightarrow>
   parent_at s \<notin> {P_Accept, P_Waiting} \<Longrightarrow>
   parent_at s' = P_Killed \<or> to_end (parent_at s) = to_end (parent_at s') + parent_turns evs \<and> parent_at s' \<notin> {P_Accept, P_Waiting}"
proof (induction evs arbitrary: s)
  case Nil
  then show ?case by (simp add: parent_turns_def)
next
  case (Cons ev evs)
  from Cons.prems(1) obtain s1 where s1: "fork_next ev s = Some s1" "fork_run evs s1 = Some s'"
    by (auto simp: bind_eq_Some_conv)
  note inv = fork_next_inv [OF Cons.prems(2,3) s1(1)]
  have killed: "parent_at s' = P_Killed" if "parent_at s1 = P_Killed"
    using s1(2) that
  proof (induction evs arbitrary: s1)
    case (Cons e es)
    then obtain s2 where "fork_next e s1 = Some s2" "fork_run es s2 = Some s'" by (auto simp: bind_eq_Some_conv)
    with Cons show ?case
      by (cases e) (auto simp: parent_next_def take_signal_def split: if_split_asm dest: child_next_frame)
  qed simp
  show ?case
  proof (cases ev)
    case (Parent e)
    with s1(1) have "parent_next e s = Some s1" by simp
    from parent_next_to_end [OF Cons.prems(3) this Cons.prems(4,5)] parent_next_frame [OF Cons.prems(3) this]
      Cons.IH [OF s1(2)] inv Cons.prems(4) Parent show ?thesis by (auto simp: parent_turns_def)
  next
    case (Child i e)
    with s1(1) have "child_next i e s = Some s1" by simp
    from child_next_frame [OF this] Cons.IH [OF s1(2)] inv Cons.prems(4,5) Child show ?thesis
      by (auto simp: parent_turns_def)
  next
    case (Signal n)
    with s1(1) have "take_signal n s = Some s1" by simp
    note t = take_signal_frame [OF this]
    show ?thesis
    proof (cases "parent_at s1 = P_Killed")
      case False
      with t(3) Cons.prems(5) have "parent_at s1 = parent_at s" by auto
      with t(2) Cons.IH [OF s1(2)] inv Cons.prems(4,5) Signal show ?thesis by (auto simp: parent_turns_def)
    qed (use killed in simp)
  qed
qed

text \<open>The parent is killed only by a signal without a handler.\<close>

lemma fork_run_killed:
  "fork_run evs s = Some s' \<Longrightarrow> files_inv disk s \<Longrightarrow> parent_inv S s \<Longrightarrow>
   parent_at s \<noteq> P_Killed \<or> \<not> {SIGINT, SIGTERM} \<subseteq> handled s \<Longrightarrow>
   handled s' = handled s \<and> (parent_at s' \<noteq> P_Killed \<or> \<not> {SIGINT, SIGTERM} \<subseteq> handled s)"
proof (induction evs arbitrary: s)
  case (Cons ev evs)
  from Cons.prems(1) obtain s1 where s1: "fork_next ev s = Some s1" "fork_run evs s1 = Some s'"
    by (auto simp: bind_eq_Some_conv)
  note inv = fork_next_inv [OF Cons.prems(2,3) s1(1)]
  have "handled s1 = handled s \<and> (parent_at s1 \<noteq> P_Killed \<or> \<not> {SIGINT, SIGTERM} \<subseteq> handled s)"
  proof (cases ev)
    case (Parent e)
    then show ?thesis using s1(1) parent_next_frame [OF Cons.prems(3), of e s1] by simp
  next
    case (Child i e)
    then show ?thesis using s1(1) child_next_frame [of i e s s1] Cons.prems(4) by simp
  next
    case (Signal n)
    with s1(1) have "take_signal n s = Some s1" by simp
    from take_signal_frame [OF this] Cons.prems(4) show ?thesis by auto
  qed
  with Cons.IH [OF s1(2)] inv show ?case by auto
qed simp

lemma handled_start:
  "fork_start E argv (fork_process disk S) = Some (Inr s) \<Longrightarrow>
   handled s = (if sigterm_ok E then {SIGTERM} else {}) \<union> (if sigint_ok E then {SIGINT} else {}) \<and> parent_at s = P_Check"
  by (auto simp: fork_start_def Let_def bind_eq_Some_conv split: if_split_asm option.splits prod.splits sum.splits)

text \<open>Steps of the parent alone that lead to its end.\<close>

lemma parent_ends:
  assumes "parent_inv S s" and "caught s" and "\<forall>n. parent_at s \<noteq> P_Exited n"
    and "parent_at s \<notin> {P_Accept, P_Waiting, P_Killed}"
  shows "\<exists>evs s'. set evs \<subseteq> {Parent Proceeds, Parent (Forks None)} \<and> length evs = to_end (parent_at s) \<and>
    fork_run evs s = Some s' \<and> parent_at s' = P_Exited 0 \<and> fds s' = S \<and> filepath s' = None \<and> contents s' = contents s"
  using assms
proof (induction "to_end (parent_at s)" arbitrary: s rule: less_induct)
  case less
  have q: "clean_queue s = Some s" using less.prems(1) by (simp add: parent_inv_def clean_queue_empty)
  define ev where "ev = (case parent_at s of P_Fork fd \<Rightarrow> Forks None | _ \<Rightarrow> Proceeds)"
  have step: "\<exists>s1. parent_next ev s = Some s1 \<and> contents s1 = contents s"
    using less.prems(3,4) q
    by (cases "parent_at s") (simp_all add: ev_def parent_next_def remove_file_def)
  then obtain s1 where s1: "parent_next ev s = Some s1" "contents s1 = contents s" by blast
  note down = parent_next_to_end [OF less.prems(1) s1(1) less.prems(2)]
  have inv: "parent_inv S s1" using parent_next_parent [OF less.prems(1), of ev] s1(1) by simp
  have c: "caught s1" using parent_next_frame [OF less.prems(1) s1(1)] less.prems(2) by simp
  show ?case
  proof (cases "parent_at s = P_Remove")
    case True
    with s1 inv have "parent_at s1 = P_Exited 0 \<and> fds s1 = S \<and> filepath s1 = None"
      by (auto simp: parent_next_def remove_file_def parent_inv_def)
    with True s1 show ?thesis by (intro exI [of _ "[Parent ev]"] exI [of _ s1]) (simp add: ev_def)
  next
    case False
    then have "parent_at s1 \<noteq> P_Exited n" for n
      using s1(1) less.prems(3) q
      by (cases "parent_at s") (auto simp: parent_next_def remove_file_def split: parent_event.splits option.splits if_split_asm)
    with less.hyps [of s1] inv c down less.prems(4) obtain evs s' where r: "set evs \<subseteq> {Parent Proceeds, Parent (Forks None)}"
      "length evs = to_end (parent_at s1)" "fork_run evs s1 = Some s'" "parent_at s' = P_Exited 0" "fds s' = S"
      "filepath s' = None" "contents s' = contents s1" by auto
    have "ev = Proceeds \<or> ev = Forks None" by (simp add: ev_def split: parent_pc.split)
    with r s1 down less.prems(4) show ?thesis
      by (intro exI [of _ "Parent ev # evs"] exI [of _ s']) auto
  qed
qed

text \<open>
  C35: The parent of the forking server, in every interleaving with its children and with signals. Its
  list of threads stays empty, so that the loop over it does nothing; every accepted connection is
  closed by the parent, whether or not it could fork. Outside of a blocked \<^verbatim>\<open>accept\<close> it has a step of
  its own until it has ended; blocked in \<^verbatim>\<open>accept\<close> it goes on only with what \<^verbatim>\<open>accept\<close> gives or by a
  signal, which it takes to its check. After a signal that is caught anywhere but between the check and
  \<^verbatim>\<open>accept\<close> it ends with status 0 after as many steps of its own as \<open>to_end\<close> says, whatever
  children and signals do in between, every descriptor it opened closed and, at that moment, no file
  under the name of the data file. (A signal that comes between the check and \<^verbatim>\<open>accept\<close> is set
  but not looked at: the parent goes on to wait in \<^verbatim>\<open>accept\<close>, until the next connection or signal.) It
  ends otherwise only by a signal for which no handler could be installed.
\<close>

theorem fork_parent:
  assumes "fork_start E argv (fork_process disk S) = Some (Inr s0)" and "fresh_sockets E S"
    and "fork_run evs s0 = Some s"
  shows "clean_queue s = Some s \<and>
    (parent_at s \<in> {P_Check, P_Accept, P_Waiting, P_Clean, P_Shut} \<longrightarrow> fds s = insert (sockfd s) S) \<and>
    (\<forall>n. parent_at s = P_Exited n \<longrightarrow> n = 0 \<and> fds s = S) \<and>
    (parent_at s = P_Killed \<longrightarrow> \<not> (sigterm_ok E \<and> sigint_ok E)) \<and>
    (if parent_at s = P_Waiting
     then (\<forall>ev s'. parent_next ev s = Some s' \<longrightarrow> (\<exists>r. ev = Accepts r)) \<and>
       (\<forall>n\<in>handled s. \<exists>s'. take_signal n s = Some s' \<and> parent_at s' = P_Check \<and> caught s')
     else (\<exists>n. parent_at s = P_Exited n) \<or> parent_at s = P_Killed \<or>
       (\<exists>ev s'. (\<forall>r. ev \<noteq> Accepts r) \<and> parent_next ev s = Some s')) \<and>
    (caught s \<and> parent_at s \<notin> {P_Accept, P_Waiting, P_Killed} \<longrightarrow>
      ((\<exists>n. parent_at s = P_Exited n) \<or>
        (\<exists>evs' s'. set evs' \<subseteq> {Parent Proceeds, Parent (Forks None)} \<and> length evs' = to_end (parent_at s) \<and>
          fork_run evs' s = Some s' \<and> parent_at s' = P_Exited 0 \<and>
          fds s' = S \<and> filepath s' = None \<and> contents s' = contents s)) \<and>
      (\<forall>evs' s'. fork_run evs' s = Some s' \<longrightarrow> parent_at s' = P_Killed \<or>
        to_end (parent_at s) = to_end (parent_at s') + parent_turns evs' \<and>
        (parent_turns evs' = to_end (parent_at s) \<longrightarrow> parent_at s' = P_Exited 0 \<and> fds s' = S))) \<and>
    (parent_at s = P_Accept \<longrightarrow>
      (\<forall>n\<in>handled s. \<exists>s'. fork_run [Signal n, Parent Proceeds] s = Some s' \<and> parent_at s' = P_Waiting \<and> caught s'))"
proof -
  have inv: "files_inv disk s" "parent_inv S s"
    using fork_run_inv [OF assms(3)] fork_start_inv [OF assms(1,2)] by blast+
  then have q: "clean_queue s = Some s" and f: "sockfd s \<notin> S" "parent_fds (sockfd s) S (parent_at s) (fds s)"
    by (auto simp: parent_inv_def clean_queue_empty)
  have h: "handled s = (if sigterm_ok E then {SIGTERM} else {}) \<union> (if sigint_ok E then {SIGINT} else {})"
    and k: "parent_at s = P_Killed \<longrightarrow> \<not> (sigterm_ok E \<and> sigint_ok E)"
    using fork_run_killed [OF assms(3)] fork_start_inv [OF assms(1,2)] handled_start [OF assms(1)] by auto
  have "if parent_at s = P_Waiting
     then (\<forall>ev s'. parent_next ev s = Some s' \<longrightarrow> (\<exists>r. ev = Accepts r)) \<and>
       (\<forall>n\<in>handled s. \<exists>s'. take_signal n s = Some s' \<and> parent_at s' = P_Check \<and> caught s')
     else (\<exists>n. parent_at s = P_Exited n) \<or> parent_at s = P_Killed \<or>
       (\<exists>ev s'. (\<forall>r. ev \<noteq> Accepts r) \<and> parent_next ev s = Some s')"
  proof (cases "parent_at s")
    case P_Accept
    then have "parent_next Proceeds s \<noteq> None" by (simp add: parent_next_def)
    with P_Accept show ?thesis by fastforce
  next
    case P_Waiting
    then show ?thesis
      using h by (auto simp: parent_next_def take_signal_def signal_handler_def caught_def split: parent_event.splits if_split_asm)
  next
    case (P_Fork fd)
    then have "parent_next (Forks None) s \<noteq> None" by (simp add: parent_next_def)
    with P_Fork show ?thesis by fastforce
  qed (use q in \<open>simp_all add: parent_next_def, fastforce+\<close>)
  moreover have ended: "parent_at s' = P_Exited 0 \<and> fds s' = S"
    if "fork_run evs' s = Some s'" "to_end (parent_at s') = 0" "parent_at s' \<notin> {P_Accept, P_Waiting, P_Killed}" for evs' s'
    using fork_run_inv [OF that(1) inv] that(2,3) by (cases "parent_at s'") (auto simp: parent_inv_def)
  moreover have "parent_at s = P_Accept \<longrightarrow>
      (\<forall>n\<in>handled s. \<exists>s'. fork_run [Signal n, Parent Proceeds] s = Some s' \<and> parent_at s' = P_Waiting \<and> caught s')"
    using h by (auto simp: parent_next_def take_signal_def signal_handler_def caught_def)
  moreover have "parent_at s' = P_Killed \<or> to_end (parent_at s) = to_end (parent_at s') + parent_turns evs' \<and>
      (parent_turns evs' = to_end (parent_at s) \<longrightarrow> parent_at s' = P_Exited 0 \<and> fds s' = S)"
    if "caught s" "parent_at s \<notin> {P_Accept, P_Waiting}" "fork_run evs' s = Some s'" for evs' s'
    using ending_run [OF that(3) inv that(1,2)] ended [OF that(3)] by auto
  moreover have "parent_at s \<in> {P_Check, P_Accept, P_Waiting, P_Clean, P_Shut} \<longrightarrow> fds s = insert (sockfd s) S"
    "\<forall>n. parent_at s = P_Exited n \<longrightarrow> n = 0 \<and> fds s = S"
    using f(2) by auto
  ultimately show ?thesis
    using q k parent_ends [OF inv(2)]
    by (intro conjI) (blast | simp)+
qed

text \<open>A signal while the parent waits in \<^verbatim>\<open>accept\<close>, and five steps to its end.\<close>

theorem fork_parent_witness:
  "\<exists>s0 s s'. fork_start demo_fork_env [] (fork_process None {0, 1, 2}) = Some (Inr s0) \<and>
    fork_run [Parent Proceeds, Parent Proceeds, Signal 2] s0 = Some s \<and> parent_at s = P_Check \<and>
    (\<exists>evs. length evs = 5 \<and> fork_run evs s = Some s') \<and>
    parent_at s' = P_Exited 0 \<and> fds s' = {0, 1, 2}"
proof -
  obtain s0 s where s: "fork_start demo_fork_env [] (fork_process None {0, 1, 2}) = Some (Inr s0)"
    "fork_run [Parent Proceeds, Parent Proceeds, Signal 2] s0 = Some s" "parent_at s = P_Check" "caught s"
    by (simp add: fork_start_def demo_fork_env_def fork_process_def run_as_daemon_def SLIST_INIT_def set_cell_def
        take_signal_def signal_handler_def parent_next_def caught_def SIGINT_def SIGTERM_def Let_def)
  have "fresh_sockets demo_fork_env {0, 1, 2}" by (simp add: fresh_sockets_def demo_fork_env_def)
  from fork_parent [OF s(1) this s(2)] s obtain evs s' where "length evs = 5" "fork_run evs s = Some s'"
    "parent_at s' = P_Exited 0" "fds s' = {0, 1, 2}" by auto
  with s show ?thesis by blast
qed

end
