(* ===== verification/Unlocked_Server.thy ===== *)
theory Unlocked_Server
  imports Shared_File
begin

text \<open>
  The server of \<^verbatim>\<open>server/server_prototypes/server.prototype.0.0.6.c\<close>: a detached thread for each
  connection, which gets its descriptor in a block of its own, and a thread that writes the
  date; there is no lock. All threads run interleaved. \<open>None\<close> is undefined behaviour; a \<^verbatim>\<open>SIGPIPE\<close>, which
  ends the process, ends the run.
\<close>

section \<open>State\<close>

text \<open>Where the threads are, before the named action.\<close>

datatype conn_pc = H_Arg | H_Free | H_Open | H_Recv | H_Write "byte list" | H_Send "byte list" | H_Done

datatype accept_pc = W_Accept | W_Malloc nat | W_Store nat nat | W_Create nat nat | W_Detach

datatype date_pc = T_Open | T_Write | T_Done

text \<open>
  A client thread: \<open>box\<close> is its argument and \<open>client_socket\<close> its local variable. \<open>conn\<close>, \<open>received\<close>
  and \<open>handed\<close> describe the run: the connection it was made for, what it received, and what it gave
  to \<^verbatim>\<open>send\<close>.
\<close>

record conn_thread =
  conn_at :: conn_pc
  box :: nat
  client_socket :: nat
  conn :: nat
  received :: "byte list list"
  handed :: "byte list"

text \<open>\<open>boxes\<close> are the allocated blocks, an undefined content being \<open>None\<close>; \<open>written\<close> is what was
  appended to \<^verbatim>\<open>client.txt\<close>, with the thread that did it.\<close>

record unlocked_server =
  boxes :: "nat \<rightharpoonup> nat option"
  conns :: "nat \<rightharpoonup> conn_thread"
  accept_at :: accept_pc
  server_socket :: nat
  open_sockets :: "nat set"
  client_txt :: "byte list"
  date_txt :: "byte list"
  date_at :: date_pc
  written :: appends

abbreviation set_conn :: "nat \<Rightarrow> conn_thread \<Rightarrow> unlocked_server \<Rightarrow> unlocked_server" where
  "set_conn t c s \<equiv> s\<lparr>conns := (conns s)(t \<mapsto> c)\<rparr>"

definition c_text :: "byte list \<Rightarrow> byte list" where
  "c_text bs = takeWhile (\<lambda>x. x \<noteq> nul) bs"

section \<open>Threads\<close>

text \<open>
  The next action of client thread \<open>t\<close>; \<open>rcv\<close> is what \<^verbatim>\<open>recv\<close> gives, \<open>None\<close> at the end of the
  connection or for an error. A thread that has returned does nothing.
\<close>

definition handle_client :: "bool \<Rightarrow> byte list option \<Rightarrow> nat \<Rightarrow> unlocked_server \<Rightarrow> unlocked_server option" where
  "handle_client fopen_ok rcv t s =
     (case conns s t of
        None \<Rightarrow> Some s
      | Some c \<Rightarrow>
          (case conn_at c of
             H_Arg \<Rightarrow> do {
               content \<leftarrow> boxes s (box c);
               fd \<leftarrow> content;
               Some (set_conn t (c\<lparr>client_socket := fd, conn_at := H_Free\<rparr>) s)
             }
           | H_Free \<Rightarrow>
               if boxes s (box c) = None then None
               else Some (set_conn t (c\<lparr>conn_at := H_Open\<rparr>) (s\<lparr>boxes := (boxes s)(box c := None)\<rparr>))
           | H_Open \<Rightarrow>
               if fopen_ok then Some (set_conn t (c\<lparr>conn_at := H_Recv\<rparr>) s)
               else Some (set_conn t (c\<lparr>conn_at := H_Done\<rparr>) (s\<lparr>open_sockets := open_sockets s - {client_socket c}\<rparr>))
           | H_Recv \<Rightarrow>
               (case rcv of
                  Some bs \<Rightarrow> Some (set_conn t (c\<lparr>conn_at := H_Write bs, received := received c @ [bs]\<rparr>) s)
                | None \<Rightarrow>
                    Some (set_conn t (c\<lparr>conn_at := H_Done\<rparr>) (s\<lparr>open_sockets := open_sockets s - {client_socket c}\<rparr>)))
           | H_Write bs \<Rightarrow>
               Some (set_conn t (c\<lparr>conn_at := H_Send bs\<rparr>)
                 (s\<lparr>client_txt := client_txt s @ c_text bs, written := written s @ [(t, c_text bs)]\<rparr>))
           | H_Send bs \<Rightarrow> Some (set_conn t (c\<lparr>conn_at := H_Recv, handed := handed c @ bs\<rparr>) s)
           | H_Done \<Rightarrow> Some s))"

definition write_date :: "bool \<Rightarrow> byte list \<Rightarrow> unlocked_server \<Rightarrow> unlocked_server" where
  "write_date fopen_ok date_str s =
     (case date_at s of
        T_Open \<Rightarrow> s\<lparr>date_at := (if fopen_ok then T_Write else T_Done)\<rparr>
      | T_Write \<Rightarrow> s\<lparr>date_txt := date_txt s @ date_str\<rparr>
      | T_Done \<Rightarrow> s)"

section \<open>\<^verbatim>\<open>main\<close>\<close>

text \<open>What the calls of the loop give: the descriptor of \<^verbatim>\<open>accept\<close>, the address of \<^verbatim>\<open>malloc\<close>, and the
  thread of \<^verbatim>\<open>pthread_create\<close>, whose failure leaves the identifier that is detached undefined.\<close>

record call_results =
  accept_result :: "nat option"
  malloc_result :: "nat option"
  create_result :: "nat option"

definition new_conn :: "nat \<Rightarrow> nat \<Rightarrow> conn_thread" where
  "new_conn a fd = \<lparr>conn_at = H_Arg, box = a, client_socket = 0, conn = fd, received = [], handed = []\<rparr>"

definition main_loop :: "call_results \<Rightarrow> unlocked_server \<Rightarrow> unlocked_server option" where
  "main_loop R s =
     (case accept_at s of
        W_Accept \<Rightarrow>
          (case accept_result R of
             None \<Rightarrow> Some s
           | Some fd \<Rightarrow> Some (s\<lparr>open_sockets := insert fd (open_sockets s), accept_at := W_Malloc fd\<rparr>))
      | W_Malloc fd \<Rightarrow>
          (case malloc_result R of
             None \<Rightarrow> None
           | Some a \<Rightarrow> Some (s\<lparr>boxes := (boxes s)(a \<mapsto> None), accept_at := W_Store a fd\<rparr>))
      | W_Store a fd \<Rightarrow>
          if boxes s a = None then None
          else Some (s\<lparr>boxes := (boxes s)(a \<mapsto> Some fd), accept_at := W_Create a fd\<rparr>)
      | W_Create a fd \<Rightarrow>
          (case create_result R of
             None \<Rightarrow> None
           | Some t \<Rightarrow> Some (set_conn t (new_conn a fd) (s\<lparr>accept_at := W_Detach\<rparr>)))
      | W_Detach \<Rightarrow> Some (s\<lparr>accept_at := W_Accept\<rparr>))"

text \<open>Up to the loop; \<^verbatim>\<open>listen\<close> is not looked at, and a socket that cannot be bound stays open.\<close>

definition server_begin :: "nat option \<Rightarrow> bool \<Rightarrow> bool \<Rightarrow> byte list \<Rightarrow> byte list \<Rightarrow> int + unlocked_server" where
  "server_begin socket_result bind_ok date_created client date =
     (case socket_result of
        None \<Rightarrow> Inl 1
      | Some k \<Rightarrow>
          if \<not> bind_ok then Inl 1
          else Inr \<lparr>boxes = Map.empty, conns = Map.empty, accept_at = W_Accept, server_socket = k,
                    open_sockets = {k}, client_txt = client, date_txt = date,
                    date_at = (if date_created then T_Open else T_Done), written = []\<rparr>)"

section \<open>Runs\<close>

text \<open>
  What the kernel and the C library guarantee: a descriptor that is not in use, a block that is not
  allocated, a thread identifier that is not in use; and here, that there is memory and that
  threads can be created.
\<close>

definition results_ok :: "call_results \<Rightarrow> unlocked_server \<Rightarrow> bool" where
  "results_ok R s =
     (case accept_at s of
        W_Accept \<Rightarrow> (case accept_result R of None \<Rightarrow> True | Some fd \<Rightarrow> fd \<notin> open_sockets s)
      | W_Malloc fd \<Rightarrow> (case malloc_result R of None \<Rightarrow> False | Some a \<Rightarrow> boxes s a = None)
      | W_Create a fd \<Rightarrow> (case create_result R of None \<Rightarrow> False | Some t \<Rightarrow> conns s t = None)
      | _ \<Rightarrow> True)"

definition recv_ok :: "byte list option \<Rightarrow> bool" where
  "recv_ok rcv = (case rcv of None \<Rightarrow> True | Some bs \<Rightarrow> bs \<noteq> [] \<and> length bs \<le> 1023)"

inductive unlocked_step :: "unlocked_server \<Rightarrow> unlocked_server \<Rightarrow> bool" where
  main_step: "results_ok R s \<Longrightarrow> main_loop R s = Some s' \<Longrightarrow> unlocked_step s s'"
| client_step: "recv_ok rcv \<Longrightarrow> handle_client ok rcv t s = Some s' \<Longrightarrow> unlocked_step s s'"
| date_step: "unlocked_step s (write_date ok d s)"

text \<open>A schedule: whose turn it is, and what the calls give.\<close>

datatype unlocked_turn = U_Main call_results | U_Client bool "byte list option" nat | U_Date bool "byte list"

fun unlocked_turn_of :: "unlocked_turn \<Rightarrow> unlocked_server \<Rightarrow> unlocked_server option" where
  "unlocked_turn_of (U_Main R) s = (if results_ok R s then main_loop R s else None)"
| "unlocked_turn_of (U_Client ok rcv t) s = (if recv_ok rcv then handle_client ok rcv t s else None)"
| "unlocked_turn_of (U_Date ok d) s = Some (write_date ok d s)"

fun unlocked_exec :: "unlocked_turn list \<Rightarrow> unlocked_server \<Rightarrow> unlocked_server option" where
  "unlocked_exec [] s = Some s"
| "unlocked_exec (u # us) s = do { s1 \<leftarrow> unlocked_turn_of u s; unlocked_exec us s1 }"

lemma unlocked_turn_step: "unlocked_turn_of u s = Some s' \<Longrightarrow> unlocked_step s s'"
  by (cases u) (auto intro: unlocked_step.intros split: if_split_asm)

lemma unlocked_exec_run: "unlocked_exec us s = Some s' \<Longrightarrow> unlocked_step\<^sup>*\<^sup>* s s'"
  by (induction us arbitrary: s)
    (auto simp: bind_eq_Some_conv intro: unlocked_turn_step converse_rtranclp_into_rtranclp)

section \<open>Invariant\<close>

fun main_box :: "accept_pc \<Rightarrow> nat option" where
  "main_box (W_Store a fd) = Some a"
| "main_box (W_Create a fd) = Some a"
| "main_box p = None"

fun main_fd :: "accept_pc \<Rightarrow> nat option" where
  "main_fd (W_Malloc fd) = Some fd"
| "main_fd (W_Store a fd) = Some fd"
| "main_fd (W_Create a fd) = Some fd"
| "main_fd p = None"

text \<open>What a client thread has done of its data, where it is.\<close>

definition data_ok :: "appends \<Rightarrow> nat \<Rightarrow> conn_thread \<Rightarrow> bool" where
  "data_ok w t c \<longleftrightarrow>
     (case conn_at c of
        H_Write bs \<Rightarrow> \<exists>xs. received c = xs @ [bs] \<and> handed c = concat xs \<and> part t w = concat (map c_text xs)
      | H_Send bs \<Rightarrow> \<exists>xs. received c = xs @ [bs] \<and> handed c = concat xs \<and> part t w = concat (map c_text (received c))
      | _ \<Rightarrow> handed c = concat (received c) \<and> part t w = concat (map c_text (received c)))"

text \<open>Its block and its descriptor.\<close>

definition box_ok :: "(nat \<rightharpoonup> nat option) \<Rightarrow> conn_thread \<Rightarrow> bool" where
  "box_ok bx c \<longleftrightarrow>
     (case conn_at c of
        H_Arg \<Rightarrow> bx (box c) = Some (Some (conn c))
      | H_Free \<Rightarrow> bx (box c) \<noteq> None \<and> client_socket c = conn c
      | _ \<Rightarrow> client_socket c = conn c)"

definition box_of :: "conn_thread \<Rightarrow> nat option" where
  "box_of c = (if conn_at c \<in> {H_Arg, H_Free} then Some (box c) else None)"

definition fd_of :: "conn_thread \<Rightarrow> nat option" where
  "fd_of c = (if conn_at c = H_Done then None else Some (conn c))"

text \<open>\<open>owned B p f\<close>: each of the resources \<open>B\<close> has one owner, \<^verbatim>\<open>main\<close> (\<open>p\<close>) or one of the threads (\<open>f\<close>).\<close>

definition owned :: "nat set \<Rightarrow> nat option \<Rightarrow> (nat \<rightharpoonup> nat) \<Rightarrow> bool" where
  "owned B p f \<longleftrightarrow> B = set_option p \<union> ran f \<and> set_option p \<inter> ran f = {} \<and> inj_on f (dom f)"

definition boxes_inv :: "(nat \<rightharpoonup> nat option) \<Rightarrow> accept_pc \<Rightarrow> (nat \<rightharpoonup> conn_thread) \<Rightarrow> bool" where
  "boxes_inv bx p cs \<longleftrightarrow>
     owned (dom bx) (main_box p) (box_of \<circ>\<^sub>m cs) \<and> (\<forall>t c. cs t = Some c \<longrightarrow> box_ok bx c) \<and>
     (\<forall>a fd. p = W_Create a fd \<longrightarrow> bx a = Some (Some fd))"

definition sockets_inv :: "nat \<Rightarrow> nat set \<Rightarrow> accept_pc \<Rightarrow> (nat \<rightharpoonup> conn_thread) \<Rightarrow> bool" where
  "sockets_inv k S p cs \<longleftrightarrow> k \<in> S \<and> owned (S - {k}) (main_fd p) (fd_of \<circ>\<^sub>m cs)"

definition texts_inv :: "appends \<Rightarrow> (nat \<rightharpoonup> conn_thread) \<Rightarrow> bool" where
  "texts_inv w cs \<longleftrightarrow> (\<forall>t. cs t = None \<longrightarrow> part t w = []) \<and> (\<forall>t c. cs t = Some c \<longrightarrow> data_ok w t c)"

definition unlocked_inv :: "byte list \<Rightarrow> unlocked_server \<Rightarrow> bool" where
  "unlocked_inv client s \<longleftrightarrow>
     boxes_inv (boxes s) (accept_at s) (conns s) \<and>
     sockets_inv (server_socket s) (open_sockets s) (accept_at s) (conns s) \<and>
     client_txt s = file_with client (written s) \<and> texts_inv (written s) (conns s)"

section \<open>Owners\<close>

lemma owned_take:
  assumes "owned B p f" and "f t = Some a"
  shows "owned (B - {a}) p (f(t := None))"
proof -
  have f: "B = set_option p \<union> ran f" "set_option p \<inter> ran f = {}" "inj_on f (dom f)"
    using assms(1) by (simp_all add: owned_def)
  have a: "a \<in> ran f" using assms(2) by (rule ranI)
  have "f u = Some a \<longleftrightarrow> u = t" for u using inj_onD [OF f(3), of u t] assms(2) by (metis domI)
  then have ran: "ran (f(t := None)) = ran f - {a}" by (auto simp: ran_def) (metis option.inject)
  have "inj_on (f(t := None)) (dom (f(t := None)))"
    using inj_on_subset [OF f(3), of "dom f - {t}"] by (simp add: inj_on_fun_updI inj_on_def)
  moreover have "B - {a} = set_option p \<union> (ran f - {a})" "set_option p \<inter> (ran f - {a}) = {}"
    using f(1,2) a by blast+
  ultimately show ?thesis by (simp add: owned_def ran)
qed

lemma owned_give:
  assumes "owned B (Some a) f" and "f t = None"
  shows "owned B None (f(t \<mapsto> a))"
proof -
  have f: "B = insert a (ran f)" "a \<notin> ran f" "inj_on f (dom f)" using assms(1) by (simp_all add: owned_def)
  have "t \<notin> dom f" using assms(2) by auto
  then have "inj_on (f(t \<mapsto> a)) (insert t (dom f))"
    using f(2,3) by (auto simp: inj_on_def dom_def intro: ranI)
  then show ?thesis using f(1) assms(2) by (simp add: owned_def)
qed

lemma owned_new: "owned B None f \<Longrightarrow> a \<notin> B \<Longrightarrow> owned (insert a B) (Some a) f"
  by (auto simp: owned_def)

lemma owned_in: "owned B p f \<Longrightarrow> f t = Some a \<Longrightarrow> a \<in> B \<and> p \<noteq> Some a"
  by (auto simp: owned_def ran_def)

lemma owned_other: "owned B p f \<Longrightarrow> f t = Some a \<Longrightarrow> f u = Some a \<Longrightarrow> t = u"
  using inj_onD [of f "dom f" t u] by (auto simp: owned_def)

lemma ran_map_comp: "ran (f \<circ>\<^sub>m cs) = {x. \<exists>t c. cs t = Some c \<and> f c = Some x}"
  by (simp add: ran_def map_comp_Some_iff)

lemma owner_Some:
  "fd_of c = Some fd \<longleftrightarrow> conn_at c \<noteq> H_Done \<and> conn c = fd"
  "box_of c = Some a \<longleftrightarrow> conn_at c \<in> {H_Arg, H_Free} \<and> box c = a"
  by (simp_all add: fd_of_def box_of_def)

lemma map_comp_upd: "f \<circ>\<^sub>m (cs(t \<mapsto> c)) = (f \<circ>\<^sub>m cs)(t := f c)"
  by (auto simp: map_comp_def fun_eq_iff)

lemma map_comp_same: "cs t = Some c \<Longrightarrow> f c' = f c \<Longrightarrow> f \<circ>\<^sub>m (cs(t \<mapsto> c')) = f \<circ>\<^sub>m cs"
  by (auto simp: map_comp_def fun_eq_iff)

text \<open>A thread that keeps its block or descriptor, and one that gives it back.\<close>

lemma boxes_keep:
  assumes "boxes_inv bx p cs" and "cs t = Some c" and "box_of c' = box_of c" and "box_ok bx c'"
  shows "boxes_inv bx p (cs(t \<mapsto> c'))"
  using assms unfolding boxes_inv_def by (simp add: map_comp_same)

lemma boxes_free:
  assumes inv: "boxes_inv bx p cs" and t: "cs t = Some c" "box_of c = Some a"
    and c': "box_of c' = None" "client_socket c' = conn c'"
  shows "boxes_inv (bx(a := None)) p (cs(t \<mapsto> c'))"
proof -
  have own: "owned (dom bx) (main_box p) (box_of \<circ>\<^sub>m cs)" "(box_of \<circ>\<^sub>m cs) t = Some a"
    using inv t by (simp_all add: boxes_inv_def)
  have "box_ok (bx(a := None)) d" if "cs u = Some d" "u \<noteq> t" for u d
  proof -
    have "box_of d \<noteq> Some a" using owned_other [OF own, of u] that by auto
    moreover have "box_ok bx d" using inv that by (simp add: boxes_inv_def)
    ultimately show ?thesis by (cases "conn_at d") (auto simp: box_ok_def box_of_def)
  qed
  moreover have "box_ok (bx(a := None)) c'"
    using c' by (cases "conn_at c'") (auto simp: box_ok_def box_of_def split: if_split_asm)
  moreover have "main_box p \<noteq> Some a" using owned_in [OF own] by simp
  ultimately show ?thesis
    using inv owned_take [OF own] c'(1) by (auto simp: boxes_inv_def map_comp_upd)
qed

lemma sockets_keep:
  assumes "sockets_inv k S p cs" and "cs t = Some c" and "fd_of c' = fd_of c"
  shows "sockets_inv k S p (cs(t \<mapsto> c'))"
  using assms by (simp add: sockets_inv_def map_comp_same)

lemma sockets_close:
  assumes "sockets_inv k S p cs" and "cs t = Some c" and "fd_of c = Some fd" and "fd_of c' = None"
  shows "sockets_inv k (S - {fd}) p (cs(t \<mapsto> c'))"
proof -
  have own: "owned (S - {k}) (main_fd p) (fd_of \<circ>\<^sub>m cs)" "(fd_of \<circ>\<^sub>m cs) t = Some fd"
    using assms by (simp_all add: sockets_inv_def)
  have "fd \<noteq> k" using owned_in [OF own] by auto
  moreover have "S - {fd} - {k} = S - {k} - {fd}" by auto
  ultimately show ?thesis
    using owned_take [OF own] assms(1,4) by (simp add: sockets_inv_def map_comp_upd)
qed

lemma texts_keep: "texts_inv w cs \<Longrightarrow> data_ok w t c' \<Longrightarrow> texts_inv w (cs(t \<mapsto> c'))"
  by (auto simp: texts_inv_def)

lemma data_ok_other: "u \<noteq> t \<Longrightarrow> data_ok (w @ [(t, x)]) u d = data_ok w u d"
  by (cases "conn_at d") (simp_all add: data_ok_def)

lemma texts_write:
  assumes "texts_inv w cs" and "data_ok (w @ [(t, x)]) t c'"
  shows "texts_inv (w @ [(t, x)]) (cs(t \<mapsto> c'))"
  using assms by (auto simp: texts_inv_def data_ok_other)

section \<open>Every step keeps the invariant\<close>

lemma client_keeps:
  assumes inv: "unlocked_inv client s" and t: "conns s t = Some c"
    and c': "box_of c' = box_of c" "box_ok (boxes s) c'" "fd_of c' = fd_of c" "data_ok (written s) t c'"
  shows "unlocked_inv client (set_conn t c' s)"
  using inv t c' by (simp add: unlocked_inv_def boxes_keep sockets_keep texts_keep)

lemma client_closes:
  assumes inv: "unlocked_inv client s" and t: "conns s t = Some c" "fd_of c = Some fd"
    and c': "box_of c' = box_of c" "box_ok (boxes s) c'" "fd_of c' = None" "data_ok (written s) t c'"
  shows "unlocked_inv client (set_conn t c' (s\<lparr>open_sockets := open_sockets s - {fd}\<rparr>))"
  using inv t c' by (simp add: unlocked_inv_def boxes_keep sockets_close texts_keep)

lemma unlocked_client_inv:
  assumes inv: "unlocked_inv client s"
  shows "\<exists>s'. handle_client ok rcv t s = Some s' \<and> unlocked_inv client s'"
proof (cases "conns s t")
  case None
  then show ?thesis using inv by (simp add: handle_client_def)
next
  case (Some c)
  have box: "box_ok (boxes s) c" and data: "data_ok (written s) t c"
    using inv Some by (auto simp: unlocked_inv_def boxes_inv_def texts_inv_def)
  note keeps = client_keeps [OF inv Some] and closes = client_closes [OF inv Some]
  show ?thesis
  proof (cases "conn_at c")
    case H_Arg
    then have "boxes s (box c) = Some (Some (conn c))" using box by (simp add: box_ok_def)
    moreover have "unlocked_inv client (set_conn t (c\<lparr>client_socket := conn c, conn_at := H_Free\<rparr>) s)"
      by (rule keeps) (use H_Arg box data in \<open>simp_all add: box_of_def box_ok_def fd_of_def data_ok_def\<close>)
    ultimately show ?thesis using Some H_Arg by (simp add: handle_client_def)
  next
    case H_Free
    then have b: "boxes s (box c) \<noteq> None" "box_of c = Some (box c)" "client_socket c = conn c"
      using box by (auto simp: box_ok_def box_of_def)
    have "unlocked_inv client (set_conn t (c\<lparr>conn_at := H_Open\<rparr>) (s\<lparr>boxes := (boxes s)(box c := None)\<rparr>))"
      using inv Some H_Free b data boxes_free [of "boxes s" "accept_at s" "conns s" t c "box c" "c\<lparr>conn_at := H_Open\<rparr>"]
      by (simp add: unlocked_inv_def sockets_keep texts_keep box_of_def fd_of_def data_ok_def)
    with Some H_Free b(1) show ?thesis by (simp add: handle_client_def)
  next
    case H_Open
    have "unlocked_inv client (set_conn t (c\<lparr>conn_at := H_Recv\<rparr>) s)"
      by (rule keeps) (use H_Open box data in \<open>simp_all add: box_of_def box_ok_def fd_of_def data_ok_def\<close>)
    moreover have "unlocked_inv client (set_conn t (c\<lparr>conn_at := H_Done\<rparr>)
        (s\<lparr>open_sockets := open_sockets s - {client_socket c}\<rparr>))"
      by (rule closes) (use H_Open box data in \<open>simp_all add: box_of_def box_ok_def fd_of_def data_ok_def\<close>)
    ultimately show ?thesis using Some H_Open by (simp add: handle_client_def)
  next
    case H_Recv
    have "unlocked_inv client (set_conn t (c\<lparr>conn_at := H_Write bs, received := received c @ [bs]\<rparr>) s)" for bs
      by (rule keeps) (use H_Recv box data in \<open>simp_all add: box_of_def box_ok_def fd_of_def data_ok_def\<close>)
    moreover have "unlocked_inv client (set_conn t (c\<lparr>conn_at := H_Done\<rparr>)
        (s\<lparr>open_sockets := open_sockets s - {client_socket c}\<rparr>))"
      by (rule closes) (use H_Recv box data in \<open>simp_all add: box_of_def box_ok_def fd_of_def data_ok_def\<close>)
    ultimately show ?thesis using Some H_Recv by (cases rcv) (simp_all add: handle_client_def)
  next
    case (H_Write bs)
    then have "data_ok (written s @ [(t, c_text bs)]) t (c\<lparr>conn_at := H_Send bs\<rparr>)"
      using data by (auto simp: data_ok_def)
    with inv Some H_Write box have "unlocked_inv client (set_conn t (c\<lparr>conn_at := H_Send bs\<rparr>)
        (s\<lparr>client_txt := client_txt s @ c_text bs, written := written s @ [(t, c_text bs)]\<rparr>))"
      by (simp add: unlocked_inv_def boxes_keep sockets_keep texts_write box_of_def box_ok_def fd_of_def)
    with Some H_Write show ?thesis by (simp add: handle_client_def)
  next
    case (H_Send bs)
    have "unlocked_inv client (set_conn t (c\<lparr>conn_at := H_Recv, handed := handed c @ bs\<rparr>) s)"
      by (rule keeps) (use H_Send box data in \<open>auto simp: box_of_def box_ok_def fd_of_def data_ok_def\<close>)
    with Some H_Send show ?thesis by (simp add: handle_client_def)
  next
    case H_Done
    with Some inv show ?thesis by (simp add: handle_client_def)
  qed
qed

lemma box_ok_cong:
  assumes "box_ok bx c" and "\<And>a. box_of c = Some a \<Longrightarrow> bx' a = bx a"
  shows "box_ok bx' c"
  using assms by (cases "conn_at c") (auto simp: box_ok_def box_of_def)

lemma boxes_new:
  assumes "boxes_inv bx (W_Malloc fd) cs" and "bx a = None"
  shows "boxes_inv (bx(a \<mapsto> None)) (W_Store a fd) cs"
proof -
  have own: "owned (dom bx) None (box_of \<circ>\<^sub>m cs)" using assms(1) by (simp add: boxes_inv_def)
  have "a \<notin> dom bx" using assms(2) by auto
  moreover have "box_ok (bx(a \<mapsto> None)) c" if "cs t = Some c" for t c
  proof (rule box_ok_cong)
    show "box_ok bx c" using assms(1) that by (simp add: boxes_inv_def)
    show "(bx(a \<mapsto> None)) b = bx b" if "box_of c = Some b" for b
      using owned_in [OF own, of t b] that \<open>cs t = Some c\<close> assms(2) by auto
  qed
  ultimately show ?thesis using owned_new [OF own] by (simp add: boxes_inv_def)
qed

lemma boxes_store:
  assumes "boxes_inv bx (W_Store a fd) cs"
  shows "boxes_inv (bx(a \<mapsto> Some fd)) (W_Create a fd) cs \<and> bx a \<noteq> None"
proof -
  have own: "owned (dom bx) (Some a) (box_of \<circ>\<^sub>m cs)" using assms by (simp add: boxes_inv_def)
  have "a \<in> dom bx" using own by (auto simp: owned_def)
  moreover have "box_ok (bx(a \<mapsto> Some fd)) c" if "cs t = Some c" for t c
  proof (rule box_ok_cong)
    show "box_ok bx c" using assms that by (simp add: boxes_inv_def)
    show "(bx(a \<mapsto> Some fd)) b = bx b" if "box_of c = Some b" for b
      using owned_in [OF own, of t b] that \<open>cs t = Some c\<close> by auto
  qed
  ultimately show ?thesis using own by (auto simp: boxes_inv_def insert_absorb)
qed

lemma boxes_pass:
  assumes "boxes_inv bx (W_Create a fd) cs" and "cs t = None"
  shows "boxes_inv bx W_Detach (cs(t \<mapsto> new_conn a fd))"
  using assms owned_give [of "dom bx" a "box_of \<circ>\<^sub>m cs" t]
  by (simp add: boxes_inv_def map_comp_upd new_conn_def box_of_def box_ok_def)

lemma sockets_new:
  assumes "sockets_inv k S W_Accept cs" and "fd \<notin> S"
  shows "sockets_inv k (insert fd S) (W_Malloc fd) cs"
proof -
  have "insert fd S - {k} = insert fd (S - {k})" using assms by (auto simp: sockets_inv_def)
  then show ?thesis using assms owned_new [of "S - {k}"] by (simp add: sockets_inv_def)
qed

lemma sockets_pass:
  assumes "sockets_inv k S (W_Create a fd) cs" and "cs t = None"
  shows "sockets_inv k S W_Detach (cs(t \<mapsto> new_conn a fd))"
  using assms owned_give [of "S - {k}" fd "fd_of \<circ>\<^sub>m cs" t]
  by (simp add: sockets_inv_def map_comp_upd new_conn_def fd_of_def)

lemma unlocked_main_inv:
  assumes inv: "unlocked_inv client s" and R: "results_ok R s"
  shows "\<exists>s'. main_loop R s = Some s' \<and> unlocked_inv client s'"
proof (cases "accept_at s")
  case W_Accept
  with inv R show ?thesis
    by (auto simp: main_loop_def unlocked_inv_def results_ok_def boxes_inv_def sockets_new split: option.splits)
next
  case (W_Malloc fd)
  with R obtain a where "malloc_result R = Some a" "boxes s a = None"
    by (auto simp: results_ok_def split: option.splits)
  with W_Malloc inv show ?thesis
    by (simp add: main_loop_def unlocked_inv_def boxes_new) (simp add: sockets_inv_def)
next
  case (W_Store a fd)
  with inv boxes_store [of "boxes s" a fd "conns s"] show ?thesis
    by (simp add: main_loop_def unlocked_inv_def) (simp add: sockets_inv_def)
next
  case (W_Create a fd)
  with R obtain t where t: "create_result R = Some t" "conns s t = None"
    by (auto simp: results_ok_def split: option.splits)
  then have "data_ok (written s) t (new_conn a fd)"
    using inv by (simp add: unlocked_inv_def texts_inv_def data_ok_def new_conn_def)
  with W_Create inv t show ?thesis
    by (simp add: main_loop_def unlocked_inv_def boxes_pass sockets_pass texts_keep)
next
  case W_Detach
  with inv show ?thesis by (simp add: main_loop_def unlocked_inv_def boxes_inv_def sockets_inv_def)
qed

lemma unlocked_date_inv: "unlocked_inv client s \<Longrightarrow> unlocked_inv client (write_date ok d s)"
  by (cases "date_at s") (simp_all add: write_date_def unlocked_inv_def)

lemma unlocked_step_inv:
  assumes "unlocked_step s s'" and "unlocked_inv client s"
  shows "unlocked_inv client s'"
  using assms(1)
proof cases
  case (main_step R)
  with unlocked_main_inv [OF assms(2) main_step(1)] show ?thesis by simp
next
  case (client_step rcv ok t)
  with unlocked_client_inv [OF assms(2), of ok rcv t] show ?thesis by simp
next
  case (date_step ok d)
  with unlocked_date_inv [OF assms(2)] show ?thesis by simp
qed

lemma unlocked_begin_inv:
  "server_begin k ok dc client date = Inr s \<Longrightarrow> unlocked_inv client s"
  by (auto simp: server_begin_def unlocked_inv_def boxes_inv_def sockets_inv_def texts_inv_def owned_def
      split: option.splits if_split_asm)

lemma unlocked_run_inv:
  assumes "server_begin k ok dc client date = Inr s0" and "unlocked_step\<^sup>*\<^sup>* s0 s"
  shows "unlocked_inv client s"
  using assms(2) by induction (use unlocked_begin_inv [OF assms(1)] unlocked_step_inv in auto)

section \<open>Property\<close>

text \<open>Two connections, whose threads overlap.\<close>

definition demo_results :: "nat \<Rightarrow> call_results" where
  "demo_results n = \<lparr>accept_result = Some (10 + n), malloc_result = Some n, create_result = Some n\<rparr>"

definition demo_turns :: "unlocked_turn list" where
  "demo_turns = replicate 5 (U_Main (demo_results 1)) @ replicate 5 (U_Main (demo_results 2)) @
     replicate 3 (U_Client True None 1) @ replicate 3 (U_Client True None 2) @
     [U_Client True (Some ''ab'') 1, U_Client True (Some ''c'') 2, U_Client True None 2, U_Client True None 1,
      U_Client True None 2, U_Client True None 2, U_Client True None 1]"

lemma demo_turns_run:
  "\<exists>s0 s c. server_begin (Some 3) True True ''old'' [] = Inr s0 \<and> unlocked_exec demo_turns s0 = Some s \<and>
    client_txt s = ''oldcab'' \<and> conns s 1 = Some c \<and> conn_at c = H_Recv \<and> received c = [''ab'']"
  by (simp add: server_begin_def demo_turns_def demo_results_def results_ok_def recv_ok_def main_loop_def
      handle_client_def new_conn_def c_text_def eval_nat_numeral)

text \<open>
  C17: The server without a lock, in every interleaving of \<^verbatim>\<open>main\<close>, the clients and the date thread.
  For each client exactly the bytes it sent are given to \<^verbatim>\<open>send\<close>, and the strings it sent are in
  \<^verbatim>\<open>client.txt\<close> in order, whatever the others do. Each descriptor and each block has one owner: no
  thread gets the connection of another, reads a freed block or closes a foreign descriptor,
  and when \<^verbatim>\<open>main\<close> waits, what is open is the server's socket and the connections of the threads that
  have not returned. The only undefined steps are those of \<^verbatim>\<open>main\<close> when \<^verbatim>\<open>malloc\<close> or \<^verbatim>\<open>pthread_create\<close> has
  failed, which the code does not look at.
\<close>

theorem unlocked_server_correct:
  assumes "server_begin k ok dc client date = Inr s0" and "unlocked_step\<^sup>*\<^sup>* s0 s"
  shows "(\<forall>ok rcv t. handle_client ok rcv t s \<noteq> None) \<and>
    (\<forall>R. main_loop R s = None \<longleftrightarrow> (\<exists>fd. accept_at s = W_Malloc fd \<and> malloc_result R = None) \<or>
       (\<exists>a fd. accept_at s = W_Create a fd \<and> create_result R = None)) \<and>
    client_txt s = file_with client (written s) \<and>
    (\<forall>t c. conns s t = Some c \<longrightarrow> conn_at c \<in> {H_Recv, H_Done} \<longrightarrow>
       handed c = concat (received c) \<and> part t (written s) = concat (map c_text (received c))) \<and>
    (\<forall>t c u d. conns s t = Some c \<longrightarrow> conns s u = Some d \<longrightarrow> conn_at c \<noteq> H_Done \<longrightarrow> conn_at d \<noteq> H_Done \<longrightarrow>
       conn c = conn d \<longrightarrow> t = u) \<and>
    (accept_at s = W_Accept \<longrightarrow>
       open_sockets s = insert (server_socket s) {fd. \<exists>t c. conns s t = Some c \<and> conn_at c \<noteq> H_Done \<and> conn c = fd} \<and>
       dom (boxes s) = {a. \<exists>t c. conns s t = Some c \<and> conn_at c \<in> {H_Arg, H_Free} \<and> box c = a})"
proof -
  note inv = unlocked_run_inv [OF assms]
  have own: "owned (open_sockets s - {server_socket s}) (main_fd (accept_at s)) (fd_of \<circ>\<^sub>m conns s)"
    "server_socket s \<in> open_sockets s" "owned (dom (boxes s)) (main_box (accept_at s)) (box_of \<circ>\<^sub>m conns s)"
    using inv by (simp_all add: unlocked_inv_def sockets_inv_def boxes_inv_def)
  have "\<forall>ok rcv t. handle_client ok rcv t s \<noteq> None" using unlocked_client_inv [OF inv] by fastforce
  moreover have "\<forall>R. main_loop R s = None \<longleftrightarrow> (\<exists>fd. accept_at s = W_Malloc fd \<and> malloc_result R = None) \<or>
       (\<exists>a fd. accept_at s = W_Create a fd \<and> create_result R = None)"
    using own(3) by (cases "accept_at s") (auto simp: main_loop_def owned_def split: option.splits)
  moreover have "client_txt s = file_with client (written s)" using inv by (simp add: unlocked_inv_def)
  moreover have "\<forall>t c. conns s t = Some c \<longrightarrow> conn_at c \<in> {H_Recv, H_Done} \<longrightarrow>
       handed c = concat (received c) \<and> part t (written s) = concat (map c_text (received c))"
    using inv by (auto simp: unlocked_inv_def texts_inv_def data_ok_def dest!: spec)
  moreover have "\<forall>t c u d. conns s t = Some c \<longrightarrow> conns s u = Some d \<longrightarrow> conn_at c \<noteq> H_Done \<longrightarrow>
       conn_at d \<noteq> H_Done \<longrightarrow> conn c = conn d \<longrightarrow> t = u"
    using owned_other [OF own(1)] by (fastforce simp: fd_of_def)
  moreover have "accept_at s = W_Accept \<longrightarrow>
       open_sockets s = insert (server_socket s) {fd. \<exists>t c. conns s t = Some c \<and> conn_at c \<noteq> H_Done \<and> conn c = fd} \<and>
       dom (boxes s) = {a. \<exists>t c. conns s t = Some c \<and> conn_at c \<in> {H_Arg, H_Free} \<and> box c = a}"
  proof
    assume "accept_at s = W_Accept"
    then have "open_sockets s - {server_socket s} = ran (fd_of \<circ>\<^sub>m conns s)" "dom (boxes s) = ran (box_of \<circ>\<^sub>m conns s)"
      using own by (simp_all add: owned_def)
    then show "open_sockets s = insert (server_socket s) {fd. \<exists>t c. conns s t = Some c \<and> conn_at c \<noteq> H_Done \<and> conn c = fd} \<and>
       dom (boxes s) = {a. \<exists>t c. conns s t = Some c \<and> conn_at c \<in> {H_Arg, H_Free} \<and> box c = a}"
      unfolding ran_map_comp owner_Some using own(2) by (metis insert_Diff)
  qed
  ultimately show ?thesis by (intro conjI)
qed

theorem unlocked_server_correct_witness:
  "\<exists>s0 s c. server_begin (Some 3) True True ''old'' [] = Inr s0 \<and> unlocked_step\<^sup>*\<^sup>* s0 s \<and>
    client_txt s = ''oldcab'' \<and> conns s 1 = Some c \<and> handed c = ''ab'' \<and> part 1 (written s) = ''ab''"
proof -
  from demo_turns_run obtain s0 s c where s: "server_begin (Some 3) True True ''old'' [] = Inr s0"
    "unlocked_exec demo_turns s0 = Some s" "client_txt s = ''oldcab''" "conns s 1 = Some c" "conn_at c = H_Recv"
    "received c = [''ab'']" by blast
  note run = unlocked_exec_run [OF s(2)]
  from unlocked_server_correct [OF s(1) run] s(4,5)
  have "handed c = concat (received c)" "part 1 (written s) = concat (map c_text (received c))" by blast+
  with s run show ?thesis by (auto simp: c_text_def)
qed

end
