(* ===== verification/Shannon_Random.thy ===== *)
theory Shannon_Random
  imports Aesd_Prelude "HOL-Library.Signed_Division"
begin

text \<open>
  The random numbers of \<^verbatim>\<open>server/shannon.c\<close> (\<^verbatim>\<open>prototypes/queues/shannon.c\<close> is a copy), on the 64 bits
  of the seed. The product that steps the seed overflows a signed integer soon, which C leaves
  undefined; \<open>wrap_mult\<close> is what compilers make of it, and \<open>checked_mult\<close> the C standard.
\<close>

section \<open>The generator\<close>

definition LONG_MAX :: "64 word" where "LONG_MAX = 0x7FFFFFFFFFFFFFFF"

definition I_SEED_start :: "64 word" where "I_SEED_start = 123456789"

definition wrap_mult :: "64 word \<Rightarrow> 64 word \<Rightarrow> 64 word option" where
  "wrap_mult a b = Some (a * b)"

definition checked_mult :: "64 word \<Rightarrow> 64 word \<Rightarrow> 64 word option" where
  "checked_mult a b =
     (if - (2 ^ 63) \<le> sint a * sint b \<and> sint a * sint b < 2 ^ 63 then Some (a * b) else None)"

text \<open>
  \<open>randshannon mult seed\<close> is the next seed and the numerator \<open>j\<close> of the number \<open>j / 32767\<close> that the
  function returns. The division rounds towards zero.
\<close>

definition randshannon :: "(64 word \<Rightarrow> 64 word \<Rightarrow> 64 word option) \<Rightarrow> 64 word \<Rightarrow> (64 word \<times> int) option" where
  "randshannon mult seed = do {
     seed1 \<leftarrow> mult 16807 seed;
     let seed2 = (if sint seed1 < 0 then seed1 + LONG_MAX else seed1);
     let i = sint seed2 sdiv 32767;
     let j = sint seed2 - i * 32767;
     Some (seed2, j)
   }"

text \<open>
  \<^verbatim>\<open>(int) (randshannon() * 1000.)\<close>. For \<open>0 < j < 32767\<close> the exact value \<open>j * 1000 / 32767\<close> is at least
  \<open>1 / 32767\<close> away from every integer, far more than what the two roundings of the double
  arithmetic can add, so that the truncation gives the exact quotient.
\<close>

definition random_value :: "(64 word \<Rightarrow> 64 word \<Rightarrow> 64 word option) \<Rightarrow> 64 word \<Rightarrow> (64 word \<times> int) option" where
  "random_value mult seed = do { (seed1, j) \<leftarrow> randshannon mult seed; Some (seed1, j * 1000 sdiv 32767) }"

text \<open>The first \<open>n\<close> values, and the seed after them.\<close>

fun random_values :: "(64 word \<Rightarrow> 64 word \<Rightarrow> 64 word option) \<Rightarrow> nat \<Rightarrow> 64 word \<Rightarrow> (64 word \<times> int list) option" where
  "random_values mult 0 seed = Some (seed, [])"
| "random_values mult (Suc n) seed = do {
     (seed1, v) \<leftarrow> random_value mult seed;
     (seed2, vs) \<leftarrow> random_values mult n seed1;
     Some (seed2, v # vs)
   }"

section \<open>Range\<close>

lemma sint_range: "- (2 ^ 63) \<le> sint (w :: 64 word)" "sint w < 2 ^ 63"
  using sint_ge [of w] sint_lt [of w] by simp_all

text \<open>The multiplier is odd, so that multiplying with it is a permutation of the words.\<close>

lemma mult_inverse:
  assumes "(16807 :: 64 word) * w = v"
  shows "w = 13632832042574304791 * v"
proof -
  have "(13632832042574304791 :: 64 word) * (16807 * w) = (13632832042574304791 * 16807) * w"
    by (simp only: mult.assoc)
  also have "(13632832042574304791 * 16807 :: 64 word) = 1" by simp
  finally show ?thesis using assms by simp
qed

lemma product_not_minimum:
  assumes "0 \<le> sint (w :: 64 word)"
  shows "sint (16807 * w) \<noteq> - (2 ^ 63)"
proof
  assume "sint (16807 * w) = - (2 ^ 63)"
  then have "(of_int (sint (16807 * w)) :: 64 word) = of_int (- (2 ^ 63))" by (rule arg_cong)
  then have "16807 * w = (of_int (- (2 ^ 63)) :: 64 word)" by simp
  then have "w = 13632832042574304791 * of_int (- (2 ^ 63))" by (rule mult_inverse)
  then have "w = 0x8000000000000000" by simp
  then have "sint w < 0" by simp
  with assms show False by simp
qed

lemma sint_add_LONG_MAX: "- (2 ^ 63) < sint w \<Longrightarrow> sint w < 0 \<Longrightarrow> sint (w + LONG_MAX) = sint w + (2 ^ 63 - 1)"
  by (simp add: LONG_MAX_def sint_word_ariths signed_take_bit_int_eq_self)

lemma sdiv_nonneg: "0 \<le> (a :: int) \<Longrightarrow> a sdiv 32767 = a div 32767"
  by (cases "a = 0") (simp_all add: signed_divide_int_def)

lemma seed_stays:
  assumes "0 \<le> sint seed" and "mult = wrap_mult \<or> mult = checked_mult"
    and "randshannon mult seed = Some (seed', j)"
  shows "0 \<le> sint seed' \<and> j = sint seed' mod 32767"
proof -
  let ?p = "16807 * seed"
  have s': "seed' = (if sint ?p < 0 then ?p + LONG_MAX else ?p)" "j = sint seed' - sint seed' sdiv 32767 * 32767"
    using assms(2,3) by (auto simp: randshannon_def wrap_mult_def checked_mult_def Let_def split: if_split_asm)
  have "0 \<le> sint seed'"
  proof (cases "sint ?p < 0")
    case True
    have "- (2 ^ 63) < sint ?p" using product_not_minimum [OF assms(1)] sint_range(1) [of ?p] by simp
    then have "sint (?p + LONG_MAX) = sint ?p + (2 ^ 63 - 1)"
      using True by (rule sint_add_LONG_MAX)
    with True s' \<open>- (2 ^ 63) < sint ?p\<close> show ?thesis by simp
  qed (use s' in simp)
  moreover from this have "sint seed' sdiv 32767 = sint seed' div 32767" by (rule sdiv_nonneg)
  ultimately show ?thesis using s'(2) by (simp add: minus_div_mult_eq_mod)
qed

lemma random_value_range:
  assumes "0 \<le> sint seed" and "mult = wrap_mult \<or> mult = checked_mult"
    and "random_value mult seed = Some (seed', v)"
  shows "0 \<le> sint seed' \<and> 0 \<le> v \<and> v < 1000"
proof -
  from assms(3) obtain j where j: "randshannon mult seed = Some (seed', j)" "v = j * 1000 sdiv 32767"
    by (auto simp: random_value_def bind_eq_Some_conv)
  from seed_stays [OF assms(1,2) j(1)] have "0 \<le> sint seed'" "0 \<le> j" "j \<le> 32766" by auto
  moreover from this have "v = j * 1000 div 32767" by (simp add: j(2) sdiv_nonneg)
  moreover have "j * 1000 div 32767 \<le> 32766 * 1000 div 32767"
    using \<open>j \<le> 32766\<close> by (intro zdiv_mono1) simp_all
  ultimately show ?thesis by (simp add: pos_imp_zdiv_nonneg_iff)
qed

text \<open>The checked arithmetic agrees with the wrapping one while it is defined.\<close>

lemma checked_agrees: "randshannon checked_mult seed = Some r \<Longrightarrow> randshannon wrap_mult seed = Some r"
  by (auto simp: randshannon_def checked_mult_def wrap_mult_def split: if_split_asm)

lemma random_values_range:
  assumes "mult = wrap_mult \<or> mult = checked_mult"
  shows "0 \<le> sint seed \<Longrightarrow> random_values mult n seed = Some (seed', vs) \<Longrightarrow>
    length vs = n \<and> (\<forall>v \<in> set vs. 0 \<le> v \<and> v < 1000)"
proof (induction n arbitrary: seed vs)
  case (Suc n)
  from Suc.prems(2) obtain seed1 v vs1 where "random_value mult seed = Some (seed1, v)"
    "random_values mult n seed1 = Some (seed', vs1)" "vs = v # vs1" by (auto simp: bind_eq_Some_conv)
  with random_value_range [OF Suc.prems(1) assms] Suc.IH [of seed1 vs1] show ?case by auto
qed simp

lemma random_values_wrap: "\<exists>r. random_values wrap_mult n seed = Some r"
proof (induction n arbitrary: seed)
  case (Suc n)
  obtain seed1 v where "random_value wrap_mult seed = Some (seed1, v)"
    by (simp add: random_value_def randshannon_def wrap_mult_def Let_def)
  moreover obtain r where "random_values wrap_mult n seed1 = Some r" using Suc.IH by blast
  ultimately show ?case by (cases r) simp
qed simp

text \<open>The first three calls, by the C standard.\<close>

lemma first_calls:
  "random_value checked_mult I_SEED_start = Some (2074938252723, 727)"
  "random_value checked_mult 2074938252723 = Some (34873487213515461, 738)"
  "random_value checked_mult 34873487213515461 = None"
proof -
  have "checked_mult 16807 I_SEED_start = Some 2074938252723" "checked_mult 16807 2074938252723 = Some 34873487213515461"
    "checked_mult 16807 34873487213515461 = None"
    by (simp_all add: checked_mult_def I_SEED_start_def)
  then show "random_value checked_mult I_SEED_start = Some (2074938252723, 727)"
    "random_value checked_mult 2074938252723 = Some (34873487213515461, 738)"
    "random_value checked_mult 34873487213515461 = None"
    by (simp_all add: random_value_def randshannon_def sdiv_nonneg Let_def)
qed

lemma random_values_add: "random_values mult (m + k) seed = None" if "random_values mult m seed = None"
  using that by (induction m arbitrary: seed) (auto split: Option.bind_splits)

lemma checked_undefined: "random_values checked_mult n I_SEED_start = None \<longleftrightarrow> 3 \<le> n"
proof
  have "random_values checked_mult k I_SEED_start \<noteq> None" if "k < 3" for k
    using that first_calls by (auto simp: less_Suc_eq eval_nat_numeral)
  then show "random_values checked_mult n I_SEED_start = None \<Longrightarrow> 3 \<le> n" by (metis not_le)
  have "random_values checked_mult 3 I_SEED_start = None" by (simp add: eval_nat_numeral first_calls)
  then show "3 \<le> n \<Longrightarrow> random_values checked_mult n I_SEED_start = None"
    using random_values_add [of checked_mult 3 I_SEED_start "n - 3"] by simp
qed

end
