(* ===== verification/Queue_Programs.thy ===== *)
theory Queue_Programs
  imports Queue_Slist Shannon_Random
begin

text \<open>
  The programs over \<^verbatim>\<open>SLIST\<close> of \<^verbatim>\<open>prototypes/queues\<close>: each inserts values in front of a list of its own,
  prints the list and, in some, frees it. What \<^verbatim>\<open>malloc\<close> gives is a parameter; \<open>None\<close> is undefined
  behaviour. The threads of these programs do not touch the lists.
\<close>

section \<open>State\<close>

text \<open>What is printed; \<open>Line\<close> is a value by itself.\<close>

datatype print = Insert int | Read1 int | Read2 int | Thread_ID int | Line int | Blank

text \<open>\<open>slist_data\<close> are the \<^verbatim>\<open>value\<close> fields of the elements by address.\<close>

record program =
  mem :: qmem
  slist_data :: "nat \<rightharpoonup> int"
  printed :: "print list"

definition head :: nat where "head = 0"

definition say :: "print list \<Rightarrow> program \<Rightarrow> program" where
  "say ps s = s\<lparr>printed := printed s @ ps\<rparr>"

definition init_head :: "program \<Rightarrow> program option" where
  "init_head s = do { m \<leftarrow> SLIST_INIT head (mem s); Some (s\<lparr>mem := m\<rparr>) }"

text \<open>\<^verbatim>\<open>malloc\<close>, with its result; writing to the null pointer is undefined. The entry of the new
  element, which is overwritten before it is read, is taken as null.\<close>

definition new_value :: "ptr \<Rightarrow> int \<Rightarrow> program \<Rightarrow> program option" where
  "new_value p v s = do {
     a \<leftarrow> p;
     Some (s\<lparr>mem := (mem s)\<lparr>cell := (cell (mem s))(Elem a \<mapsto> NULL)\<rparr>, slist_data := (slist_data s)(a \<mapsto> v)\<rparr>)
   }"

definition insert_head :: "ptr \<Rightarrow> program \<Rightarrow> program option" where
  "insert_head p s = do { m \<leftarrow> SLIST_INSERT_HEAD head p (mem s); Some (s\<lparr>mem := m\<rparr>) }"

text \<open>The bodies of the printing loops.\<close>

definition print_body :: "(int \<Rightarrow> print) \<Rightarrow> ((nat \<rightharpoonup> int) \<times> print list) body" where
  "print_body tag e s = do { v \<leftarrow> fst (snd s) e; Some (fst s, (fst (snd s), snd (snd s) @ [tag v])) }"

definition print_foreach :: "(int \<Rightarrow> print) \<Rightarrow> program \<Rightarrow> program option" where
  "print_foreach tag s = do {
     (m, d, ps) \<leftarrow> SLIST_FOREACH (print_body tag) head (mem s, slist_data s, printed s);
     Some (s\<lparr>mem := m, slist_data := d, printed := ps\<rparr>)
   }"

definition print_foreach_safe :: "(int \<Rightarrow> print) \<Rightarrow> program \<Rightarrow> program option" where
  "print_foreach_safe tag s = do {
     (m, d, ps) \<leftarrow> SLIST_FOREACH_SAFE (print_body tag) head (mem s, slist_data s, printed s);
     Some (s\<lparr>mem := m, slist_data := d, printed := ps\<rparr>)
   }"

text \<open>\<^verbatim>\<open>while (!SLIST_EMPTY(&head)) { ...; SLIST_REMOVE_HEAD; free }\<close>, with what the body prints.\<close>

partial_function (option) drain :: "(int \<Rightarrow> print list) \<Rightarrow> program \<Rightarrow> program option" where
  "drain tag s = do {
     e \<leftarrow> SLIST_EMPTY head (mem s);
     if e then Some s
     else do {
       p \<leftarrow> SLIST_FIRST head (mem s);
       a \<leftarrow> p;
       v \<leftarrow> slist_data s a;
       m1 \<leftarrow> SLIST_REMOVE_HEAD head (mem s);
       m2 \<leftarrow> free_elem a m1;
       drain tag ((say (tag v) s)\<lparr>mem := m2, slist_data := (slist_data s)(a := None)\<rparr>)
     }
   }"

declare drain.simps [code]

section \<open>The programs\<close>

text \<open>\<^verbatim>\<open>slist\<close> of \<^verbatim>\<open>queue.prototype.0.0.1.c\<close>; \<open>ps\<close> is what \<^verbatim>\<open>malloc\<close> gives in its rounds.\<close>

fun insert_loop :: "(64 word \<Rightarrow> 64 word \<Rightarrow> 64 word option) \<Rightarrow> ptr list \<Rightarrow> 64 word \<Rightarrow> program \<Rightarrow> program option" where
  "insert_loop mult [] seed s = Some s"
| "insert_loop mult (p # ps) seed s = do {
     (seed1, v) \<leftarrow> random_value mult seed;
     s1 \<leftarrow> new_value p v s;
     s2 \<leftarrow> insert_head p (say [Insert v] s1);
     insert_loop mult ps seed1 s2
   }"

definition slist_program :: "(64 word \<Rightarrow> 64 word \<Rightarrow> 64 word option) \<Rightarrow> ptr list \<Rightarrow> program \<Rightarrow> program option" where
  "slist_program mult ps s = do {
     s1 \<leftarrow> init_head s;
     s2 \<leftarrow> insert_loop mult ps I_SEED_start s1;
     s3 \<leftarrow> print_foreach Read1 (say [Blank] s2);
     drain (\<lambda>v. [Read2 v]) (say [Blank] s3)
   }"

text \<open>\<^verbatim>\<open>slist\<close> of \<^verbatim>\<open>queue.prototype.0.0.2.c\<close>.\<close>

definition slist_tid :: "int \<Rightarrow> ptr \<Rightarrow> program \<Rightarrow> program option" where
  "slist_tid tid p s = do {
     s1 \<leftarrow> init_head s;
     s2 \<leftarrow> new_value p tid s1;
     s3 \<leftarrow> insert_head p s2;
     s4 \<leftarrow> print_foreach_safe Thread_ID s3;
     drain (\<lambda>v. []) s4
   }"

text \<open>\<^verbatim>\<open>main\<close> of \<^verbatim>\<open>queue.prototype.0.0.4.c\<close>, which frees nothing.\<close>

definition main_two :: "(64 word \<Rightarrow> 64 word \<Rightarrow> 64 word option) \<Rightarrow> ptr \<Rightarrow> ptr \<Rightarrow> program \<Rightarrow> program option" where
  "main_two mult p q s = do {
     s1 \<leftarrow> init_head s;
     (seed1, v) \<leftarrow> random_value mult I_SEED_start;
     s2 \<leftarrow> new_value p v s1;
     s3 \<leftarrow> insert_head p s2;
     (seed2, w) \<leftarrow> random_value mult seed1;
     s4 \<leftarrow> new_value q w s3;
     s5 \<leftarrow> insert_head q s4;
     print_foreach Line s5
   }"

text \<open>
  \<^verbatim>\<open>queueAddItem\<close> of \<^verbatim>\<open>queue.prototype.0.0.5.c\<close>: the head is a local variable, so that at its end nothing
  points to the element any more. \<^verbatim>\<open>main\<close> calls it with the identifiers of two threads, which only
  take and give back the mutex.
\<close>

definition queueAddItem :: "int \<Rightarrow> ptr \<Rightarrow> program \<Rightarrow> program option" where
  "queueAddItem tid p s = do {
     s1 \<leftarrow> init_head s;
     s2 \<leftarrow> new_value p tid s1;
     s3 \<leftarrow> insert_head p s2;
     print_foreach_safe Thread_ID s3
   }"

definition main_add :: "int \<Rightarrow> int \<Rightarrow> ptr \<Rightarrow> ptr \<Rightarrow> program \<Rightarrow> program option" where
  "main_add thread1 thread2 p q s = do { s1 \<leftarrow> queueAddItem thread1 p s; queueAddItem thread2 q s1 }"

section \<open>Effects\<close>

text \<open>\<open>holds s xs vs\<close>: the list has the elements \<open>xs\<close> with the values \<open>vs\<close>.\<close>

definition holds :: "program \<Rightarrow> nat list \<Rightarrow> int list \<Rightarrow> bool" where
  "holds s xs vs \<longleftrightarrow> slist (mem s) head xs \<and> map (slist_data s) xs = map Some vs"

definition allocated :: "program \<Rightarrow> nat set" where
  "allocated s = {a. alloc (mem s) (Elem a)}"

lemma say_simps [simp]:
  "holds (say ps s) xs vs = holds s xs vs" "allocated (say ps s) = allocated s"
  "printed (say ps s) = printed s @ ps" "mem (say ps s) = mem s" "slist_data (say ps s) = slist_data s"
  by (simp_all add: holds_def allocated_def say_def)

lemma init_head_holds:
  assumes "alloc (mem s) (Head head)"
  obtains s' where "init_head s = Some s'" "holds s' [] []" "allocated s' = allocated s" "printed s' = printed s"
    "alloc (mem s') (Head head)"
  using assms by (auto simp: init_head_def holds_def allocated_def slist_def)

lemma add_value_holds:
  assumes h: "holds s xs vs" and a: "a \<notin> allocated s"
  obtains s1 s2 where "new_value (Some a) v s = Some s1" "insert_head (Some a) (say ps s1) = Some s2"
    "holds s2 (a # xs) (v # vs)" "allocated s2 = insert a (allocated s)" "printed s2 = printed s @ ps"
proof -
  define s1 where "s1 = s\<lparr>mem := (mem s)\<lparr>cell := (cell (mem s))(Elem a \<mapsto> NULL)\<rparr>, slist_data := (slist_data s)(a \<mapsto> v)\<rparr>"
  have xs: "a \<notin> set xs" using h a by (auto simp: holds_def allocated_def slist_def dest: seg_alloc)
  have "agree (cells head xs) (mem s) (mem s1)" using xs by (auto simp: s1_def agree_def cells_def)
  then have sl: "slist (mem s1) head xs" using h by (auto simp: holds_def intro: sl.rep_agree)
  from slist_insert_head [OF sl _ xs] obtain m'
    where m': "SLIST_INSERT_HEAD head (Some a) (mem s1) = Some m'" "frame (cells head (a # xs)) (mem s1) m'"
      "slist m' head (a # xs)" by (auto simp: s1_def alloc_def elim: yieldsE)
  show ?thesis
  proof (rule that [of s1 "(say ps s1)\<lparr>mem := m'\<rparr>"])
    show "new_value (Some a) v s = Some s1" by (simp add: new_value_def s1_def)
    show "insert_head (Some a) (say ps s1) = Some ((say ps s1)\<lparr>mem := m'\<rparr>)" using m'(1) by (simp add: insert_head_def)
    show "holds ((say ps s1)\<lparr>mem := m'\<rparr>) (a # xs) (v # vs)"
      using m'(3) h xs by (auto simp: holds_def s1_def)
    show "allocated ((say ps s1)\<lparr>mem := m'\<rparr>) = insert a (allocated s)"
      using frame_alloc [OF m'(2)] by (auto simp: allocated_def s1_def alloc_def)
    show "printed ((say ps s1)\<lparr>mem := m'\<rparr>) = printed s @ ps" by (simp add: s1_def)
  qed
qed

lemma foreach_print:
  "seg m l xs NULL \<Longrightarrow> cell m l = Some p \<Longrightarrow> map d xs = map Some vs \<Longrightarrow>
   foreach SLIST_NEXT (print_body tag) p (m, d, ps) = Some (m, d, ps @ map tag vs)"
proof (induction xs arbitrary: l p ps vs)
  case Nil
  then show ?case by (simp add: foreach.simps [of _ _ NULL])
next
  case (Cons x xs)
  obtain n where n: "cell m (Elem x) = Some n" using Cons.prems(1) by (cases xs) auto
  from Cons.prems(3) obtain v vs' where vs: "vs = v # vs'" "d x = Some v" "map d xs = map Some vs'"
    by (cases vs) auto
  with Cons.IH [OF _ n vs(3)] Cons.prems n show ?case
    by (auto simp: foreach.simps [of _ _ "Some x"] print_body_def)
qed

lemma foreach_safe_print:
  "seg m l xs NULL \<Longrightarrow> cell m l = Some p \<Longrightarrow> map d xs = map Some vs \<Longrightarrow>
   foreach_safe SLIST_NEXT (print_body tag) p (m, d, ps) = Some (m, d, ps @ map tag vs)"
proof (induction xs arbitrary: l p ps vs)
  case Nil
  then show ?case by (simp add: foreach_safe.simps [of _ _ NULL])
next
  case (Cons x xs)
  obtain n where n: "cell m (Elem x) = Some n" using Cons.prems(1) by (cases xs) auto
  from Cons.prems(3) obtain v vs' where vs: "vs = v # vs'" "d x = Some v" "map d xs = map Some vs'"
    by (cases vs) auto
  with Cons.IH [OF _ n vs(3)] Cons.prems n show ?case
    by (auto simp: foreach_safe.simps [of _ _ "Some x"] print_body_def)
qed

lemma print_loops:
  assumes "holds s xs vs"
  shows "print_foreach tag s = Some (say (map tag vs) s)" "print_foreach_safe tag s = Some (say (map tag vs) s)"
proof -
  from assms have s: "seg (mem s) (Head head) xs NULL" "map (slist_data s) xs = map Some vs"
    by (simp_all add: holds_def slist_def)
  then obtain p where p: "cell (mem s) (Head head) = Some p" by (cases xs) auto
  show "print_foreach tag s = Some (say (map tag vs) s)" "print_foreach_safe tag s = Some (say (map tag vs) s)"
    using foreach_print [OF s(1) p s(2)] foreach_safe_print [OF s(1) p s(2)] p
    by (simp_all add: print_foreach_def print_foreach_safe_def SLIST_FOREACH_def SLIST_FOREACH_SAFE_def say_def)
qed

lemma drain_frees:
  "holds s xs vs \<Longrightarrow> \<exists>s'. drain tag s = Some s' \<and> holds s' [] [] \<and> allocated s' = allocated s - set xs \<and>
    printed s' = printed s @ concat (map tag vs) \<and> alloc (mem s') (Head head)"
proof (induction xs arbitrary: s vs)
  case Nil
  then have "drain tag s = Some s" by (subst drain.simps) (simp add: SLIST_EMPTY_def holds_def slist_def)
  with Nil show ?case by (auto simp: holds_def slist_def)
next
  case (Cons x xs)
  from Cons.prems obtain v vs' where vs: "vs = v # vs'" "slist_data s x = Some v" "map (slist_data s) xs = map Some vs'"
    and sl: "slist (mem s) head (x # xs)" by (cases vs) (auto simp: holds_def)
  from slist_remove_head [OF sl] obtain m1
    where m1: "SLIST_REMOVE_HEAD head (mem s) = Some m1" "frame (cells head (x # xs)) (mem s) m1" "slist m1 head xs"
    by (auto elim: yieldsE)
  have x: "x \<notin> set xs" "alloc (mem s) (Elem x)" using sl by (auto simp: slist_def dest: seg_alloc)
  define m2 where "m2 = m1\<lparr>cell := (cell m1)(Elem x := None), addr := (addr m1)(Elem x := None)\<rparr>"
  have free: "free_elem x m1 = Some m2"
    using x(2) frame_alloc [OF m1(2), of "Elem x"] by (auto simp: free_elem_def m2_def alloc_def)
  have "agree (cells head xs) m1 m2" using x(1) by (auto simp: agree_def cells_def m2_def)
  then have sl2: "slist m2 head xs" using m1(3) by (rule sl.rep_agree [rotated])
  let ?s = "(say (tag v) s)\<lparr>mem := m2, slist_data := (slist_data s)(x := None)\<rparr>"
  have "holds ?s xs vs'" using sl2 vs(3) x(1) by (auto simp: holds_def)
  from Cons.IH [OF this] obtain s' where s': "drain tag ?s = Some s'" "holds s' [] []"
    "allocated s' = allocated ?s - set xs" "printed s' = printed ?s @ concat (map tag vs')" "alloc (mem s') (Head head)"
    by blast
  have "cell (mem s) (Head head) = Some (Some x)" using sl by (simp add: slist_def)
  then have "drain tag s = Some s'"
    using m1(1) free s'(1) vs(2) by (subst drain.simps) (simp add: SLIST_EMPTY_def)
  moreover have "allocated ?s = allocated s - {x}"
    using frame_alloc [OF m1(2)] by (auto simp: allocated_def m2_def alloc_def)
  ultimately show ?case using s' vs(1) by auto
qed

section \<open>What the programs do\<close>

lemma insert_loop_holds:
  assumes "random_values mult (length as) seed = Some (seed', ws)" and "holds s xs vs"
    and "distinct as" and "set as \<inter> allocated s = {}"
  shows "\<exists>s'. insert_loop mult (map Some as) seed s = Some s' \<and> holds s' (rev as @ xs) (rev ws @ vs) \<and>
    allocated s' = allocated s \<union> set as \<and> printed s' = printed s @ map Insert ws"
  using assms
proof (induction as arbitrary: seed s xs vs ws)
  case (Cons a as)
  from Cons.prems(1) obtain seed1 v ws' where r: "random_value mult seed = Some (seed1, v)"
    "random_values mult (length as) seed1 = Some (seed', ws')" "ws = v # ws'" by (auto simp: bind_eq_Some_conv)
  from Cons.prems(4) have "a \<notin> allocated s" by simp
  with Cons.prems(2) obtain s1 s2 where s: "new_value (Some a) v s = Some s1" "insert_head (Some a) (say [Insert v] s1) = Some s2"
    "holds s2 (a # xs) (v # vs)" "allocated s2 = insert a (allocated s)" "printed s2 = printed s @ [Insert v]"
    by (rule add_value_holds)
  have "set as \<inter> allocated s2 = {}" using Cons.prems(3,4) s(4) by auto
  from Cons.IH [OF r(2) s(3) _ this] Cons.prems(3) r s show ?case by auto
qed simp

lemma slist_program_correct:
  assumes "random_values mult (length as) I_SEED_start = Some (seed, vs)"
    and "alloc (mem s) (Head head)" and "distinct as" and "set as \<inter> allocated s = {}"
  shows "\<exists>s'. slist_program mult (map Some as) s = Some s' \<and> allocated s' = allocated s \<and>
    printed s' = printed s @ map Insert vs @ [Blank] @ map Read1 (rev vs) @ [Blank] @ map Read2 (rev vs)"
proof -
  obtain s1 where s1: "init_head s = Some s1" "holds s1 [] []" "allocated s1 = allocated s" "printed s1 = printed s"
    by (rule init_head_holds [OF assms(2)])
  from insert_loop_holds [OF assms(1) s1(2) assms(3)] assms(4) s1(3) obtain s2
    where s2: "insert_loop mult (map Some as) I_SEED_start s1 = Some s2" "holds s2 (rev as) (rev vs)"
      "allocated s2 = allocated s \<union> set as" "printed s2 = printed s1 @ map Insert vs" by auto
  let ?s3 = "say [Blank] (say (map Read1 (rev vs)) (say [Blank] s2))"
  have "holds ?s3 (rev as) (rev vs)" using s2(2) by simp
  from drain_frees [OF this, of "\<lambda>v. [Read2 v]"] obtain s4 where s4: "drain (\<lambda>v. [Read2 v]) ?s3 = Some s4"
    "allocated s4 = allocated ?s3 - set (rev as)"
    "printed s4 = printed ?s3 @ concat (map (\<lambda>v. [Read2 v]) (rev vs))" by blast
  have "slist_program mult (map Some as) s = Some s4"
    using s1(1) s2(1) s4(1) print_loops(1) [of "say [Blank] s2" "rev as" "rev vs" Read1] s2(2)
    by (simp add: slist_program_def)
  with s1 s2 s4 assms(4) show ?thesis by (auto simp: concat_map_singleton)
qed

lemma insert_loop_values:
  "insert_loop mult ps seed s = Some s' \<Longrightarrow> random_values mult (length ps) seed \<noteq> None"
proof (induction ps arbitrary: seed s)
  case (Cons p ps)
  then show ?case by (fastforce simp: bind_eq_Some_conv)
qed simp

lemma slist_program_values: "slist_program mult ps s = Some s' \<Longrightarrow> random_values mult (length ps) I_SEED_start \<noteq> None"
  by (auto simp: slist_program_def bind_eq_Some_conv dest: insert_loop_values)

text \<open>One element in a list of its own.\<close>

lemma single_item:
  assumes "alloc (mem s) (Head head)" and "a \<notin> allocated s"
  obtains s1 s2 s3 where "init_head s = Some s1" "new_value (Some a) v s1 = Some s2" "insert_head (Some a) s2 = Some s3"
    "holds s3 [a] [v]" "allocated s3 = insert a (allocated s)" "printed s3 = printed s" "alloc (mem s3) (Head head)"
proof -
  obtain s1 where s1: "init_head s = Some s1" "holds s1 [] []" "allocated s1 = allocated s" "printed s1 = printed s"
    by (rule init_head_holds [OF assms(1)])
  from assms(2) s1(3) have "a \<notin> allocated s1" by simp
  with s1(2) obtain s2 s3 where s3: "new_value (Some a) v s1 = Some s2" "insert_head (Some a) (say [] s2) = Some s3"
    "holds s3 [a] [v]" "allocated s3 = insert a (allocated s1)" "printed s3 = printed s1 @ []"
    by (rule add_value_holds)
  have "insert_head (Some a) s2 = Some s3" using s3(2) by (simp add: say_def)
  moreover have "alloc (mem s3) (Head head)" using s3(3) by (auto simp: holds_def slist_def)
  ultimately show ?thesis using that s1 s3 by simp
qed

lemma slist_tid_correct:
  assumes "alloc (mem s) (Head head)" and "a \<notin> allocated s"
  shows "\<exists>s'. slist_tid tid (Some a) s = Some s' \<and> allocated s' = allocated s \<and> printed s' = printed s @ [Thread_ID tid] \<and>
    alloc (mem s') (Head head)"
proof -
  obtain s1 s2 s3 where s: "init_head s = Some s1" "new_value (Some a) tid s1 = Some s2" "insert_head (Some a) s2 = Some s3"
    "holds s3 [a] [tid]" "allocated s3 = insert a (allocated s)" "printed s3 = printed s"
    by (rule single_item [OF assms])
  have "holds (say [Thread_ID tid] s3) [a] [tid]" using s(4) by simp
  from drain_frees [OF this, of "\<lambda>v. []"] obtain s4 where "drain (\<lambda>v. []) (say [Thread_ID tid] s3) = Some s4"
    "allocated s4 = allocated s3 - {a}" "printed s4 = printed s3 @ [Thread_ID tid]" "alloc (mem s4) (Head head)" by auto
  with s assms(2) print_loops(2) [OF s(4), of Thread_ID] show ?thesis by (auto simp: slist_tid_def)
qed

lemma queueAddItem_correct:
  assumes "alloc (mem s) (Head head)" and "a \<notin> allocated s"
  shows "\<exists>s'. queueAddItem tid (Some a) s = Some s' \<and> allocated s' = insert a (allocated s) \<and>
    printed s' = printed s @ [Thread_ID tid] \<and> alloc (mem s') (Head head)"
proof -
  obtain s1 s2 s3 where s: "init_head s = Some s1" "new_value (Some a) tid s1 = Some s2" "insert_head (Some a) s2 = Some s3"
    "holds s3 [a] [tid]" "allocated s3 = insert a (allocated s)" "printed s3 = printed s" "alloc (mem s3) (Head head)"
    by (rule single_item [OF assms])
  with print_loops(2) [OF s(4), of Thread_ID] show ?thesis by (simp add: queueAddItem_def)
qed

lemma main_two_prints:
  assumes "alloc (mem s) (Head head)" and "a \<notin> allocated s" and "b \<notin> allocated s" and "a \<noteq> b"
  shows "\<exists>s'. main_two checked_mult (Some a) (Some b) s = Some s' \<and>
    printed s' = printed s @ [Line 738, Line 727] \<and> allocated s' = insert b (insert a (allocated s))"
proof -
  obtain s1 s2 s3 where s: "init_head s = Some s1" "new_value (Some a) 727 s1 = Some s2" "insert_head (Some a) s2 = Some s3"
    "holds s3 [a] [727]" "allocated s3 = insert a (allocated s)" "printed s3 = printed s"
    by (rule single_item [OF assms(1,2)])
  have "b \<notin> allocated s3" using s(5) assms(3,4) by simp
  with s(4) obtain s4 s5 where s5: "new_value (Some b) 738 s3 = Some s4" "insert_head (Some b) (say [] s4) = Some s5"
    "holds s5 [b, a] [738, 727]" "allocated s5 = insert b (allocated s3)" "printed s5 = printed s3 @ []"
    by (rule add_value_holds)
  have "insert_head (Some b) s4 = Some s5" using s5(2) by (simp add: say_def)
  with s s5 print_loops(1) [OF s5(3), of Line] show ?thesis by (simp add: main_two_def first_calls)
qed

section \<open>Properties\<close>

text \<open>
  C38: The program \<^verbatim>\<open>slist\<close>, with arithmetic that wraps around: for any number of rounds it prints the values it
  inserts, then the list, which is their reverse, and the list again while it frees it;
  every value is between 0 and 999, and no element stays allocated. By the C standard
  it is undefined from three rounds on, where the random numbers overflow.
\<close>

theorem slist_program_prints:
  assumes "alloc (mem s) (Head head)" and "distinct as" and "set as \<inter> allocated s = {}"
  shows "(\<exists>vs s'. slist_program wrap_mult (map Some as) s = Some s' \<and> length vs = length as \<and>
      (\<forall>v \<in> set vs. 0 \<le> v \<and> v < 1000) \<and> allocated s' = allocated s \<and>
      printed s' = printed s @ map Insert vs @ [Blank] @ map Read1 (rev vs) @ [Blank] @ map Read2 (rev vs)) \<and>
    (slist_program checked_mult (map Some as) s = None \<longleftrightarrow> 3 \<le> length as)"
proof -
  have start: "0 \<le> sint I_SEED_start" by (simp add: I_SEED_start_def)
  obtain seed vs where vs: "random_values wrap_mult (length as) I_SEED_start = Some (seed, vs)"
    using random_values_wrap by fastforce
  note range = random_values_range [OF _ start vs]
  have "\<exists>vs s'. slist_program wrap_mult (map Some as) s = Some s' \<and> length vs = length as \<and>
      (\<forall>v \<in> set vs. 0 \<le> v \<and> v < 1000) \<and> allocated s' = allocated s \<and>
      printed s' = printed s @ map Insert vs @ [Blank] @ map Read1 (rev vs) @ [Blank] @ map Read2 (rev vs)"
    using slist_program_correct [OF vs assms] range by blast
  moreover have "slist_program checked_mult (map Some as) s = None \<longleftrightarrow> random_values checked_mult (length as) I_SEED_start = None"
  proof
    assume "slist_program checked_mult (map Some as) s = None"
    then show "random_values checked_mult (length as) I_SEED_start = None"
      using slist_program_correct [OF _ assms, of checked_mult]
      by (cases "random_values checked_mult (length as) I_SEED_start") auto
  next
    assume "random_values checked_mult (length as) I_SEED_start = None"
    then show "slist_program checked_mult (map Some as) s = None"
      using slist_program_values [of checked_mult "map Some as" s] by (cases "slist_program checked_mult (map Some as) s") auto
  qed
  ultimately show ?thesis by (simp add: checked_undefined)
qed

definition empty_program :: program where
  "empty_program = \<lparr>mem = \<lparr>cell = [Head head \<mapsto> NULL], addr = Map.empty\<rparr>, slist_data = Map.empty, printed = []\<rparr>"

lemma empty_program_simps [simp]:
  "alloc (mem empty_program) (Head head)" "allocated empty_program = {}" "printed empty_program = []"
  by (simp_all add: empty_program_def allocated_def alloc_def)

theorem slist_program_prints_witness:
  "(\<exists>vs s'. slist_program wrap_mult [Some 5, Some 9, Some 6] empty_program = Some s' \<and> length vs = 3 \<and>
      (\<forall>v \<in> set vs. 0 \<le> v \<and> v < 1000) \<and> allocated s' = {} \<and>
      printed s' = map Insert vs @ [Blank] @ map Read1 (rev vs) @ [Blank] @ map Read2 (rev vs)) \<and>
    slist_program checked_mult [Some 5, Some 9, Some 6] empty_program = None"
  using slist_program_prints [of empty_program "[5, 9, 6]"] by (simp add: numeral_3_eq_3)

text \<open>
  The function \<^verbatim>\<open>slist\<close> of the second prototype prints its value and frees its element.
  \<^verbatim>\<open>queueAddItem\<close> of the fifth does not: the two calls of its \<^verbatim>\<open>main\<close> print both identifiers, each from
  a list of its own, and leave both elements allocated, with no list that holds them.
\<close>

theorem slist_tid_frees_add_item_leaks:
  assumes "alloc (mem s) (Head head)" and "a \<notin> allocated s" and "b \<notin> allocated s" and "a \<noteq> b"
  shows "(\<exists>s'. slist_tid tid (Some a) s = Some s' \<and> allocated s' = allocated s \<and> printed s' = printed s @ [Thread_ID tid]) \<and>
    (\<exists>s'. main_add tid tid2 (Some a) (Some b) s = Some s' \<and> allocated s' = insert b (insert a (allocated s)) \<and>
      printed s' = printed s @ [Thread_ID tid, Thread_ID tid2])"
proof -
  obtain s1 where s1: "queueAddItem tid (Some a) s = Some s1" "allocated s1 = insert a (allocated s)"
    "printed s1 = printed s @ [Thread_ID tid]" "alloc (mem s1) (Head head)"
    using queueAddItem_correct [OF assms(1,2)] by blast
  have "b \<notin> allocated s1" using s1(2) assms(3,4) by simp
  from queueAddItem_correct [OF s1(4) this, of tid2] s1 have
    "\<exists>s'. main_add tid tid2 (Some a) (Some b) s = Some s' \<and> allocated s' = insert b (insert a (allocated s)) \<and>
      printed s' = printed s @ [Thread_ID tid, Thread_ID tid2]"
    by (auto simp: main_add_def)
  then show ?thesis using slist_tid_correct [OF assms(1,2), of tid] by blast
qed

theorem slist_tid_frees_add_item_leaks_witness:
  "\<exists>s'. main_add 41 42 (Some 5) (Some 6) empty_program = Some s' \<and> allocated s' = {5, 6} \<and>
      printed s' = [Thread_ID 41, Thread_ID 42]"
  using slist_tid_frees_add_item_leaks [of empty_program 5 6 41 42] by (simp add: insert_commute)

end
