(* ===== verification/Queue_Threads.thy ===== *)
theory Queue_Threads
  imports Queue_Programs
begin

text \<open>
  The programs of \<^verbatim>\<open>prototypes/queues\<close> that start threads: \<^verbatim>\<open>main\<close> and \<^verbatim>\<open>thread_function_read\<close> of
  \<^verbatim>\<open>queue.prototype.0.0.2.c\<close>, \<^verbatim>\<open>0.0.3.c\<close> and \<^verbatim>\<open>0.0.5.c\<close>, each as a step relation over \<^verbatim>\<open>main\<close> and the
  threads in any interleaving, over the lists of \<open>Queue_Programs\<close>. The fifth is right in every
  run; the third is undefined in every run that ends, the second as soon as a thread runs.
\<close>

section \<open>State\<close>

text \<open>A thread before its first action, inside, and after its end.\<close>

datatype worker = At_Begin | At_Unlock | Done

text \<open>
  \<open>main_at\<close> counts the actions of \<^verbatim>\<open>main\<close>; \<open>global_mutex\<close> is \<open>None\<close> while \<^verbatim>\<open>mutex\<close> is not initialised,
  and else its holder; \<open>created n\<close> is what \<^verbatim>\<open>pthread_create\<close> stored in \<^verbatim>\<open>threadn\<close>; \<open>data_id n\<close> is the
  field \<^verbatim>\<open>thread_id\<close> of \<^verbatim>\<open>datan\<close>, \<open>None\<close> before it is written; \<open>undef\<close> is set by an action that C or
  POSIX does not define.
\<close>

record pt_state =
  prog :: program
  main_at :: nat
  workers :: "nat \<rightharpoonup> worker"
  global_mutex :: "nat option option"
  created :: "nat \<rightharpoonup> int"
  data_id :: "nat \<rightharpoonup> int"
  undef :: bool

text \<open>\<open>create_id n\<close>: the identifier of the thread that the call creates, if it does; \<open>elem n\<close>: what
  the \<open>n\<close>-th \<^verbatim>\<open>malloc\<close> gives.\<close>

record pt_env =
  create_id :: "nat \<Rightarrow> int option"
  elem :: "nat \<Rightarrow> ptr"

definition pt_start :: "program \<Rightarrow> pt_state" where
  "pt_start p = \<lparr>prog = p, main_at = 0, workers = Map.empty, global_mutex = None, created = Map.empty,
     data_id = Map.empty, undef = False\<rparr>"

definition undefined_step :: "pt_state \<Rightarrow> pt_state" where
  "undefined_step s = s\<lparr>undef := True\<rparr>"

text \<open>\<^verbatim>\<open>main\<close> goes on.\<close>

definition goes_on :: "pt_state \<Rightarrow> pt_state" where
  "goes_on s = s\<lparr>main_at := main_at s + 1\<rparr>"

definition on_list :: "(program \<Rightarrow> program option) \<Rightarrow> pt_state \<Rightarrow> pt_state" where
  "on_list f s = (case f (prog s) of None \<Rightarrow> undefined_step s | Some p \<Rightarrow> goes_on (s\<lparr>prog := p\<rparr>))"

section \<open>Library calls\<close>

text \<open>Initialising a mutex twice is undefined, as is destroying one that is held or not there.\<close>

definition pt_mutex_init :: "pt_state \<Rightarrow> pt_state" where
  "pt_mutex_init s = (if global_mutex s = None then s\<lparr>global_mutex := Some None\<rparr> else undefined_step s)"

definition pt_mutex_destroy :: "pt_state \<Rightarrow> pt_state" where
  "pt_mutex_destroy s = (if global_mutex s = Some None then s\<lparr>global_mutex := None\<rparr> else undefined_step s)"

text \<open>The result of \<^verbatim>\<open>pthread_create\<close> is not looked at by these programs.\<close>

definition create_worker :: "pt_env \<Rightarrow> nat \<Rightarrow> pt_state \<Rightarrow> pt_state" where
  "create_worker E n s =
     (case create_id E n of None \<Rightarrow> s
      | Some i \<Rightarrow> s\<lparr>workers := (workers s)(n \<mapsto> At_Begin), created := (created s)(n \<mapsto> i)\<rparr>)"

text \<open>\<^verbatim>\<open>pthread_join\<close> waits; with an identifier that was never stored it is undefined.\<close>

definition join_worker :: "nat \<Rightarrow> pt_state \<Rightarrow> pt_state option" where
  "join_worker n s =
     (case created s n of None \<Rightarrow> Some (undefined_step s)
      | Some i \<Rightarrow> if workers s n = Some Done then Some (goes_on s) else None)"

abbreviation worker_goes :: "nat \<Rightarrow> worker \<Rightarrow> pt_state \<Rightarrow> pt_state" where
  "worker_goes n w s \<equiv> s\<lparr>workers := (workers s)(n \<mapsto> w)\<rparr>"

section \<open>queue.prototype.0.0.5.c\<close>

definition worker5 :: "nat \<Rightarrow> pt_state \<Rightarrow> pt_state option" where
  "worker5 n s =
     (case workers s n of
        Some At_Begin \<Rightarrow>
          (case global_mutex s of
             None \<Rightarrow> Some (undefined_step s)
           | Some None \<Rightarrow> Some (worker_goes n At_Unlock (s\<lparr>global_mutex := Some (Some n)\<rparr>))
           | Some (Some k) \<Rightarrow> None)
      | Some At_Unlock \<Rightarrow>
          Some (if global_mutex s = Some (Some n) then worker_goes n Done (s\<lparr>global_mutex := Some None\<rparr>)
                else undefined_step s)
      | _ \<Rightarrow> None)"

text \<open>Using an identifier that \<^verbatim>\<open>pthread_create\<close> did not store is undefined.\<close>

definition add_worker :: "pt_env \<Rightarrow> nat \<Rightarrow> pt_state \<Rightarrow> pt_state" where
  "add_worker E n s = on_list (\<lambda>p. do { i \<leftarrow> created s n; queueAddItem i (elem E n) p }) s"

fun main5_at :: "pt_env \<Rightarrow> nat \<Rightarrow> pt_state \<Rightarrow> pt_state option" where
  "main5_at E n s =
     (if n = 0 then Some (goes_on (pt_mutex_init s))
      else if n = 1 then Some (goes_on (create_worker E 1 s))
      else if n = 2 then Some (add_worker E 1 s)
      else if n = 3 then Some (goes_on (create_worker E 2 s))
      else if n = 4 then Some (add_worker E 2 s)
      else if n = 5 then join_worker 1 s
      else if n = 6 then join_worker 2 s
      else if n = 7 then Some (goes_on (pt_mutex_destroy s))
      else None)"

definition main5 :: "pt_env \<Rightarrow> pt_state \<Rightarrow> pt_state option" where
  "main5 E s = main5_at E (main_at s) s"

section \<open>queue.prototype.0.0.3.c\<close>

text \<open>The thread initialises the mutex again, and gives it back without having taken it.\<close>

definition worker3 :: "nat \<Rightarrow> pt_state \<Rightarrow> pt_state option" where
  "worker3 n s =
     (case workers s n of
        Some At_Begin \<Rightarrow>
          Some (worker_goes n At_Unlock ((pt_mutex_init s)\<lparr>data_id := (data_id s)(n := created s n)\<rparr>))
      | Some At_Unlock \<Rightarrow>
          Some (if global_mutex s = Some (Some n) then worker_goes n Done (s\<lparr>global_mutex := Some None\<rparr>)
                else undefined_step s)
      | _ \<Rightarrow> None)"

text \<open>\<^verbatim>\<open>main\<close> reads \<^verbatim>\<open>thread_id\<close> right after the creation; \<open>garbage n\<close> is what it finds if it is not written.\<close>

definition read_id :: "(nat \<Rightarrow> int) \<Rightarrow> nat \<Rightarrow> pt_state \<Rightarrow> int" where
  "read_id garbage n s = (case data_id s n of None \<Rightarrow> garbage n | Some i \<Rightarrow> i)"

definition insert_id :: "pt_env \<Rightarrow> (nat \<Rightarrow> int) \<Rightarrow> nat \<Rightarrow> pt_state \<Rightarrow> pt_state" where
  "insert_id E garbage n s =
     on_list (\<lambda>p. do { p1 \<leftarrow> new_value (elem E n) (read_id garbage n s) p; insert_head (elem E n) p1 }) s"

fun main3_at :: "pt_env \<Rightarrow> (nat \<Rightarrow> int) \<Rightarrow> nat \<Rightarrow> pt_state \<Rightarrow> pt_state option" where
  "main3_at E garbage n s =
     (if n = 0 then Some (on_list init_head s)
      else if n = 1 then Some (goes_on (pt_mutex_init s))
      else if n = 2 then Some (goes_on (create_worker E 1 s))
      else if n = 3 then Some (insert_id E garbage 1 s)
      else if n = 4 then Some (goes_on (create_worker E 2 s))
      else if n = 5 then Some (insert_id E garbage 2 s)
      else if n = 6 then join_worker 1 s
      else if n = 7 then join_worker 2 s
      else if n = 8 then Some (on_list (print_foreach_safe Thread_ID) s)
      else if n = 9 then Some (goes_on (pt_mutex_destroy s))
      else None)"

definition main3 :: "pt_env \<Rightarrow> (nat \<Rightarrow> int) \<Rightarrow> pt_state \<Rightarrow> pt_state option" where
  "main3 E garbage s = main3_at E garbage (main_at s) s"

section \<open>queue.prototype.0.0.2.c\<close>

text \<open>The field \<^verbatim>\<open>mutex\<close> is a pointer that is never set: the first action of a thread uses it.\<close>

definition worker2 :: "nat \<Rightarrow> pt_state \<Rightarrow> pt_state option" where
  "worker2 n s = (if workers s n = Some At_Begin then Some (undefined_step s) else None)"

text \<open>\<^verbatim>\<open>Read1\<close> and \<open>Read2\<close> stand for the lines with the results of threads 1 and 2.\<close>

definition slist_id :: "pt_env \<Rightarrow> (nat \<Rightarrow> int) \<Rightarrow> nat \<Rightarrow> pt_state \<Rightarrow> pt_state" where
  "slist_id E garbage n s = on_list (slist_tid (read_id garbage 0 s) (elem E n)) s"

fun main2_at :: "pt_env \<Rightarrow> (nat \<Rightarrow> int) \<Rightarrow> nat \<Rightarrow> pt_state \<Rightarrow> pt_state option" where
  "main2_at E garbage n s =
     (if n = 0 then Some (goes_on (create_worker E 1 s))
      else if n = 1 then Some (on_list (\<lambda>p. Some (say [Read1 (read_id garbage 0 s)] p)) s)
      else if n = 2 then Some (slist_id E garbage 1 s)
      else if n = 3 then Some (goes_on (create_worker E 2 s))
      else if n = 4 then Some (slist_id E garbage 2 s)
      else if n = 5 then Some (on_list (\<lambda>p. Some (say [Read2 (read_id garbage 0 s), Line (read_id garbage 0 s)] p)) s)
      else None)"

definition main2 :: "pt_env \<Rightarrow> (nat \<Rightarrow> int) \<Rightarrow> pt_state \<Rightarrow> pt_state option" where
  "main2 E garbage s = main2_at E garbage (main_at s) s"

section \<open>Runs\<close>

text \<open>A run of a program goes on until \<^verbatim>\<open>main\<close> has done its \<open>last\<close> action or an action is undefined.\<close>

inductive pt_run ::
  "nat \<Rightarrow> (pt_state \<Rightarrow> pt_state option) \<Rightarrow> (nat \<Rightarrow> pt_state \<Rightarrow> pt_state option) \<Rightarrow> pt_state \<Rightarrow> pt_state \<Rightarrow> bool"
  for k m w where
  pt_begin: "pt_run k m w s s"
| pt_main: "pt_run k m w s s1 \<Longrightarrow> main_at s1 < k \<Longrightarrow> \<not> undef s1 \<Longrightarrow> m s1 = Some s2 \<Longrightarrow> pt_run k m w s s2"
| pt_worker: "pt_run k m w s s1 \<Longrightarrow> main_at s1 < k \<Longrightarrow> \<not> undef s1 \<Longrightarrow> w n s1 = Some s2 \<Longrightarrow> pt_run k m w s s2"

lemmas pt_steps = undefined_step_def goes_on_def pt_mutex_init_def pt_mutex_destroy_def create_worker_def join_worker_def

section \<open>The fifth program\<close>

definition mutex_ok :: "pt_state \<Rightarrow> bool" where
  "mutex_ok s \<longleftrightarrow> (\<forall>k. workers s k = Some At_Unlock \<longleftrightarrow> global_mutex s = Some (Some k)) \<and>
     (1 \<le> main_at s \<and> main_at s \<le> 7 \<longleftrightarrow> global_mutex s \<noteq> None)"

definition workers_ok :: "pt_env \<Rightarrow> pt_state \<Rightarrow> bool" where
  "workers_ok E s \<longleftrightarrow>
     (workers s 1 \<noteq> None \<longleftrightarrow> 2 \<le> main_at s) \<and> (workers s 2 \<noteq> None \<longleftrightarrow> 4 \<le> main_at s) \<and>
     (\<forall>k. k \<noteq> 1 \<and> k \<noteq> 2 \<longrightarrow> workers s k = None) \<and>
     (2 \<le> main_at s \<longrightarrow> created s 1 = create_id E 1) \<and> (4 \<le> main_at s \<longrightarrow> created s 2 = create_id E 2) \<and>
     (6 \<le> main_at s \<longrightarrow> workers s 1 = Some Done) \<and> (7 \<le> main_at s \<longrightarrow> workers s 2 = Some Done)"

text \<open>The lists: what has been printed and what is left allocated after \<open>k\<close> of the two calls.\<close>

definition lists_ok :: "program \<Rightarrow> (int \<times> nat) list \<Rightarrow> nat \<Rightarrow> program \<Rightarrow> bool" where
  "lists_ok p0 items k p \<longleftrightarrow> alloc (mem p) (Head head) \<and>
     printed p = printed p0 @ map (Thread_ID \<circ> fst) (take k items) \<and>
     allocated p = allocated p0 \<union> set (map snd (take k items))"

definition calls_done :: "nat \<Rightarrow> nat" where
  "calls_done n = (if n < 3 then 0 else if n < 5 then 1 else 2)"

definition inv5 :: "pt_env \<Rightarrow> program \<Rightarrow> (int \<times> nat) list \<Rightarrow> pt_state \<Rightarrow> bool" where
  "inv5 E p0 items s \<longleftrightarrow> \<not> undef s \<and> main_at s \<le> 8 \<and> mutex_ok s \<and> workers_ok E s \<and>
     lists_ok p0 items (calls_done (main_at s)) (prog s)"

lemma queueAddItem_lists:
  assumes "lists_ok p0 [(i, a), (j, b)] k p" and "k < 2" and "{a, b} \<inter> allocated p0 = {}" and "a \<noteq> b"
    and "it = [(i, a), (j, b)] ! k"
  obtains p' where "queueAddItem (fst it) (Some (snd it)) p = Some p'" "lists_ok p0 [(i, a), (j, b)] (Suc k) p'"
proof -
  have new: "snd it \<notin> allocated p"
    using assms by (auto simp: lists_ok_def less_2_cases_iff)
  have "alloc (mem p) (Head head)" using assms(1) by (simp add: lists_ok_def)
  from queueAddItem_correct [OF this new, of "fst it"] obtain p' where
    p': "queueAddItem (fst it) (Some (snd it)) p = Some p'" "allocated p' = insert (snd it) (allocated p)"
    "printed p' = printed p @ [Thread_ID (fst it)]" "alloc (mem p') (Head head)" by blast
  have "lists_ok p0 [(i, a), (j, b)] (Suc k) p'"
    using p' assms(1,2,5) by (auto simp: lists_ok_def less_2_cases_iff)
  with p'(1) that show ?thesis by blast
qed

lemma worker5_inv:
  assumes inv: "inv5 E p0 items s" and step: "worker5 n s = Some s'" and "main_at s < 8"
  shows "inv5 E p0 items s'"
proof -
  from step obtain w where w: "workers s n = Some w" "w \<noteq> Done"
    by (auto simp: worker5_def split: option.splits worker.splits)
  have n: "n = 1 \<or> n = 2" using inv w(1) by (auto simp: inv5_def workers_ok_def)
  have m: "global_mutex s \<noteq> None"
  proof -
    from n have "2 \<le> main_at s" using inv w(1) by (auto simp: inv5_def workers_ok_def)
    then show ?thesis using inv assms(3) by (auto simp: inv5_def mutex_ok_def)
  qed
  have w': "n = 1 \<and> main_at s < 6 \<or> n = 2 \<and> main_at s < 7"
    using n by (elim disjE) (use inv w in \<open>auto simp: inv5_def workers_ok_def not_le [symmetric]\<close>)
  show ?thesis
  proof (cases w)
    case At_Begin
    then have g: "global_mutex s = Some None" and s': "s' = worker_goes n At_Unlock (s\<lparr>global_mutex := Some (Some n)\<rparr>)"
      using step w m by (auto simp: worker5_def split: option.splits)
    have "mutex_ok s'" using inv g s' by (auto simp: inv5_def mutex_ok_def)
    moreover have "workers_ok E s'" using inv w w' s' by (auto simp: inv5_def workers_ok_def)
    ultimately show ?thesis using inv s' by (simp add: inv5_def)
  next
    case At_Unlock
    then have g: "global_mutex s = Some (Some n)" using inv w by (auto simp: inv5_def mutex_ok_def)
    then have s': "s' = worker_goes n Done (s\<lparr>global_mutex := Some None\<rparr>)"
      using step w At_Unlock by (auto simp: worker5_def)
    have "mutex_ok s'" using inv g s' by (auto simp: inv5_def mutex_ok_def)
    moreover have "workers_ok E s'" using inv w w' s' by (auto simp: inv5_def workers_ok_def)
    ultimately show ?thesis using inv s' by (simp add: inv5_def)
  qed (use w in simp)
qed

text \<open>The environment of the fifth program: threads can be created, and memory is given.\<close>

definition serves5 :: "pt_env \<Rightarrow> program \<Rightarrow> (int \<times> nat) list \<Rightarrow> bool" where
  "serves5 E p0 items \<longleftrightarrow> length items = 2 \<and> alloc (mem p0) (Head head) \<and>
     set (map snd items) \<inter> allocated p0 = {} \<and> distinct (map snd items) \<and>
     (\<forall>k < 2. create_id E (Suc k) = Some (fst (items ! k)) \<and> elem E (Suc k) = Some (snd (items ! k)))"

lemma add_worker_inv:
  assumes E: "serves5 E p0 items" and inv: "inv5 E p0 items s" and n: "main_at s = 2 * Suc k" "k < 2"
  shows "inv5 E p0 items (add_worker E (Suc k) s)"
proof -
  obtain i a j b where items: "items = [(i, a), (j, b)]"
    using E by (auto simp: serves5_def numeral_2_eq_2 length_Suc_conv)
  have c: "created s (Suc k) = Some (fst (items ! k))"
    using less_2_cases [OF n(2)]
    by (elim disjE) (use E inv n in \<open>auto simp: serves5_def inv5_def workers_ok_def numeral_2_eq_2\<close>)
  have k: "calls_done (main_at s) = k" "calls_done (Suc (main_at s)) = Suc k"
    using n by (auto simp: calls_done_def less_2_cases_iff)
  have "lists_ok p0 [(i, a), (j, b)] k (prog s)" using inv items k by (simp add: inv5_def)
  then obtain p' where p': "queueAddItem (fst (items ! k)) (Some (snd (items ! k))) (prog s) = Some p'"
    "lists_ok p0 items (Suc k) p'"
    by (rule queueAddItem_lists [where it = "items ! k"]) (use E n items in \<open>auto simp: serves5_def\<close>)
  have "add_worker E (Suc k) s = goes_on (s\<lparr>prog := p'\<rparr>)"
    using E c p' n by (simp add: add_worker_def on_list_def serves5_def)
  with inv k p' n show ?thesis
    by (auto simp: inv5_def goes_on_def mutex_ok_def workers_ok_def less_2_cases_iff)
qed

text \<open>The other actions of \<^verbatim>\<open>main\<close>: they keep the lists, and the count of the calls.\<close>

lemma main5_other:
  assumes inv: "inv5 E p0 items s" and "mutex_ok s'" and "workers_ok E s'" and "\<not> undef s'"
    and "prog s' = prog s" and "main_at s' = Suc (main_at s)" and "main_at s \<notin> {2, 4}" and "main_at s < 8"
  shows "inv5 E p0 items s'"
  using assms by (auto simp: inv5_def calls_done_def split: if_splits)

lemma main5_inv:
  assumes E: "serves5 E p0 items" and inv: "inv5 E p0 items s" and step: "main5 E s = Some s'"
  shows "inv5 E p0 items s'"
proof -
  have le: "main_at s < 8" using step by (auto simp: main5_def split: if_splits)
  have m: "mutex_ok s" and w: "workers_ok E s" and u: "\<not> undef s" using inv by (simp_all add: inv5_def)
  have ids: "create_id E 1 = Some (fst (items ! 0))" "create_id E 2 = Some (fst (items ! 1))"
    using E by (auto simp: serves5_def less_2_cases_iff numeral_2_eq_2)
  have free: "global_mutex s \<noteq> Some (Some n)" if "workers s n = None" for n
    using m that by (force simp: mutex_ok_def)
  from le consider "main_at s = 0" | "main_at s = 1" | "main_at s = 2" | "main_at s = 3" | "main_at s = 4"
    | "main_at s = 5" | "main_at s = 6" | "main_at s = 7" by linarith
  then show ?thesis
  proof cases
    case 1
    then have "s' = goes_on (s\<lparr>global_mutex := Some None\<rparr>)" using step m by (simp add: main5_def pt_mutex_init_def mutex_ok_def)
    with 1 m w u show ?thesis
      by (intro main5_other [OF inv]) (auto simp: goes_on_def mutex_ok_def workers_ok_def)
  next
    case 2
    then have "s' = goes_on (create_worker E 1 s)" using step by (simp add: main5_def)
    with 2 m w u ids free [of 1] show ?thesis
      by (intro main5_other [OF inv]) (auto simp: goes_on_def create_worker_def mutex_ok_def workers_ok_def)
  next
    case 3
    then show ?thesis using add_worker_inv [OF E inv, of 0] step by (simp add: main5_def)
  next
    case 4
    then have "s' = goes_on (create_worker E 2 s)" using step by (simp add: main5_def)
    with 4 m w u ids free [of 2] show ?thesis
      by (intro main5_other [OF inv]) (auto simp: goes_on_def create_worker_def mutex_ok_def workers_ok_def)
  next
    case 5
    then show ?thesis using add_worker_inv [OF E inv, of 1] step by (simp add: main5_def numeral_2_eq_2)
  next
    case 6
    then have "s' = goes_on s" "workers s 1 = Some Done"
      using step w ids by (auto simp: main5_def join_worker_def workers_ok_def split: option.splits if_splits)
    with 6 m w u show ?thesis
      by (intro main5_other [OF inv]) (auto simp: goes_on_def mutex_ok_def workers_ok_def)
  next
    case 7
    then have "s' = goes_on s" "workers s 2 = Some Done"
      using step w ids by (auto simp: main5_def join_worker_def workers_ok_def split: option.splits if_splits)
    with 7 m w u show ?thesis
      by (intro main5_other [OF inv]) (auto simp: goes_on_def mutex_ok_def workers_ok_def)
  next
    case 8
    have "global_mutex s \<noteq> Some (Some k)" for k
    proof -
      have "workers s k \<noteq> Some At_Unlock" using 8 w by (cases "k = 1 \<or> k = 2") (auto simp: workers_ok_def)
      then show ?thesis using m by (simp add: mutex_ok_def)
    qed
    then have "global_mutex s = Some None" using 8 m by (cases "global_mutex s") (auto simp: mutex_ok_def)
    then have "s' = goes_on (s\<lparr>global_mutex := None\<rparr>)" "\<And>k. workers s k \<noteq> Some At_Unlock"
      using step 8 m by (simp_all add: main5_def pt_mutex_destroy_def mutex_ok_def)
    with 8 m w u show ?thesis
      by (intro main5_other [OF inv]) (auto simp: goes_on_def mutex_ok_def workers_ok_def)
  qed
qed

lemma inv5_start: "serves5 E p0 items \<Longrightarrow> inv5 E p0 items (pt_start p0)"
  by (simp add: inv5_def pt_start_def mutex_ok_def workers_ok_def lists_ok_def serves5_def calls_done_def)

lemma inv5_run:
  "pt_run 8 (main5 E) worker5 s0 s \<Longrightarrow> serves5 E p0 items \<Longrightarrow> inv5 E p0 items s0 \<Longrightarrow> inv5 E p0 items s"
  by (induction rule: pt_run.induct) (auto intro: main5_inv worker5_inv)

text \<open>While \<^verbatim>\<open>main\<close> waits for a thread, some thread can go on.\<close>

lemma main5_waits:
  assumes inv: "inv5 E p0 items s" and "main_at s < 8" and E: "serves5 E p0 items"
    and blocked: "main5 E s = None"
  shows "\<exists>n s'. worker5 n s = Some s'"
proof -
  have m: "mutex_ok s" and w: "workers_ok E s" using inv by (simp_all add: inv5_def)
  have ids: "create_id E 1 = Some (fst (items ! 0))" "create_id E 2 = Some (fst (items ! 1))"
    using E by (auto simp: serves5_def less_2_cases_iff numeral_2_eq_2)
  obtain n where n: "main_at s = 5 \<and> n = 1 \<or> main_at s = 6 \<and> n = 2" "workers s n \<noteq> Some Done"
    using blocked assms(2) w ids
    by (auto simp: main5_def join_worker_def workers_ok_def split: if_splits option.splits)
  then obtain x where x: "workers s n = Some x" "x \<noteq> Done" using w by (auto simp: workers_ok_def)
  have g: "global_mutex s \<noteq> None" using m n by (auto simp: mutex_ok_def)
  show ?thesis
  proof (cases "global_mutex s")
    case (Some h)
    show ?thesis
    proof (cases h)
      case None
      then have "worker5 n s \<noteq> None" using x Some by (cases x) (auto simp: worker5_def)
      then show ?thesis by blast
    next
      case (Some k)
      then have "workers s k = Some At_Unlock" using m \<open>global_mutex s = Some h\<close> by (simp add: mutex_ok_def)
      then have "worker5 k s \<noteq> None" by (simp add: worker5_def)
      then show ?thesis by blast
    qed
  qed (use g in simp)
qed

text \<open>
  The fifth program: in every interleaving nothing is undefined and nobody waits for ever; when
  \<^verbatim>\<open>main\<close> ends it has printed the two identifiers in the order of creation, both threads have ended,
  and the elements of both lists are still allocated.
\<close>

lemma queue_threads_correct:
  assumes "serves5 E p0 [(i, a), (j, b)]" and "pt_run 8 (main5 E) worker5 (pt_start p0) s"
  shows "\<not> undef s \<and>
    (main_at s < 8 \<longrightarrow> main5 E s \<noteq> None \<or> (\<exists>n. worker5 n s \<noteq> None)) \<and>
    (main_at s = 8 \<longrightarrow> printed (prog s) = printed p0 @ [Thread_ID i, Thread_ID j] \<and>
      allocated (prog s) = allocated p0 \<union> {a, b} \<and> workers s 1 = Some Done \<and> workers s 2 = Some Done)"
proof -
  have inv: "inv5 E p0 [(i, a), (j, b)] s"
    by (rule inv5_run [OF assms(2,1) inv5_start [OF assms(1)]])
  then show ?thesis
    using main5_waits [OF inv _ assms(1)]
    by (auto simp: inv5_def lists_ok_def calls_done_def workers_ok_def)
qed

section \<open>The third program\<close>

definition inv3 :: "pt_state \<Rightarrow> bool" where
  "inv3 s \<longleftrightarrow> main_at s \<le> 6 \<and> (2 \<le> main_at s \<longrightarrow> global_mutex s \<noteq> None) \<and>
     (\<forall>n. workers s n \<in> {None, Some At_Begin} \<and> (workers s n \<noteq> None \<longrightarrow> 2 \<le> main_at s))"

lemma worker3_inv: "inv3 s \<Longrightarrow> worker3 n s = Some s' \<Longrightarrow> undef s'"
  by (auto simp: inv3_def worker3_def pt_steps split: option.splits worker.splits)

lemma on_list_frame:
  "undef (on_list f s) \<or> (\<exists>p. on_list f s = goes_on (s\<lparr>prog := p\<rparr>))"
  by (auto simp: on_list_def undefined_step_def split: option.splits)

lemma main3_inv:
  assumes "inv3 s" and "main3 E garbage s = Some s'"
  shows "undef s' \<or> inv3 s'"
proof -
  have le: "main_at s \<le> 6" using assms(1) by (simp add: inv3_def)
  then consider "main_at s \<in> {0, 3, 5}" | "main_at s = 1" | "main_at s = 2" | "main_at s = 4" | "main_at s = 6" by force
  then show ?thesis
  proof cases
    case 1
    then obtain f where s': "s' = on_list f s" using assms(2) by (auto simp: main3_def insert_id_def)
    from on_list_frame [of f s] show ?thesis
      using assms(1) 1 unfolding s' by (auto simp: inv3_def goes_on_def)
  next
    case 5
    have "workers s 1 \<noteq> Some Done" using assms(1) by (auto simp: inv3_def)
    with 5 assms show ?thesis by (auto simp: main3_def pt_steps split: option.splits)
  qed (use assms in \<open>auto simp: main3_def pt_steps inv3_def split: if_splits option.splits\<close>)
qed

lemma inv3_run:
  "pt_run k (main3 E garbage) worker3 s0 s \<Longrightarrow> undef s0 \<or> inv3 s0 \<Longrightarrow> undef s \<or> inv3 s"
  by (induction rule: pt_run.induct) (auto dest: main3_inv worker3_inv)

text \<open>The third program: no run in which everything is defined comes to the end of \<^verbatim>\<open>main\<close>.\<close>

lemma queue_threads_undefined:
  "pt_run 10 (main3 E garbage) worker3 (pt_start p0) s \<Longrightarrow> undef s \<or> main_at s \<le> 6"
  using inv3_run [of 10 E garbage "pt_start p0" s] by (auto simp: inv3_def pt_start_def)

section \<open>The second program\<close>

definition inv2 :: "(nat \<Rightarrow> int) \<Rightarrow> program \<Rightarrow> pt_state \<Rightarrow> bool" where
  "inv2 garbage p0 s \<longleftrightarrow> data_id s = Map.empty \<and> allocated (prog s) = allocated p0 \<and> alloc (mem (prog s)) (Head head) \<and>
     printed (prog s) = printed p0 @
       take (if main_at s < 2 then 0 else if main_at s < 3 then 1 else if main_at s < 5 then 2 else if main_at s < 6 then 3 else 5)
         [Read1 (garbage 0), Thread_ID (garbage 0), Thread_ID (garbage 0), Read2 (garbage 0), Line (garbage 0)] \<and>
     main_at s \<le> 6"

lemma slist_id_inv:
  assumes "inv2 garbage p0 s" and "elem E k = Some a" and "a \<notin> allocated p0" and "main_at s = 2 \<or> main_at s = 4"
  shows "inv2 garbage p0 (slist_id E garbage k s)"
proof -
  have g: "read_id garbage 0 s = garbage 0" using assms(1) by (simp add: inv2_def read_id_def)
  have "alloc (mem (prog s)) (Head head)" "a \<notin> allocated (prog s)" using assms by (simp_all add: inv2_def)
  from slist_tid_correct [OF this, of "garbage 0"] obtain p' where p': "slist_tid (garbage 0) (Some a) (prog s) = Some p'"
    "allocated p' = allocated (prog s)" "printed p' = printed (prog s) @ [Thread_ID (garbage 0)]"
    "alloc (mem p') (Head head)" by blast
  then have "slist_id E garbage k s = goes_on (s\<lparr>prog := p'\<rparr>)" using g assms(2) by (simp add: slist_id_def on_list_def)
  with p' assms(1,4) show ?thesis by (auto simp: inv2_def goes_on_def)
qed

text \<open>
  The second program: while no thread has run nothing is undefined, and \<^verbatim>\<open>main\<close> prints what it finds in
  the field that no thread has written, and frees its elements.
\<close>

lemma main2_inv:
  assumes inv: "inv2 garbage p0 s" and E: "elem E 1 = Some a" "elem E 2 = Some b" "a \<notin> allocated p0" "b \<notin> allocated p0"
    and step: "main2 E garbage s = Some s'"
  shows "inv2 garbage p0 s'"
proof -
  have g: "read_id garbage 0 s = garbage 0" using inv by (simp add: inv2_def read_id_def)
  have le: "main_at s < 6" using step by (auto simp: main2_def split: if_splits)
  then consider "main_at s = 2" | "main_at s = 4" | "main_at s \<in> {0, 3}" | "main_at s = 1" | "main_at s = 5" by force
  then show ?thesis
  proof cases
    case 1
    with slist_id_inv [OF inv E(1,3)] step show ?thesis by (simp add: main2_def)
  next
    case 2
    with slist_id_inv [OF inv E(2,4)] step show ?thesis by (simp add: main2_def)
  next
    case 3
    then obtain k where k: "s' = goes_on (create_worker E k s)" using step by (auto simp: main2_def)
    have "prog s' = prog s" "data_id s' = data_id s" "main_at s' = Suc (main_at s)"
      unfolding k by (simp_all add: goes_on_def create_worker_def split: option.split)
    with 3 inv show ?thesis by (elim insertE emptyE) (simp_all add: inv2_def)
  next
    case 4
    then have "s' = goes_on (s\<lparr>prog := say [Read1 (garbage 0)] (prog s)\<rparr>)"
      using g step by (simp add: main2_def on_list_def)
    with 4 inv show ?thesis by (simp add: inv2_def goes_on_def)
  next
    case 5
    then have "s' = goes_on (s\<lparr>prog := say [Read2 (garbage 0), Line (garbage 0)] (prog s)\<rparr>)"
      using g step by (simp add: main2_def on_list_def)
    with 5 inv show ?thesis by (simp add: inv2_def goes_on_def)
  qed
qed

lemma inv2_run:
  "pt_run 6 (main2 E garbage) worker2 s0 s \<Longrightarrow> inv2 garbage p0 s0 \<Longrightarrow> elem E 1 = Some a \<Longrightarrow> elem E 2 = Some b \<Longrightarrow>
   a \<notin> allocated p0 \<Longrightarrow> b \<notin> allocated p0 \<Longrightarrow> undef s \<or> inv2 garbage p0 s"
  proof (induction rule: pt_run.induct)
  case (pt_main s0 s1 s2)
  then have "inv2 garbage p0 s1" by blast
  from main2_inv [OF this pt_main.prems(2-5) pt_main.hyps(4)] show ?case by blast
qed (auto simp: worker2_def undefined_step_def split: if_splits)

lemma queue_threads_garbage:
  assumes "pt_run 6 (main2 E garbage) worker2 (pt_start p0) s" and "alloc (mem p0) (Head head)"
    and "elem E 1 = Some a" "elem E 2 = Some b" "a \<notin> allocated p0" "b \<notin> allocated p0"
  shows "undef s \<or> main_at s < 6 \<or>
    printed (prog s) = printed p0 @
      [Read1 (garbage 0), Thread_ID (garbage 0), Thread_ID (garbage 0), Read2 (garbage 0), Line (garbage 0)] \<and>
    allocated (prog s) = allocated p0"
proof -
  have "inv2 garbage p0 (pt_start p0)" using assms(2) by (simp add: inv2_def pt_start_def)
  from inv2_run [OF assms(1) this assms(3-6)] show ?thesis by (auto simp: inv2_def)
qed

end
