(* ===== verification/System_Calls.thy ===== *)
theory System_Calls
  imports Main "HOL-Library.Monad_Syntax"
begin

text \<open>
  \<^verbatim>\<open>examples/systemcalls/systemcalls.c\<close>: running a command with \<^verbatim>\<open>system\<close>, or with
  \<^verbatim>\<open>fork\<close>, \<^verbatim>\<open>execv\<close> and \<^verbatim>\<open>wait\<close>. What the operating system answers is a parameter; both
  processes after the \<^verbatim>\<open>fork\<close> are modelled, and the parent sees the status with which its
  child ended. \<open>None\<close> is undefined behaviour of C, as in the rest of the development.
\<close>

section \<open>Processes\<close>

text \<open>How a function ends: it returns, or it ends the process.\<close>

datatype 'a outcome = Return 'a | Exit nat | Abort

text \<open>A wait status: \<^verbatim>\<open>WIFEXITED\<close> with its \<^verbatim>\<open>WEXITSTATUS\<close>, or the signal that ended the child.\<close>

datatype wstatus = Exited nat | Signaled nat

definition EXIT_SUCCESS :: nat where "EXIT_SUCCESS = 0"
definition EXIT_FAILURE :: nat where "EXIT_FAILURE = 1"
definition SIGABRT :: nat where "SIGABRT = 6"

text \<open>
  \<open>execv fds path argv\<close> is the status with which the program ends when it is started with
  the descriptors \<open>fds\<close>, or \<open>None\<close> if \<^verbatim>\<open>execv\<close> fails, the only case in which it returns.
  \<open>reaped st\<close> is what \<^verbatim>\<open>wait\<close> gives to the parent of a child that ends with \<open>st\<close>: this or the
  status of another child of the caller, \<open>None\<close> when it fails. \<open>open_fd\<close> is the result of \<^verbatim>\<open>open\<close> on the output file.
\<close>

record os_env =
  system_result :: int
  fork_fails :: bool
  execv :: "(nat \<rightharpoonup> string) \<Rightarrow> string option \<Rightarrow> string option list \<Rightarrow> wstatus option"
  reaped :: "wstatus \<Rightarrow> wstatus option"
  open_fd :: "string \<Rightarrow> nat option"
  dup2_fails :: bool

section \<open>\<^verbatim>\<open>do_system\<close>\<close>

definition do_system :: "os_env \<Rightarrow> bool outcome" where
  "do_system E =
     (let command = system_result E
      in if command = - 1 then Return False
         else if command = 0 then Return True
         else Exit EXIT_SUCCESS)"

section \<open>\<^verbatim>\<open>do_exec\<close>\<close>

text \<open>
  The loop over the variable arguments: \<^verbatim>\<open>va_arg\<close> past the last argument is undefined. The
  array ends with the null pointer.
\<close>

fun fetch_args :: "nat \<Rightarrow> string list \<Rightarrow> string option list option" where
  "fetch_args 0 args = Some [None]"
| "fetch_args (Suc n) [] = None"
| "fetch_args (Suc n) (a # args) = map_option ((#) (Some a)) (fetch_args n args)"

text \<open>The child: \<^verbatim>\<open>execv\<close> returns only on failure, and then the child exits.\<close>

definition do_exec_child :: "os_env \<Rightarrow> (nat \<rightharpoonup> string) \<Rightarrow> string option list \<Rightarrow> wstatus" where
  "do_exec_child E fds command =
     (case execv E fds (hd command) command of Some st \<Rightarrow> st | None \<Rightarrow> Exited EXIT_FAILURE)"

text \<open>
  The parent. The result of \<^verbatim>\<open>wait\<close> is not looked at: when it fails the status is never
  written, and reading it is undefined.
\<close>

definition do_exec :: "os_env \<Rightarrow> (nat \<rightharpoonup> string) \<Rightarrow> nat \<Rightarrow> string list \<Rightarrow> bool outcome option" where
  "do_exec E fds count' args = do {
     command \<leftarrow> fetch_args count' args;
     if fork_fails E then Some (Return False)
     else do {
       status \<leftarrow> reaped E (do_exec_child E fds command);
       Some (case status of
               Exited code \<Rightarrow> if code \<noteq> 0 then Return False else Return True
             | Signaled _ \<Rightarrow> Return False)
     }
   }"

section \<open>\<^verbatim>\<open>do_exec_redirect\<close>\<close>

definition do_exec_redirect_child :: "os_env \<Rightarrow> (nat \<rightharpoonup> string) \<Rightarrow> nat \<Rightarrow> string option list \<Rightarrow> wstatus" where
  "do_exec_redirect_child E fds fd command =
     (if dup2_fails E then Signaled SIGABRT
      else let fds' = (fds(1 := fds fd))(fd := None)
           in case execv E fds' (hd command) command of Some st \<Rightarrow> st | None \<Rightarrow> Exited EXIT_FAILURE)"

text \<open>The result, and the descriptors the calling process has afterwards.\<close>

definition do_exec_redirect ::
  "os_env \<Rightarrow> (nat \<rightharpoonup> string) \<Rightarrow> string \<Rightarrow> nat \<Rightarrow> string list \<Rightarrow> (bool outcome \<times> (nat \<rightharpoonup> string)) option" where
  "do_exec_redirect E fds outputfile count' args = do {
     command \<leftarrow> fetch_args count' args;
     case open_fd E outputfile of
       None \<Rightarrow> Some (Abort, fds)
     | Some fd \<Rightarrow>
         let fds1 = fds(fd \<mapsto> outputfile)
         in if fork_fails E then Some (Return False, fds1)
            else Some (case reaped E (do_exec_redirect_child E fds1 fd command) of
                None \<Rightarrow> (Return False, fds1)
              | Some (Exited code) \<Rightarrow> (Return (code \<noteq> 0), fds1)
              | Some (Signaled _) \<Rightarrow> (Return True, fds1(fd := None)))
   }"

section \<open>Lemmas\<close>

lemma fetch_args_defined: "n \<le> length args \<Longrightarrow> fetch_args n args = Some (map Some (take n args) @ [None])"
  by (induction n args rule: fetch_args.induct) auto

lemma fetch_args_undefined: "length args < n \<Longrightarrow> fetch_args n args = None"
  by (induction n args rule: fetch_args.induct) auto

text \<open>The child of this call is the only one, so that \<^verbatim>\<open>wait\<close> reports it.\<close>

definition only_child :: "os_env \<Rightarrow> bool" where
  "only_child E \<longleftrightarrow> (\<forall>st. reaped E st = Some st)"

definition demo_os :: os_env where
  "demo_os = \<lparr>system_result = 256, fork_fails = False,
     execv = (\<lambda>fds path argv. if path = Some ''/bin/true'' then Some (Exited 0)
                else if path = Some ''/bin/false'' then Some (Exited 1) else None),
     reaped = Some, open_fd = (\<lambda>f. Some 3), dup2_fails = False\<rparr>"

section \<open>Properties\<close>

text \<open>
  C40: \<^verbatim>\<open>do_exec\<close> in every environment. With fewer arguments than \<^verbatim>\<open>count\<close> it is undefined. When no
  process can be created it returns false. When \<^verbatim>\<open>wait\<close> fails it is undefined, because it goes on
  to read the status that was never written (false was promised for this). Else it returns true exactly
  when the child that \<^verbatim>\<open>wait\<close> reports exited with status zero. In a caller without other
  children, in which \<^verbatim>\<open>wait\<close> reports this child, it so returns true exactly when the process could
  be created, the program could be started with these arguments and it exited with status zero, and
  false else. It never ends the calling process.
\<close>

theorem do_exec_correct:
  assumes "argv = map Some (take count' args) @ [None]"
    and "st = (case execv E fds (hd argv) argv of Some st \<Rightarrow> st | None \<Rightarrow> Exited EXIT_FAILURE)"
  shows "do_exec E fds count' args =
      (if length args < count' then None
       else if fork_fails E then Some (Return False)
       else case reaped E st of None \<Rightarrow> None | Some st' \<Rightarrow> Some (Return (st' = Exited 0))) \<and>
    (count' \<le> length args \<and> reaped E st = Some st \<longrightarrow>
      do_exec E fds count' args = Some (Return (\<not> fork_fails E \<and> execv E fds (hd argv) argv = Some (Exited 0))))"
proof (cases "length args < count'")
  case True
  then show ?thesis by (simp add: do_exec_def fetch_args_undefined)
next
  case False
  then have args: "fetch_args count' args = Some argv" using assms(1) by (simp add: fetch_args_defined)
  have child: "do_exec_child E fds argv = st" using assms(2) by (simp add: do_exec_child_def)
  have "do_exec E fds count' args =
      (if fork_fails E then Some (Return False)
       else case reaped E st of None \<Rightarrow> None | Some st' \<Rightarrow> Some (Return (st' = Exited 0)))"
    by (auto simp: do_exec_def args child split: option.split wstatus.split)
  with False assms(2) show ?thesis by (auto simp: EXIT_FAILURE_def split: option.splits)
qed

theorem do_exec_correct_witness:
  "do_exec demo_os Map.empty 1 [''/bin/true''] = Some (Return True) \<and>
   do_exec demo_os Map.empty 1 [''/bin/false''] = Some (Return False) \<and>
   do_exec demo_os Map.empty 1 [''/bin/none''] = Some (Return False) \<and>
   do_exec (demo_os\<lparr>reaped := \<lambda>st. None\<rparr>) Map.empty 1 [''/bin/true''] = None"
  using do_exec_correct [OF refl refl, of demo_os Map.empty 1 "[''/bin/true'']"]
    do_exec_correct [OF refl refl, of demo_os Map.empty 1 "[''/bin/false'']"]
    do_exec_correct [OF refl refl, of demo_os Map.empty 1 "[''/bin/none'']"]
    do_exec_correct [OF refl refl, of "demo_os\<lparr>reaped := \<lambda>st. None\<rparr>" Map.empty 1 "[''/bin/true'']"]
  by (simp add: demo_os_def EXIT_FAILURE_def)

text \<open>
  What \<^verbatim>\<open>do_exec_redirect\<close> returns: when the file can be opened and the process be
  created, true exactly when the command did \<open>not\<close> succeed, that is when it could not be
  started, exited with a non-zero status or was ended by a signal; a command that
  succeeded gives false. Unless a signal ended the child, the descriptor of the output
  file is left open in the calling process.
\<close>

theorem do_exec_redirect_inverted:
  assumes "only_child E" and "count' \<le> length args" and "open_fd E outputfile = Some fd" and "\<not> fork_fails E"
  shows "\<exists>fds'. do_exec_redirect E fds outputfile count' args = Some (Return
      (do_exec_redirect_child E (fds(fd \<mapsto> outputfile)) fd (map Some (take count' args) @ [None]) \<noteq> Exited 0), fds') \<and>
    (fds' fd = Some outputfile \<longleftrightarrow>
      (\<exists>code. do_exec_redirect_child E (fds(fd \<mapsto> outputfile)) fd (map Some (take count' args) @ [None]) = Exited code))"
  using assms
  by (cases "do_exec_redirect_child E (fds(fd \<mapsto> outputfile)) fd (map Some (take count' args) @ [None])")
    (auto simp: do_exec_redirect_def fetch_args_defined only_child_def Let_def)

theorem do_exec_redirect_inverted_witness:
  "\<exists>fds'. do_exec_redirect demo_os Map.empty ''out'' 1 [''/bin/true''] = Some (Return False, fds') \<and> fds' 3 = Some ''out''"
  using do_exec_redirect_inverted [of demo_os 1 "[''/bin/true'']" "''out''" 3 Map.empty]
  by (auto simp: only_child_def demo_os_def do_exec_redirect_child_def)

text \<open>
  The child of \<^verbatim>\<open>do_exec_redirect\<close> starts the command with its standard output going to
  the output file and without the extra descriptor, unless \<^verbatim>\<open>open\<close> gave descriptor 1 itself
  (standard output was closed before): then the command runs without a standard output.
\<close>

theorem do_exec_redirect_stdout:
  assumes "\<not> dup2_fails E" and "fds fd = Some outputfile"
  shows "\<exists>fds'. do_exec_redirect_child E fds fd command =
      (case execv E fds' (hd command) command of Some st \<Rightarrow> st | None \<Rightarrow> Exited EXIT_FAILURE) \<and>
    fds' fd = None \<and> fds' 1 = (if fd = 1 then None else Some outputfile) \<and>
    (\<forall>i. i \<noteq> 1 \<longrightarrow> i \<noteq> fd \<longrightarrow> fds' i = fds i)"
  using assms
  by (intro exI [of _ "(fds(1 := fds fd))(fd := None)"]) (auto simp: do_exec_redirect_child_def Let_def)

theorem do_exec_redirect_stdout_witness:
  "\<exists>fds'. do_exec_redirect_child demo_os [3 \<mapsto> ''out''] 3 [Some ''/bin/true'', None] =
      (case execv demo_os fds' (Some ''/bin/true'') [Some ''/bin/true'', None] of Some st \<Rightarrow> st | None \<Rightarrow> Exited EXIT_FAILURE) \<and>
    fds' 1 = Some ''out''"
  using do_exec_redirect_stdout [of demo_os "[3 \<mapsto> ''out'']" 3 "''out''" "[Some ''/bin/true'', None]"]
  by (auto simp: demo_os_def)

text \<open>
  \<^verbatim>\<open>do_system\<close> returns false only when \<^verbatim>\<open>system\<close> itself failed; a command that ends with a
  non-zero status ends the calling process, with the status of success.
\<close>

theorem do_system_outcomes:
  "(do_system E = Return True \<longleftrightarrow> system_result E = 0) \<and>
   (do_system E = Return False \<longleftrightarrow> system_result E = - 1) \<and>
   (do_system E = Exit EXIT_SUCCESS \<longleftrightarrow> system_result E \<notin> {0, - 1})"
  by (auto simp: do_system_def Let_def)

end
