(* ===== verification/Writer.thy ===== *)
theory Writer
  imports System_Calls
begin

text \<open>
  \<^verbatim>\<open>finder-app/writer.c\<close>, the program that writes a string to a file, and the three functions
  of \<^verbatim>\<open>examples/autotest-validate/autotest-validate.c\<close>. The file system is the contents of
  the files by name; messages to the log and the terminal are not modelled.
\<close>

section \<open>The writer\<close>

text \<open>\<open>writable f\<close>: \<^verbatim>\<open>open\<close> for writing succeeds. \<open>written n\<close> is how many of \<open>n\<close> bytes \<^verbatim>\<open>write\<close>
  takes, none if it fails.\<close>

record file_env =
  writable :: "string \<Rightarrow> bool"
  written :: "nat \<Rightarrow> nat"

type_synonym files = "string \<rightharpoonup> string"

text \<open>\<open>Inl\<close> is the exit status when the function ends the process. The result of \<^verbatim>\<open>write\<close> is not looked at.\<close>

definition file_create :: "file_env \<Rightarrow> files \<Rightarrow> string \<Rightarrow> string \<Rightarrow> (nat + unit) \<times> files" where
  "file_create E fs file message =
     (if \<not> writable E file then (Inl 1, fs)
      else let fs1 = fs(file \<mapsto> []);
               nr = written E (length message)
           in (Inr (), fs1(file \<mapsto> take nr message)))"

text \<open>\<open>argv\<close> includes the name of the program; reaching the end of \<^verbatim>\<open>main\<close> is status 0.\<close>

definition writer_main :: "file_env \<Rightarrow> files \<Rightarrow> string list \<Rightarrow> nat \<times> files" where
  "writer_main E fs argv =
     (let argc = length argv
      in if argc = 1 then (1, fs)
         else if argc < 3 then (1, fs)
         else if argc > 3 then (1, fs)
         else (case file_create E fs (argv ! 1) (argv ! 2) of
                 (Inl status, fs') \<Rightarrow> (status, fs')
               | (Inr _, fs') \<Rightarrow> (0, fs')))"

section \<open>The test functions\<close>

definition this_function_returns_true :: bool where
  "this_function_returns_true = True"

definition this_function_returns_false :: bool where
  "this_function_returns_false = False"

definition my_username :: string where
  "my_username = ''todo-please-enter-your-username-here-in-my_username''"

section \<open>Properties\<close>

text \<open>
  Called with a file and a string, the writer ends with status 0 exactly when the file
  can be opened, and then the file holds what \<^verbatim>\<open>write\<close> took of the string, all of it when
  \<^verbatim>\<open>write\<close> is not cut short, whatever the file held before; no other file changes. With
  any other number of arguments, or a file that cannot be opened, it ends with status 1 and
  changes nothing.
\<close>

theorem writer_correct:
  assumes "writer_main E fs argv = (status, fs')"
  shows "(status = 0 \<longleftrightarrow> length argv = 3 \<and> writable E (argv ! 1)) \<and>
    (status = 0 \<longrightarrow> fs' (argv ! 1) = Some (take (written E (length (argv ! 2))) (argv ! 2)) \<and>
       (written E (length (argv ! 2)) \<ge> length (argv ! 2) \<longrightarrow> fs' (argv ! 1) = Some (argv ! 2)) \<and>
       (\<forall>f. f \<noteq> argv ! 1 \<longrightarrow> fs' f = fs f)) \<and>
    (status \<noteq> 0 \<longrightarrow> status = 1 \<and> fs' = fs)"
  using assms by (auto simp: writer_main_def file_create_def Let_def split: if_splits)

theorem writer_correct_witness:
  "\<exists>status fs'. writer_main \<lparr>writable = (\<lambda>_. True), written = (\<lambda>n. n)\<rparr> [''f'' \<mapsto> ''old''] [''writer'', ''f'', ''new''] =
      (status, fs') \<and> status = 0 \<and> fs' ''f'' = Some ''new''"
proof -
  let ?E = "\<lparr>writable = (\<lambda>_. True), written = (\<lambda>n. n)\<rparr>"
  obtain status fs' where "writer_main ?E [''f'' \<mapsto> ''old''] [''writer'', ''f'', ''new''] = (status, fs')"
    by fastforce
  with writer_correct [OF this] show ?thesis by simp
qed

end
