(* ===== verification/Small_Programs.thy ===== *)
theory Small_Programs
  imports Writer Circular_Buffer
begin

text \<open>
  The small exercises of \<^verbatim>\<open>prototypes\<close> that decide something: the processes of \<^verbatim>\<open>process\<close>, the
  structures of \<^verbatim>\<open>structs/prototype.0.0.2.c\<close>, the first three threads of \<^verbatim>\<open>threads\<close>, the files of
  \<^verbatim>\<open>fileIO\<close> and \<^verbatim>\<open>time\<close>, the arguments of \<^verbatim>\<open>conditionals\<close>, and \<^verbatim>\<open>queue-seek\<close> over the ring buffer of
  the driver. \<open>None\<close> is undefined behaviour; results of library calls are parameters.
\<close>

section \<open>Processes\<close>

text \<open>What the parent returns for a child that ends with the status given; \<^verbatim>\<open>-1\<close> for every error.\<close>

definition wait_child :: "os_env \<Rightarrow> wstatus \<Rightarrow> int" where
  "wait_child E st =
     (if fork_fails E then - 1
      else case reaped E st of
        None \<Rightarrow> - 1
      | Some (Exited code) \<Rightarrow> int code
      | Some (Signaled n) \<Rightarrow> - 1)"

text \<open>The child: \<^verbatim>\<open>exit(-1)\<close> after a failed \<^verbatim>\<open>execv\<close>, of which the parent sees eight bits.\<close>

definition exec_child :: "os_env \<Rightarrow> (nat \<rightharpoonup> string) \<Rightarrow> string \<Rightarrow> string list \<Rightarrow> wstatus" where
  "exec_child E fds path argv =
     (case execv E fds (Some path) (map Some argv @ [None]) of Some st \<Rightarrow> st | None \<Rightarrow> Exited 255)"

text \<open>\<^verbatim>\<open>fork_exec_wait.c\<close>: \<^verbatim>\<open>my_system\<close>, which does not use its argument, and \<^verbatim>\<open>main\<close>.\<close>

definition my_system_ls :: "os_env \<Rightarrow> (nat \<rightharpoonup> string) \<Rightarrow> string \<Rightarrow> int" where
  "my_system_ls E fds cmd = wait_child E (exec_child E fds ''/bin/ls'' [''/bin/ls'', ''/tmp/''])"

definition fork_exec_main :: "os_env \<Rightarrow> (nat \<rightharpoonup> string) \<Rightarrow> int" where
  "fork_exec_main E fds = wait_child E (exec_child E fds ''/bin/ls'' [''/bin/ls'', ''/tmp/''])"

text \<open>\<^verbatim>\<open>systemcall_example.c\<close>: the command goes to the shell. \<^verbatim>\<open>main\<close> does not look at the result.\<close>

definition my_system :: "os_env \<Rightarrow> (nat \<rightharpoonup> string) \<Rightarrow> string \<Rightarrow> int" where
  "my_system E fds cmd = wait_child E (exec_child E fds ''/bin/sh'' [''sh'', ''-c'', cmd])"

definition systemcall_main :: "os_env \<Rightarrow> (nat \<rightharpoonup> string) \<Rightarrow> int" where
  "systemcall_main E fds = (let r = my_system E fds ''/usr/bin/test -f echo'' in 0)"

text \<open>A status from 0 to 254 is that of the command; 255 also stands for a program that cannot be
  started, and \<^verbatim>\<open>-1\<close> for a failed \<^verbatim>\<open>fork\<close> or \<^verbatim>\<open>wait\<close> and for a signal.\<close>

lemma my_system_status:
  assumes "only_child E" and "\<not> fork_fails E"
  shows "my_system E fds cmd =
    (case execv E fds (Some ''/bin/sh'') [Some ''sh'', Some ''-c'', Some cmd, None] of
       None \<Rightarrow> 255 | Some (Exited code) \<Rightarrow> int code | Some (Signaled n) \<Rightarrow> - 1)"
  using assms by (simp add: my_system_def wait_child_def exec_child_def only_child_def split: option.split)

lemma my_system_error: "my_system E fds cmd = - 1 \<longleftrightarrow> fork_fails E \<or>
    (\<forall>code. reaped E (exec_child E fds ''/bin/sh'' [''sh'', ''-c'', cmd]) \<noteq> Some (Exited code))"
  by (auto simp: my_system_def wait_child_def split: option.splits wstatus.splits)

section \<open>Structures\<close>

text \<open>\<^verbatim>\<open>struct First\<close> and \<^verbatim>\<open>struct Second\<close> have the same members; \<^verbatim>\<open>None\<close> is an uninitialised one.\<close>

record letter_number =
  letter :: "char option"
  number :: "int option"

definition merge_two_structs :: "letter_number \<Rightarrow> letter_number \<Rightarrow> letter_number" where
  "merge_two_structs first second = first\<lparr>letter := letter second, number := number second\<rparr>"

definition uninit :: letter_number where
  "uninit = \<lparr>letter = None, number = None\<rparr>"

definition print_pair :: "char option \<Rightarrow> int option \<Rightarrow> (char \<times> int) option" where
  "print_pair c n = do { c' \<leftarrow> c; n' \<leftarrow> n; Some (c', n') }"

text \<open>\<^verbatim>\<open>main\<close> for the results of its three \<^verbatim>\<open>malloc\<close>: the status and the lines printed. After the third
  has failed the blocks are freed, but \<^verbatim>\<open>main\<close> goes on and writes through the null pointer.\<close>

definition structs_main :: "bool \<Rightarrow> bool \<Rightarrow> bool \<Rightarrow> (int \<times> (char \<times> int) list) option" where
  "structs_main malloc_f malloc_s malloc_a =
     (if \<not> malloc_f \<or> \<not> malloc_s then Some (1, [])
      else do {
        let f = uninit\<lparr>letter := Some CHR ''D'', number := Some 39\<rparr>;
        let s = uninit\<lparr>letter := Some CHR ''M'', number := Some 40\<rparr>;
        let f1 = merge_two_structs f s;
        line1 \<leftarrow> print_pair (letter f1) (number f1);
        if \<not> malloc_a then None
        else do {
          let a = (uninit\<lparr>letter := Some CHR ''A''\<rparr>, uninit\<lparr>number := Some 20\<rparr>);
          line2 \<leftarrow> print_pair (letter (fst a)) (number (snd a));
          Some (0, [line1, line2])
        }
      })"

lemma structs_main_prints:
  "structs_main True True True = Some (0, [(CHR ''M'', 40), (CHR ''A'', 20)])"
  "structs_main True True False = None"
  by (simp_all add: structs_main_def uninit_def merge_two_structs_def print_pair_def)

section \<open>Threads\<close>

text \<open>
  \<^verbatim>\<open>main\<close> starts one thread and joins it, so that only the order of the two messages is open in the
  first program: \<open>first\<close> says whether the thread prints before \<^verbatim>\<open>main\<close>. After a failed
  \<^verbatim>\<open>pthread_create\<close> the identifier that is joined was never written.
\<close>

datatype message = Says "char list" | Returned nat

definition threadFunc_length :: "char list \<Rightarrow> message \<times> nat" where
  "threadFunc_length s = (Says s, length s)"

definition thread_length_main :: "bool \<Rightarrow> bool \<Rightarrow> message list option" where
  "thread_length_main create_ok first =
     (if \<not> create_ok then None
      else let (line, res) = threadFunc_length (''Hello world'' @ [CHR 0x0A]);
               from_main = Says (''Message from main:'' @ [CHR 0x0A])
           in Some ((if first then [line, from_main] else [from_main, line]) @ [Returned res]))"

text \<open>The second keeps the result in a structure of \<^verbatim>\<open>main\<close>, the third in the returned pointer.\<close>

definition thread_function_field :: "int option \<Rightarrow> int option" where
  "thread_function_field result = Some 42"

definition thread_field_main :: "bool \<Rightarrow> int option" where
  "thread_field_main create_ok = (if \<not> create_ok then None else thread_function_field None)"

definition thread_function_value :: "64 word" where
  "thread_function_value = (let result = (42 :: 32 word) in scast result)"

definition thread_value_main :: "bool \<Rightarrow> 32 word option" where
  "thread_value_main create_ok = (if \<not> create_ok then None else Some (ucast thread_function_value))"

lemma thread_results:
  "\<exists>lines. thread_length_main True first = Some (lines @ [Returned 12])"
  "thread_field_main True = Some 42" "thread_value_main True = Some 42"
proof -
  have "snd (threadFunc_length (''Hello world'' @ [CHR 0x0A])) = 12" by (simp add: threadFunc_length_def)
  then show "\<exists>lines. thread_length_main True first = Some (lines @ [Returned 12])"
    unfolding thread_length_main_def by (simp only: Let_def case_prod_unfold if_True not_True_eq_False if_False option.inject) blast
qed (simp_all add: thread_field_main_def thread_function_field_def thread_value_main_def thread_function_value_def)

section \<open>Files and arguments\<close>

text \<open>\<^verbatim>\<open>fileIO/open_file.c\<close>.\<close>

definition open_file_main :: "file_env \<Rightarrow> files \<Rightarrow> nat \<times> files" where
  "open_file_main E fs =
     (let path = ''/tmp/my_test_5.txt''
      in if \<not> writable E path then (1, fs) else (0, fs(path \<mapsto> [])))"

text \<open>\<^verbatim>\<open>fileIO/write_file.c\<close>: after a failed \<^verbatim>\<open>open\<close>, \<^verbatim>\<open>write\<close> fails too; the status is 0 in any case.\<close>

definition write_file_main :: "file_env \<Rightarrow> files \<Rightarrow> nat \<times> files" where
  "write_file_main E fs =
     (let path = ''/tmp/my_test_6.txt'';
          buf = ''Text content to write'' @ [CHR 0x0A]
      in if \<not> writable E path then (0, fs) else (0, fs(path \<mapsto> take (written E (length buf)) buf)))"

text \<open>\<^verbatim>\<open>time/time.prototype.0.0.3.c\<close>; \<open>str\<close> is the text of \<^verbatim>\<open>strftime\<close>. After a failed \<^verbatim>\<open>fopen\<close> the null
  stream is written.\<close>

definition time_main :: "file_env \<Rightarrow> string \<Rightarrow> files \<Rightarrow> (nat \<times> files) option" where
  "time_main E str fs =
     (let path = ''/tmp/time.txt''
      in if \<not> writable E path then None else Some (0, fs(path \<mapsto> str @ [CHR 0x0A])))"

text \<open>
  \<^verbatim>\<open>conditionals/conditional.c\<close>: the arguments that are printed. \<^verbatim>\<open>argv[argc]\<close> is the null pointer,
  which \<^verbatim>\<open>%s\<close> must not get.
\<close>

definition conditional_main :: "string list \<Rightarrow> string list option" where
  "conditional_main argv = do {
     let argc = length argv;
     few \<leftarrow> (if argc < 3 then (if argc < 2 then None else Some [argv ! 1]) else Some []);
     Some (few @ (if argc > 3 then [argv ! 1, argv ! 2, argv ! 3] else []))
   }"

lemma conditional_prints:
  "conditional_main argv = None \<longleftrightarrow> length argv < 2" "length argv = 3 \<Longrightarrow> conditional_main argv = Some []"
  by (simp_all add: conditional_main_def Let_def)

section \<open>The ring buffer in use\<close>

text \<open>\<^verbatim>\<open>queue-seek/prototype.0.0.1.c\<close>; the arguments are the uninitialised buffer and the addresses of the
  three string literals; the sizes are those the code writes down, which are too small for the last two.\<close>

definition queue_seek_main ::
  "aesd_circular_buffer \<Rightarrow> ptr \<Rightarrow> ptr \<Rightarrow> ptr \<Rightarrow> aesd_circular_buffer option option" where
  "queue_seek_main buffer grass sentosa singapore = do {
     b0 \<leftarrow> aesd_circular_buffer_add_entry (aesd_circular_buffer_init (Some buffer)) (Some \<lparr>buffptr = grass, entry_size = 6\<rparr>);
     b1 \<leftarrow> aesd_circular_buffer_add_entry b0 (Some \<lparr>buffptr = sentosa, entry_size = 6\<rparr>);
     aesd_circular_buffer_add_entry b1 (Some \<lparr>buffptr = singapore, entry_size = 5\<rparr>)
   }"

lemma queue_seek_entries:
  "\<exists>b. queue_seek_main buffer (Some g) (Some t) (Some p) = Some (Some b) \<and> cb_wf b \<and>
    map entry_size (cb_entries b) = [6, 6, 5]"
proof -
  let ?es = "[\<lparr>buffptr = Some g, entry_size = 6\<rparr>, \<lparr>buffptr = Some t, entry_size = 6\<rparr>, \<lparr>buffptr = Some p, entry_size = 5\<rparr>]"
  obtain b where b: "ring.push_all zero_buffer ?es = Some b" "cb_wf b" "cb_entries b = last_n 10 ?es"
    using ring.push_all_empty [of ?es] by auto
  from b(1) have "queue_seek_main buffer (Some g) (Some t) (Some p) = Some (Some b)"
    by (auto simp: queue_seek_main_def aesd_circular_buffer_init_def cb_push_def bind_eq_Some_conv split: option.splits)
  with b(2,3) show ?thesis by (simp add: last_n_def)
qed

end
