(* ===== verification/Driver_Module.thy ===== *)
theory Driver_Module
  imports Char_Device_Invariant
begin

text \<open>
  Loading and unloading the driver: \<^verbatim>\<open>aesd_setup_cdev\<close>, \<^verbatim>\<open>aesd_init_module\<close> and
  \<^verbatim>\<open>aesd_cleanup_module\<close> of \<^verbatim>\<open>aesd-char-driver/main.c\<close>. What the kernel answers to a
  registration is a parameter (\<open>kdev_env\<close>); what the module has registered is part of the
  state, so that an error path that forgets to undo a step, and an unload that leaves a
  registration or a block behind, are visible.
\<close>

section \<open>Registrations\<close>

text \<open>
  The answers of \<^verbatim>\<open>alloc_chrdev_region\<close> (its result and the number it stores),
  \<^verbatim>\<open>cdev_add\<close>, \<^verbatim>\<open>class_create\<close> and \<^verbatim>\<open>device_create\<close>, and the kernel's packing of device
  numbers.
\<close>

record kdev_env =
  region_result :: "int \<times> nat"
  cdev_add_result :: int
  class_create_result :: kobj
  device_create_result :: kobj
  MAJOR :: "nat \<Rightarrow> nat"
  MKDEV :: "nat \<Rightarrow> nat \<Rightarrow> nat"

datatype kresource = Chrdev_Region nat | Cdev nat | Class kobj | Device kobj nat

record module_state =
  core :: aesd_state
  aesd_major :: nat
  held :: "kresource set"

definition aesd_minor :: nat where
  "aesd_minor = 0"

definition register :: "kresource \<Rightarrow> module_state \<Rightarrow> module_state" where
  "register r d = d\<lparr>held := insert r (held d)\<rparr>"

text \<open>Giving back what is not registered is an error of the module: \<open>None\<close>.\<close>

definition unregister :: "kresource \<Rightarrow> module_state \<Rightarrow> module_state option" where
  "unregister r d = (if r \<in> held d then Some (d\<lparr>held := held d - {r}\<rparr>) else None)"

abbreviation set_dev :: "(aesd_dev \<Rightarrow> aesd_dev) \<Rightarrow> module_state \<Rightarrow> module_state" where
  "set_dev f d \<equiv> d\<lparr>core := dev_update f (core d)\<rparr>"

section \<open>Loading\<close>

definition aesd_setup_cdev :: "kdev_env \<Rightarrow> module_state \<Rightarrow> int \<times> module_state" where
  "aesd_setup_cdev D d =
     (let devno = MKDEV D (aesd_major d) aesd_minor; err = cdev_add_result D
      in (err, if err = 0 then register (Cdev devno) d else d))"

definition IS_ERR :: "kobj \<Rightarrow> bool" where
  "IS_ERR p = (case p of KErr _ \<Rightarrow> True | _ \<Rightarrow> False)"

definition PTR_ERR :: "kobj \<Rightarrow> int" where
  "PTR_ERR p = (case p of KErr e \<Rightarrow> e | KNull \<Rightarrow> 0 | KObj a \<Rightarrow> int a)"

definition aesd_init_module :: "kdev_env \<Rightarrow> module_state \<Rightarrow> (int \<times> module_state) option" where
  "aesd_init_module D d =
     (let result = fst (region_result D);
          dev = (if result < 0 then 0 else snd (region_result D));
          d1 = (if result < 0 then d else register (Chrdev_Region dev) d)\<lparr>aesd_major := MAJOR D dev\<rparr>
      in if result < 0 then Some (result, d1)
         else
           let d2 = set_dev (\<lambda>_. zero_device) d1;
               d3 = set_dev (\<lambda>v. v\<lparr>buffer := the (aesd_circular_buffer_init (Some (buffer v))),
                      lock := False, pending := NULL, pending_len := 0\<rparr>) d2;
               (result, d4) = aesd_setup_cdev D d3
           in if result \<noteq> 0 then do {
                d5 \<leftarrow> unregister (Chrdev_Region dev) d4;
                Some (result, d5)
              }
              else
                let devno = MKDEV D (aesd_major d4) aesd_minor;
                    cl = class_create_result D;
                    d5 = set_dev (\<lambda>v. v\<lparr>devno := devno, dev_class := cl\<rparr>) d4
                in if IS_ERR cl then do {
                     d6 \<leftarrow> unregister (Cdev devno) d5;
                     d7 \<leftarrow> unregister (Chrdev_Region dev) d6;
                     Some (PTR_ERR cl, d7)
                   }
                   else
                     let d6 = register (Class cl) d5;
                         dv = device_create_result D;
                         d7 = set_dev (\<lambda>v. v\<lparr>device := dv\<rparr>) d6
                     in if IS_ERR dv then do {
                          d8 \<leftarrow> unregister (Class cl) d7;
                          d9 \<leftarrow> unregister (Cdev devno) d8;
                          d10 \<leftarrow> unregister (Chrdev_Region dev) d9;
                          Some (PTR_ERR dv, d10)
                        }
                        else Some (0, register (Device cl devno) d7))"

section \<open>Unloading\<close>

text \<open>The loop over the slots: each block that is left is freed and its slot cleared.\<close>

fun free_slots :: "nat list \<Rightarrow> aesd_state \<Rightarrow> aesd_state option" where
  "free_slots [] s = Some s"
| "free_slots (i # is) s = do {
     e \<leftarrow> array_get (entry (buffer (aesd_device s))) i;
     s' \<leftarrow> (if buffptr e \<noteq> NULL then do {
              s1 \<leftarrow> kfree (buffptr e) s;
              es \<leftarrow> array_set (entry (buffer (aesd_device s1))) i (e\<lparr>buffptr := NULL, entry_size := 0\<rparr>);
              Some (dev_update (\<lambda>v. v\<lparr>buffer := (buffer v)\<lparr>entry := es\<rparr>\<rparr>) s1)
            }
            else Some s);
     free_slots is s'
   }"

definition free_pending :: "aesd_state \<Rightarrow> aesd_state option" where
  "free_pending s =
     (if pending (aesd_device s) \<noteq> NULL then do {
        s' \<leftarrow> kfree (pending (aesd_device s)) s;
        Some (dev_update (\<lambda>v. v\<lparr>pending := NULL, pending_len := 0\<rparr>) s')
      }
      else Some s)"

definition aesd_cleanup_module :: "kdev_env \<Rightarrow> module_state \<Rightarrow> module_state option" where
  "aesd_cleanup_module D d = do {
     let dev = MKDEV D (aesd_major d) aesd_minor;
     let v = aesd_device (core d);
     d1 \<leftarrow> (if dev_class v \<noteq> KNull then do {
              d' \<leftarrow> unregister (Device (dev_class v) (devno v)) d;
              unregister (Class (dev_class v)) d'
            }
            else Some d);
     d2 \<leftarrow> unregister (Cdev dev) d1;
     s1 \<leftarrow> free_pending (core d2);
     s2 \<leftarrow> free_slots [0 ..< AESDCHAR_MAX_WRITE_OPERATIONS_SUPPORTED] s1;
     unregister (Chrdev_Region dev) (d2\<lparr>core := s2\<rparr>)
   }"

section \<open>The contract of the registrations\<close>

text \<open>
  A region that was asked for with the first minor number 0 gets a number with that minor,
  so that packing its major number again gives the number back. Results are 0 or a negative
  error number, error pointers hold a negative error number, and a class or device is never
  null.
\<close>

locale kernel_devices =
  fixes D :: kdev_env
  assumes region_minor: "fst (region_result D) \<ge> 0 \<Longrightarrow>
            MKDEV D (MAJOR D (snd (region_result D))) 0 = snd (region_result D)"
    and class_err: "class_create_result D = KErr e \<Longrightarrow> e < 0"
    and device_err: "device_create_result D = KErr e \<Longrightarrow> e < 0"
    and class_obj: "class_create_result D \<noteq> KNull"
begin

lemma unregister_held [simp]: "r \<in> held d \<Longrightarrow> unregister r d = Some (d\<lparr>held := held d - {r}\<rparr>)"
  by (simp add: unregister_def)

end

text \<open>What the module holds between a load that succeeded and the unload, beside what
  others hold.\<close>

definition loaded :: "kdev_env \<Rightarrow> kresource set \<Rightarrow> module_state \<Rightarrow> bool" where
  "loaded D H d \<longleftrightarrow>
     (let n = MKDEV D (aesd_major d) aesd_minor; cl = dev_class (aesd_device (core d)) in
      cl \<noteq> KNull \<and> devno (aesd_device (core d)) = n \<and>
      {Chrdev_Region n, Cdev n, Class cl, Device cl n} \<inter> H = {} \<and>
      held d = {Chrdev_Region n, Cdev n, Class cl, Device cl n} \<union> H)"

section \<open>A load undoes what it did when it fails\<close>

context kernel_devices
begin

lemma aesd_init_module_correct:
  assumes heap: "heap (core d) = Map.empty"
    and fresh: "\<forall>n c. {Chrdev_Region n, Cdev n, Class c, Device c n} \<inter> held d = {}"
  shows "\<exists>r d'. aesd_init_module D d = Some (r, d') \<and>
    (r = 0 \<longleftrightarrow> fst (region_result D) \<ge> 0 \<and> cdev_add_result D = 0 \<and>
      \<not> IS_ERR (class_create_result D) \<and> \<not> IS_ERR (device_create_result D)) \<and>
    (if r = 0
     then loaded D (held d) d' \<and> dev_inv (core d') \<and> dev_cmds (core d') = [] \<and> dev_partial (core d') = [] \<and>
          \<not> lock (aesd_device (core d'))
     else held d' = held d \<and> heap (core d') = Map.empty)"
proof (cases "fst (region_result D) < 0 \<or> cdev_add_result D \<noteq> 0")
  case True
  then show ?thesis using heap fresh
    by (auto simp: aesd_init_module_def Let_def aesd_setup_cdev_def register_def split: prod.split)
next
  case False
  note minor = region_minor [folded aesd_minor_def]
  show ?thesis
  proof (cases "IS_ERR (class_create_result D) \<or> IS_ERR (device_create_result D)")
    case True
    then show ?thesis
      using False heap fresh minor class_err device_err
      by (auto simp: aesd_init_module_def Let_def aesd_setup_cdev_def register_def IS_ERR_def PTR_ERR_def
          insert_Diff_if split: kobj.splits)
  next
    case ok: False
    then show ?thesis
      using False heap fresh minor class_obj
      by (auto simp: aesd_init_module_def Let_def aesd_setup_cdev_def register_def loaded_def
          dev_inv_zero zero_device_def aesd_circular_buffer_init_def)
  qed
qed

end

section \<open>An unload leaves nothing behind\<close>

definition slot_blocks :: "aesd_buffer_entry list \<Rightarrow> nat list" where
  "slot_blocks es = blocks_of (filter (\<lambda>e. buffptr e \<noteq> NULL) es)"

lemma free_slots_correct:
  assumes "i \<le> length (entry (buffer (aesd_device s)))"
    and "distinct (slot_blocks (drop i (entry (buffer (aesd_device s)))))"
    and "set (slot_blocks (drop i (entry (buffer (aesd_device s))))) \<subseteq> dom (heap s)"
  shows "\<exists>s'. free_slots [i ..< length (entry (buffer (aesd_device s)))] s = Some s' \<and>
    heap s' = heap s |` (- set (slot_blocks (drop i (entry (buffer (aesd_device s))))))"
  using assms
proof (induction "length (entry (buffer (aesd_device s))) - i" arbitrary: i s)
  case 0
  then show ?case by (simp add: slot_blocks_def blocks_of_def)
next
  case (Suc k)
  let ?es = "entry (buffer (aesd_device s))"
  have i: "i < length ?es" using Suc.hyps(2) by simp
  have dr: "drop i ?es = ?es ! i # drop (Suc i) ?es" using i by (simp add: Cons_nth_drop_Suc)
  have up: "[i ..< length ?es] = i # [Suc i ..< length ?es]" using i by (simp add: upt_conv_Cons)
  show ?case
  proof (cases "buffptr (?es ! i)")
    case None
    then have "slot_blocks (drop i ?es) = slot_blocks (drop (Suc i) ?es)"
      by (simp add: dr slot_blocks_def)
    with None up i Suc.prems Suc.hyps(1) [of s "Suc i"] Suc.hyps(2) show ?thesis by simp
  next
    case (Some a)
    then have sb: "slot_blocks (drop i ?es) = a # slot_blocks (drop (Suc i) ?es)"
      by (simp add: dr slot_blocks_def blocks_of_def)
    then obtain bs where a: "heap s a = Some bs" using Suc.prems(3) by auto
    define es where "es = ?es[i := (?es ! i)\<lparr>buffptr := NULL, entry_size := 0\<rparr>]"
    define s1 where "s1 = dev_update (\<lambda>v. v\<lparr>buffer := (buffer v)\<lparr>entry := es\<rparr>\<rparr>) (s\<lparr>heap := (heap s)(a := None)\<rparr>)"
    have s1: "entry (buffer (aesd_device s1)) = es" "length es = length ?es" "drop (Suc i) es = drop (Suc i) ?es"
      "heap s1 = (heap s)(a := None)"
      by (simp_all add: s1_def es_def)
    have step: "free_slots (i # [Suc i ..< length ?es]) s = free_slots [Suc i ..< length ?es] s1"
      using i a by (simp add: Some kfree_block es_def [symmetric] s1_def)
    have "\<exists>s'. free_slots [Suc i ..< length ?es] s1 = Some s' \<and>
        heap s' = heap s1 |` (- set (slot_blocks (drop (Suc i) ?es)))"
    proof -
      have "set (slot_blocks (drop (Suc i) ?es)) \<subseteq> dom (heap s1)"
        using Suc.prems(2,3) sb s1(4) by auto
      then show ?thesis
        using Suc.hyps(1) [of s1 "Suc i"] Suc.hyps(2) Suc.prems(2) sb s1(1-3) i by simp
    qed
    moreover have "heap s1 |` (- set (slot_blocks (drop (Suc i) ?es))) = heap s |` (- set (slot_blocks (drop i ?es)))"
      by (auto simp: s1 sb restrict_map_def fun_eq_iff)
    ultimately show ?thesis using step up by simp
  qed
qed

lemma dev_slot_blocks:
  assumes "dev_inv s"
  shows "distinct (slot_blocks (entry (buffer (aesd_device s))) @
      (case pending (aesd_device s) of None \<Rightarrow> [] | Some a \<Rightarrow> [a]))"
    and "dom (heap s) = set (slot_blocks (entry (buffer (aesd_device s))) @
      (case pending (aesd_device s) of None \<Rightarrow> [] | Some a \<Rightarrow> [a]))"
proof -
  let ?b = "buffer (aesd_device s)"
  have wf: "cb_wf ?b" using assms by (simp add: dev_inv_def Let_def)
  have mem: "mem_inv (heap s) (cb_entries ?b) (case pending (aesd_device s) of None \<Rightarrow> [] | Some a \<Rightarrow> [a])"
    using assms by (simp add: dev_inv_def Let_def)
  have "\<forall>e \<in> set (cb_entries ?b). buffptr e \<noteq> NULL"
    using mem_inv_entries [OF mem] by (auto elim: entry_okE)
  from used_slots [OF wf this] obtain k where "slot_blocks (entry ?b) = rotate k (blocks_of (cb_entries ?b))"
    by (auto simp: slot_blocks_def blocks_of_def rotate_map)
  with mem show "distinct (slot_blocks (entry ?b) @ (case pending (aesd_device s) of None \<Rightarrow> [] | Some a \<Rightarrow> [a]))"
    and "dom (heap s) = set (slot_blocks (entry ?b) @ (case pending (aesd_device s) of None \<Rightarrow> [] | Some a \<Rightarrow> [a]))"
    by (auto simp: mem_inv_def split: option.splits)
qed

lemma free_all_correct:
  assumes inv: "dev_inv s"
  shows "\<exists>s1 s2. free_pending s = Some s1 \<and>
    free_slots [0 ..< AESDCHAR_MAX_WRITE_OPERATIONS_SUPPORTED] s1 = Some s2 \<and> heap s2 = Map.empty"
proof -
  let ?es = "entry (buffer (aesd_device s))"
  note blocks = dev_slot_blocks [OF inv]
  have len: "length ?es = 10" using inv by (simp add: dev_inv_def Let_def cb_wf_def)
  have gone: "heap s2 = Map.empty" if "heap s2 = h |` (- set (slot_blocks ?es))" and "dom h \<subseteq> set (slot_blocks ?es)"
    for h and s2 :: aesd_state using that by (auto simp: restrict_map_def fun_eq_iff)
  show ?thesis
  proof (cases "pending (aesd_device s)")
    case None
    with free_slots_correct [of 0 s] blocks len gone [of _ "heap s"] show ?thesis
      by (auto simp: free_pending_def)
  next
    case (Some p)
    define s1 where "s1 = dev_update (\<lambda>v. v\<lparr>pending := NULL, pending_len := 0\<rparr>) (s\<lparr>heap := (heap s)(p := None)\<rparr>)"
    have s1: "entry (buffer (aesd_device s1)) = ?es" "heap s1 = (heap s)(p := None)" by (simp_all add: s1_def)
    have p: "\<exists>bs. heap s p = Some bs" "p \<notin> set (slot_blocks ?es)" "dom (heap s1) = set (slot_blocks ?es)"
      using blocks Some s1 by auto
    from p(1) obtain bs where "heap s p = Some bs" by blast
    then have "free_pending s = Some s1" using Some by (simp add: free_pending_def kfree_block s1_def)
    moreover obtain s2 where "free_slots [0 ..< 10] s1 = Some s2" "heap s2 = heap s1 |` (- set (slot_blocks ?es))"
      using free_slots_correct [of 0 s1] s1(1) blocks(1) len p(3) by auto
    moreover from gone [OF this(2)] p(3) have "heap s2 = Map.empty" by simp
    ultimately show ?thesis by simp
  qed
qed

lemma aesd_cleanup_module_correct:
  assumes inv: "dev_inv (core d)" and ld: "loaded D H d"
  shows "\<exists>d'. aesd_cleanup_module D d = Some d' \<and> held d' = H \<and> heap (core d') = Map.empty"
proof -
  let ?n = "MKDEV D (aesd_major d) aesd_minor" and ?cl = "dev_class (aesd_device (core d))"
  obtain s1 s2 where s: "free_pending (core d) = Some s1"
    "free_slots [0 ..< AESDCHAR_MAX_WRITE_OPERATIONS_SUPPORTED] s1 = Some s2" "heap s2 = Map.empty"
    using free_all_correct [OF inv] by blast
  have ld': "?cl \<noteq> KNull" "devno (aesd_device (core d)) = ?n"
    "held d = {Chrdev_Region ?n, Cdev ?n, Class ?cl, Device ?cl ?n} \<union> H"
    "Chrdev_Region ?n \<notin> H" "Cdev ?n \<notin> H" "Class ?cl \<notin> H" "Device ?cl ?n \<notin> H"
    using ld by (auto simp: loaded_def Let_def)
  then have "held d - {Device ?cl ?n} - {Class ?cl} - {Cdev ?n} - {Chrdev_Region ?n} = H" by auto
  with s ld' show ?thesis by (auto simp: aesd_cleanup_module_def unregister_def Let_def)
qed

section \<open>Properties\<close>

definition quiet_devices :: kdev_env where
  "quiet_devices =
     \<lparr>region_result = (0, 250 * 1048576), cdev_add_result = 0, class_create_result = KObj 1,
      device_create_result = KErr (- 12), MAJOR = (\<lambda>n. n div 1048576), MKDEV = (\<lambda>a b. a * 1048576 + b)\<rparr>"

interpretation quiet: kernel_devices quiet_devices
  by unfold_locales (auto simp: quiet_devices_def)

text \<open>
  C24: Loading the module either succeeds with an empty device and the number region, the
  character device, the class and the device node registered, or, whichever of the four
  registrations fails, returns non-zero with every earlier registration undone, in an order
  in which nothing is given back that is not held.
\<close>

theorem init_module_all_or_nothing:
  assumes "kernel_devices D" and "heap (core d) = Map.empty"
    and "\<forall>n c. {Chrdev_Region n, Cdev n, Class c, Device c n} \<inter> held d = {}"
  shows "\<exists>r d'. aesd_init_module D d = Some (r, d') \<and>
    (r = 0 \<longleftrightarrow> fst (region_result D) \<ge> 0 \<and> cdev_add_result D = 0 \<and>
      \<not> IS_ERR (class_create_result D) \<and> \<not> IS_ERR (device_create_result D)) \<and>
    (if r = 0
     then loaded D (held d) d' \<and> dev_inv (core d') \<and> dev_cmds (core d') = [] \<and> dev_partial (core d') = [] \<and>
          \<not> lock (aesd_device (core d'))
     else held d' = held d \<and> heap (core d') = Map.empty)"
  by (rule kernel_devices.aesd_init_module_correct [OF assms])

theorem init_module_all_or_nothing_witness:
  "\<exists>r d'. aesd_init_module quiet_devices \<lparr>core = boot_state, aesd_major = 0, held = {}\<rparr> = Some (r, d') \<and>
    r \<noteq> 0 \<and> held d' = {}"
  using init_module_all_or_nothing [OF quiet.kernel_devices_axioms, of "\<lparr>core = boot_state, aesd_major = 0, held = {}\<rparr>"]
  by (auto simp: boot_state_def quiet_devices_def IS_ERR_def split: if_splits)

text \<open>
  Unloading frees every block the driver allocated, the pending bytes and all the logged
  commands, each once, and gives back every registration, each once.
\<close>

theorem cleanup_module_leaves_nothing:
  assumes "dev_inv (core d)" and "loaded D H d"
  shows "\<exists>d'. aesd_cleanup_module D d = Some d' \<and> held d' = H \<and> heap (core d') = Map.empty"
  by (rule aesd_cleanup_module_correct [OF assms])

theorem cleanup_module_leaves_nothing_witness:
  "\<exists>d'. aesd_cleanup_module quiet_devices
      \<lparr>core = dev_update (\<lambda>v. v\<lparr>dev_class := KObj 1\<rparr>) boot_state, aesd_major = 0,
       held = {Chrdev_Region 0, Cdev 0, Class (KObj 1), Device (KObj 1) 0}\<rparr> = Some d' \<and>
    held d' = {} \<and> heap (core d') = Map.empty"
proof -
  let ?d = "\<lparr>core = dev_update (\<lambda>v. v\<lparr>dev_class := KObj 1\<rparr>) boot_state, aesd_major = 0,
       held = {Chrdev_Region 0, Cdev 0, Class (KObj 1), Device (KObj 1) 0}\<rparr>"
  have "dev_inv (core ?d)"
    using dev_inv_zero [of "core ?d"] by (simp add: boot_state_def zero_device_def)
  moreover have "loaded quiet_devices {} ?d"
    by (simp add: loaded_def quiet_devices_def aesd_minor_def boot_state_def zero_device_def)
  ultimately show ?thesis by (rule cleanup_module_leaves_nothing)
qed

end
