(* ===== verification/Driver_System.thy ===== *)
theory Driver_System
  imports Char_Device_Seek Driver_Module
begin

text \<open>
  The driver as a whole: the dispatch table \<^verbatim>\<open>aesd_fops\<close>, a step relation over the calls
  that processes make on the open files of the device, and the specification it refines, a
  log of the newest ten commands and the unfinished rest (\<open>log_call\<close>). Each handler holds
  the mutex from its first to its last access of the device, so that calls of different
  threads take effect one after the other; a step is one whole handler (\<open>Driver_Threads\<close> proves
  that this is enough).
\<close>

section \<open>Dispatch\<close>

datatype fop = Read u64 "byte list" | Write "byte list" u64 | Ioctl u32 "aesd_seekto option" | Llseek u64 int

text \<open>
  The handlers of \<^verbatim>\<open>aesd_fops\<close> on one open file: the result, what is in the caller's buffer
  afterwards (for a read), the file and the state. \<^verbatim>\<open>f_pos\<close> is passed to \<^verbatim>\<open>read\<close> and
  \<^verbatim>\<open>write\<close> by address.
\<close>

definition aesd_fops ::
  "kenv \<Rightarrow> fop \<Rightarrow> kfile \<Rightarrow> aesd_state \<Rightarrow> ((errno + u64) \<times> byte list \<times> kfile \<times> aesd_state) option" where
  "aesd_fops K op filep s =
     (case op of
        Read count ubuf \<Rightarrow> do {
          (r, out, pos, s') \<leftarrow> aesd_read K filep ubuf count (f_pos filep) s;
          Some (r, out, filep\<lparr>f_pos := pos\<rparr>, s')
        }
      | Write ubuf count \<Rightarrow> do {
          (r, pos, s') \<leftarrow> aesd_write K filep ubuf count (f_pos filep) s;
          Some (r, [], filep\<lparr>f_pos := pos\<rparr>, s')
        }
      | Ioctl cmd arg \<Rightarrow> do {
          (r, filep', s') \<leftarrow> aesd_ioctl K filep cmd arg s;
          Some (r, [], filep', s')
        }
      | Llseek offset whence \<Rightarrow> do {
          (r, filep', s') \<leftarrow> aesd_llseek K filep offset whence s;
          Some (r, [], filep', s')
        })"

text \<open>What the virtual file system guarantees for the arguments of a handler.\<close>

definition fop_ok :: "fop \<Rightarrow> bool" where
  "fop_ok op = (case op of Write ubuf count \<Rightarrow> unat count \<le> MAX_RW_COUNT | _ \<Rightarrow> True)"

section \<open>The specification: a log\<close>

record log_state =
  log_cmds :: "byte list list"
  log_part :: "byte list"

definition log_text :: "log_state \<Rightarrow> byte list" where
  "log_text a = concat (log_cmds a)"

text \<open>The log after the first \<open>k\<close> complete lines of the bytes \<open>bs\<close> have been moved into it.\<close>

definition log_lines :: "byte list \<Rightarrow> nat \<Rightarrow> log_state \<Rightarrow> log_state" where
  "log_lines bs k a =
     \<lparr>log_cmds = last_n 10 (log_cmds a @ take k (fst (split_lines bs))),
      log_part = concat (drop k (fst (split_lines bs))) @ snd (split_lines bs)\<rparr>"

text \<open>
  \<open>log_call K op r out pos pos' a a'\<close>: the call \<open>op\<close> at file position \<open>pos\<close> may answer
  \<open>r\<close>, with \<open>out\<close> in the caller's buffer, and leave the position \<open>pos'\<close> and the log \<open>a'\<close>.
\<close>

inductive log_call ::
  "kenv \<Rightarrow> fop \<Rightarrow> errno + u64 \<Rightarrow> byte list \<Rightarrow> u64 \<Rightarrow> u64 \<Rightarrow> log_state \<Rightarrow> log_state \<Rightarrow> bool"
  for K :: kenv where
  interrupted: "out = (case op of Read count ubuf \<Rightarrow> ubuf | _ \<Rightarrow> []) \<Longrightarrow>
    log_call K op (Inl ERESTARTSYS) out pos pos a a"
| read_ok: "data = take (unat count) (drop (unat pos) (log_text a)) \<Longrightarrow> length data \<le> length ubuf \<Longrightarrow>
    log_call K (Read count ubuf) (Inr (of_nat (length data))) (data @ drop (length data) ubuf)
      pos (pos + of_nat (length data)) a a"
| read_fault: "data = take (unat count) (drop (unat pos) (log_text a)) \<Longrightarrow> length ubuf < length data \<Longrightarrow>
    log_call K (Read count ubuf) (Inl EFAULT) (take (length ubuf) data) pos pos a a"
| write_nothing: "log_call K (Write ubuf 0) (Inr 0) [] pos pos a a"
| write_ok: "unat count \<le> length ubuf \<Longrightarrow> bs = log_part a @ take (unat count) ubuf \<Longrightarrow>
    log_call K (Write ubuf count) (Inr count) [] pos pos a (log_lines bs (length (fst (split_lines bs))) a)"
| write_fault: "length ubuf < unat count \<Longrightarrow>
    log_call K (Write ubuf count) (Inl EFAULT) [] pos pos a a"
| write_nomem: "log_call K (Write ubuf count) (Inl ENOMEM) [] pos pos a a"
| write_nomem_late: "bs = log_part a @ take (unat count) ubuf \<Longrightarrow> k < length (fst (split_lines bs)) \<Longrightarrow>
    log_call K (Write ubuf count) (Inl ENOMEM) [] pos pos a (log_lines bs k a)"
| seek: "whence \<in> {0, 1, 2} \<Longrightarrow>
    p = (if whence = 0 then offset else if whence = 1 then pos + offset
         else of_nat (length (log_text a)) + offset) \<Longrightarrow>
    log_call K (Llseek offset whence) (if sint p < 0 then Inl EINVAL else Inr p) []
      pos (if sint p < 0 then pos else p) a a"
| seek_whence: "whence \<notin> {0, 1, 2} \<Longrightarrow>
    log_call K (Llseek offset whence) (Inl EINVAL) [] pos pos a a"
| ioctl_ok: "unat (write_cmd sk) < length (log_cmds a) \<Longrightarrow>
    unat (write_cmd_offset sk) < length (log_cmds a ! unat (write_cmd sk)) \<Longrightarrow>
    log_call K (Ioctl (AESDCHAR_IOCSEEKTO K) (Some sk)) (Inr 0) [] pos
      (of_nat (length (concat (take (unat (write_cmd sk)) (log_cmds a))) + unat (write_cmd_offset sk))) a a"
| ioctl_range: "\<not> (unat (write_cmd sk) < length (log_cmds a) \<and>
      unat (write_cmd_offset sk) < length (log_cmds a ! unat (write_cmd sk))) \<Longrightarrow>
    log_call K (Ioctl (AESDCHAR_IOCSEEKTO K) (Some sk)) (Inl EINVAL) [] pos pos a a"
| ioctl_cmd: "cmd \<noteq> AESDCHAR_IOCSEEKTO K \<Longrightarrow>
    log_call K (Ioctl cmd (Some sk)) (Inl ENOTTY) [] pos pos a a"
| ioctl_fault: "log_call K (Ioctl cmd None) (Inl EFAULT) [] pos pos a a"

inductive_cases log_call_WriteE: "log_call K (Write ubuf count) r out pos pos' a a'"
inductive_cases log_call_ReadE: "log_call K (Read count ubuf) r out pos pos' a a'"
inductive_cases log_call_IoctlE: "log_call K (Ioctl cmd arg) r out pos pos' a a'"
inductive_cases log_call_LlseekE: "log_call K (Llseek offset whence) r out pos pos' a a'"

section \<open>The system\<close>

record system =
  driver :: module_state
  files :: "nat \<rightharpoonup> kfile"

datatype event = Open nat | Close nat | Call nat fop "errno + u64" "byte list"

inductive driver_step :: "kenv \<Rightarrow> system \<Rightarrow> event \<Rightarrow> system \<Rightarrow> bool" for K :: kenv where
  step_open: "files y fd = None \<Longrightarrow> aesd_open \<lparr>private_data = None, f_pos = 0\<rparr> = (0, f) \<Longrightarrow>
    driver_step K y (Open fd) (y\<lparr>files := (files y)(fd \<mapsto> f)\<rparr>)"
| step_close: "files y fd = Some f \<Longrightarrow> aesd_release f = (0, f') \<Longrightarrow>
    driver_step K y (Close fd) (y\<lparr>files := (files y)(fd := None)\<rparr>)"
| step_call: "files y fd = Some f \<Longrightarrow> fop_ok op \<Longrightarrow>
    aesd_fops K op f (core (driver y)) = Some (r, out, f', s') \<Longrightarrow>
    driver_step K y (Call fd op r out)
      (y\<lparr>driver := (driver y)\<lparr>core := s'\<rparr>, files := (files y)(fd \<mapsto> f')\<rparr>)"

inductive driver_run :: "kenv \<Rightarrow> system \<Rightarrow> event list \<Rightarrow> system \<Rightarrow> bool" for K :: kenv where
  run_nil: "driver_run K y [] y"
| run_snoc: "driver_run K y tr y' \<Longrightarrow> driver_step K y' ev y'' \<Longrightarrow> driver_run K y (tr @ [ev]) y''"

definition sys_inv :: "system \<Rightarrow> bool" where
  "sys_inv y \<longleftrightarrow> dev_inv (core (driver y)) \<and> \<not> lock (aesd_device (core (driver y))) \<and>
     (\<forall>fd f. files y fd = Some f \<longrightarrow> private_data f = Some ())"

definition log_of :: "aesd_state \<Rightarrow> log_state" where
  "log_of s = \<lparr>log_cmds = dev_cmds s, log_part = dev_partial s\<rparr>"

definition positions :: "system \<Rightarrow> nat \<rightharpoonup> u64" where
  "positions y = map_option f_pos \<circ> files y"

text \<open>The abstract counterpart of a step.\<close>

inductive log_step ::
  "kenv \<Rightarrow> log_state \<times> (nat \<rightharpoonup> u64) \<Rightarrow> event \<Rightarrow> log_state \<times> (nat \<rightharpoonup> u64) \<Rightarrow> bool" for K :: kenv where
  log_open: "ps fd = None \<Longrightarrow> log_step K (a, ps) (Open fd) (a, ps(fd \<mapsto> 0))"
| log_close: "ps fd = Some pos \<Longrightarrow> log_step K (a, ps) (Close fd) (a, ps(fd := None))"
| log_called: "ps fd = Some pos \<Longrightarrow> log_call K op r out pos pos' a a' \<Longrightarrow>
    log_step K (a, ps) (Call fd op r out) (a', ps(fd \<mapsto> pos'))"

inductive_cases log_step_CallE: "log_step K x (Call fd op r out) y"

section \<open>Every handler refines the log\<close>

lemma log_of_same: "same_device s s' \<Longrightarrow> log_of s' = log_of s"
  by (simp add: same_device_def log_of_def)

lemma log_text_of [simp]: "log_text (log_of s) = dev_text s"
  by (simp add: log_text_def log_of_def dev_text_def)

lemma logged_log_of: "logged s bs k s' \<Longrightarrow> log_of s' = log_lines bs k (log_of s) \<and> dev_inv s'"
  by (simp add: logged_def log_of_def log_lines_def)

lemma same_device_inv: "same_device s s' \<Longrightarrow> dev_inv s'"
  by (simp add: same_device_def)

lemma interrupted_calls:
  "log_call K (Write ubuf count) (Inl ERESTARTSYS) [] pos pos a a"
  "log_call K (Ioctl cmd arg) (Inl ERESTARTSYS) [] pos pos a a"
  "log_call K (Llseek offset whence) (Inl ERESTARTSYS) [] pos pos a a"
  by (rule interrupted, simp)+

text \<open>What a handler must achieve, for one operation.\<close>

definition refines_log :: "kenv \<Rightarrow> fop \<Rightarrow> kfile \<Rightarrow> aesd_state \<Rightarrow> bool" where
  "refines_log K op f s \<longleftrightarrow>
     (\<exists>r out f' s'. aesd_fops K op f s = Some (r, out, f', s') \<and> dev_inv s' \<and> \<not> lock (aesd_device s') \<and>
        private_data f' = private_data f \<and>
        log_call K op r out (f_pos f) (f_pos f') (log_of s) (log_of s'))"

lemma read_refines:
  assumes inv: "dev_inv s" "\<not> lock (aesd_device s)" and f: "private_data f = Some ()"
  shows "refines_log K (Read count ubuf) f s"
proof (cases "count = 0 \<or> \<not> signalled K (clock s)")
  case True
  define data where "data = take (unat count) (drop (unat (f_pos f)) (dev_text s))"
  obtain s' where "aesd_read K f ubuf count (f_pos f) s =
      Some (if length data \<le> length ubuf then Inr (of_nat (length data)) else Inl EFAULT,
        take (length ubuf) data @ drop (length data) ubuf,
        if length data \<le> length ubuf then f_pos f + of_nat (length data) else f_pos f, s')"
    "same_device s s'" "\<not> lock (aesd_device s')"
    using aesd_read_correct [OF inv f True data_def] by blast
  note r = this
  have data': "data = take (unat count) (drop (unat (f_pos f)) (log_text (log_of s)))"
    by (simp add: data_def)
  have "log_call K (Read count ubuf) (if length data \<le> length ubuf then Inr (of_nat (length data)) else Inl EFAULT)
      (take (length ubuf) data @ drop (length data) ubuf) (f_pos f)
      (if length data \<le> length ubuf then f_pos f + of_nat (length data) else f_pos f) (log_of s) (log_of s)"
    using read_ok [OF data'] read_fault [OF data'] by simp
  with r show ?thesis
    by (simp add: refines_log_def aesd_fops_def log_of_same) (simp add: same_device_inv)
next
  case False
  then have "aesd_read K f ubuf count (f_pos f) s = Some (Inl ERESTARTSYS, ubuf, f_pos f, tick s)"
    using f by (simp add: aesd_read_def mutex_lock_interruptible_def)
  then show ?thesis using inv
    by (auto simp: refines_log_def aesd_fops_def log_of_def intro!: interrupted)
qed

lemma outcome_log_call:
  assumes "write_outcome K s ubuf count r s'" and "dev_inv s"
  shows "dev_inv s' \<and> log_call K (Write ubuf count) r [] pos pos (log_of s) (log_of s')"
proof -
  define bs where "bs = dev_partial s @ take (unat count) ubuf"
  have bs: "bs = log_part (log_of s) @ take (unat count) ubuf" by (simp add: bs_def log_of_def)
  have late: "dev_inv s' \<and> log_call K (Write ubuf count) (Inl ENOMEM) [] pos pos (log_of s) (log_of s')"
    if "k < length (fst (split_lines bs))" "logged s bs k s'" for k
    using that logged_log_of [of s bs k s'] write_nomem_late [OF bs, of k K pos] by simp
  have ok: "dev_inv s' \<and> log_call K (Write ubuf count) (Inr count) [] pos pos (log_of s) (log_of s')"
    if "unat count \<le> length ubuf" "logged s bs (length (fst (split_lines bs))) s'"
    using that logged_log_of [of s bs _ s'] write_ok [OF _ bs, of K pos] by simp
  show ?thesis
  proof (cases r)
    case (Inr n)
    then consider "n = count" "unat count \<le> length ubuf" "logged s bs (length (fst (split_lines bs))) s'"
      | "n = count" "count = 0" "s' = s"
      using assms(1) by (auto simp: write_outcome_def Let_def bs_def [symmetric])
    then show ?thesis
      by cases (use ok Inr assms(2) write_nothing in simp_all)
  next
    case (Inl e)
    then consider k where "e = ENOMEM" "k < length (fst (split_lines bs))" "logged s bs k s'"
      | "e = ERESTARTSYS" "same_device s s'" | "e = ENOMEM" "same_device s s'"
      | "e = EFAULT" "length ubuf < unat count" "same_device s s'"
      using assms(1) by (cases e) (auto simp: write_outcome_def Let_def bs_def [symmetric])
    then show ?thesis
    proof cases
      case 1
      then show ?thesis using late Inl by simp
    qed (use Inl in \<open>simp_all add: log_of_same same_device_inv write_fault write_nomem interrupted_calls\<close>)
  qed
qed

context kernel_allocator
begin

lemma write_refines:
  assumes inv: "dev_inv s" "\<not> lock (aesd_device s)" and f: "private_data f = Some ()"
    and rw: "fop_ok (Write ubuf count)"
  shows "refines_log K (Write ubuf count) f s"
proof -
  have "unat count \<le> MAX_RW_COUNT" using rw by (simp add: fop_ok_def)
  from aesd_write_correct [OF inv f this] obtain r s' where
    w: "aesd_write K f ubuf count (f_pos f) s = Some (r, f_pos f, s')"
    "\<not> lock (aesd_device s')" "write_outcome K s ubuf count r s'" by blast
  from w(3) have "dev_inv s' \<and> log_call K (Write ubuf count) r [] (f_pos f) (f_pos f) (log_of s) (log_of s')"
    by (rule outcome_log_call [OF _ inv(1)])
  with w show ?thesis by (simp add: refines_log_def aesd_fops_def)
qed

end

lemma seek_refines:
  assumes inv: "dev_inv s" "\<not> lock (aesd_device s)" and f: "private_data f = Some ()"
  shows "refines_log K (Llseek offset whence) f s"
proof (cases "signalled K (clock s)")
  case True
  then have "aesd_llseek K f offset whence s = Some (Inl ERESTARTSYS, f, tick s)"
    using f by (simp add: aesd_llseek_def mutex_lock_interruptible_def)
  then show ?thesis using inv
    by (auto simp: refines_log_def aesd_fops_def log_of_def intro!: interrupted)
next
  case False
  define s1 where "s1 = tick (dev_update (lock_update (\<lambda>_. True)) s)"
  have start: "mutex_lock_interruptible K s = Some (False, s1)"
    using False inv by (simp add: mutex_lock_interruptible_def s1_def)
  obtain s2 where s2: "mutex_unlock s1 = Some s2" "same_device s s2" "\<not> lock (aesd_device s2)"
    using same_device_unlock [OF s1_def inv(1)] by blast
  note s1 = dev_inv_lock [OF s1_def]
  define p where "p = (if whence = 0 then offset else if whence = 1 then f_pos f + offset
         else of_nat (length (dev_text s)) + offset)"
  show ?thesis
  proof (cases "whence \<in> {0, 1, 2}")
    case True
    have "aesd_llseek K f offset whence s =
        Some (if sint p < 0 then Inl EINVAL else Inr p, if sint p < 0 then f else f\<lparr>f_pos := p\<rparr>, s2)"
      using True start s2 f s1 llseek_total_correct [of s1] inv
      by (auto simp: aesd_llseek_def Let_def p_def)
    moreover have "log_call K (Llseek offset whence) (if sint p < 0 then Inl EINVAL else Inr p) []
        (f_pos f) (if sint p < 0 then f_pos f else p) (log_of s) (log_of s)"
      using True p_def by (intro seek) simp_all
    ultimately show ?thesis using s2
      by (auto simp: refines_log_def aesd_fops_def log_of_same split: if_splits) (auto simp: same_device_inv)
  next
    case bad: False
    then have "aesd_llseek K f offset whence s = Some (Inl EINVAL, f, s2)"
      using start s2 f by (simp add: aesd_llseek_def)
    with bad s2 show ?thesis
      by (auto simp: refines_log_def aesd_fops_def log_of_same intro: seek_whence) (auto simp: same_device_inv)
  qed
qed

lemma ioctl_refines:
  assumes inv: "dev_inv s" "\<not> lock (aesd_device s)" and f: "private_data f = Some ()"
  shows "refines_log K (Ioctl cmd arg) f s"
proof (cases "arg = None \<or> signalled K (clock s) \<or> cmd \<noteq> AESDCHAR_IOCSEEKTO K")
  case True
  from aesd_ioctl_errors [OF inv f True] obtain s' where
    "aesd_ioctl K f cmd arg s = Some
      (Inl (if arg = None then EFAULT else if signalled K (clock s) then ERESTARTSYS else ENOTTY), f, s')"
    "same_device s s'" "\<not> lock (aesd_device s')" by blast
  moreover have "log_call K (Ioctl cmd arg)
      (Inl (if arg = None then EFAULT else if signalled K (clock s) then ERESTARTSYS else ENOTTY)) []
      (f_pos f) (f_pos f) (log_of s) (log_of s)"
    using True by (cases arg) (auto intro: ioctl_fault interrupted_calls ioctl_cmd)
  ultimately show ?thesis
    by (simp add: refines_log_def aesd_fops_def log_of_same same_device_inv)
next
  case False
  then obtain sk where sk: "arg = Some sk" "cmd = AESDCHAR_IOCSEEKTO K" "\<not> signalled K (clock s)" by auto
  from aesd_ioctl_correct [OF inv f sk(3), of sk] obtain s' where s':
    "aesd_ioctl K f cmd arg s = Some
      (if unat (write_cmd sk) < length (dev_cmds s) \<and>
          unat (write_cmd_offset sk) < length (dev_cmds s ! unat (write_cmd sk))
       then (Inr 0, f\<lparr>f_pos := of_nat (length (concat (take (unat (write_cmd sk)) (dev_cmds s))) +
                                         unat (write_cmd_offset sk))\<rparr>, s')
       else (Inl EINVAL, f, s'))" "same_device s s'" "\<not> lock (aesd_device s')"
    using sk by auto
  have cmds: "dev_cmds s = log_cmds (log_of s)" by (simp add: log_of_def)
  show ?thesis
  proof (cases "unat (write_cmd sk) < length (dev_cmds s) \<and>
          unat (write_cmd_offset sk) < length (dev_cmds s ! unat (write_cmd sk))")
    case True
    with ioctl_ok [of sk "log_of s" K "f_pos f"] s' sk show ?thesis
      by (simp add: refines_log_def aesd_fops_def log_of_same cmds) (simp add: same_device_inv)
  next
    case bad: False
    then have "aesd_ioctl K f cmd arg s = Some (Inl EINVAL, f, s')" using s'(1) by auto
    with bad ioctl_range [of sk "log_of s" K "f_pos f"] s'(2,3) sk show ?thesis
      by (simp add: refines_log_def aesd_fops_def log_of_same cmds) (simp add: same_device_inv)
  qed
qed

section \<open>Runs\<close>

inductive log_run ::
  "kenv \<Rightarrow> log_state \<times> (nat \<rightharpoonup> u64) \<Rightarrow> event list \<Rightarrow> log_state \<times> (nat \<rightharpoonup> u64) \<Rightarrow> bool" for K :: kenv where
  log_nil: "log_run K x [] x"
| log_snoc: "log_run K x tr x' \<Longrightarrow> log_step K x' ev x'' \<Longrightarrow> log_run K x (tr @ [ev]) x''"

abbreviation abs_of :: "system \<Rightarrow> log_state \<times> (nat \<rightharpoonup> u64)" where
  "abs_of y \<equiv> (log_of (core (driver y)), positions y)"

context kernel_allocator
begin

lemma fops_refine:
  assumes "dev_inv s" "\<not> lock (aesd_device s)" and "private_data f = Some ()" and "fop_ok op"
  shows "refines_log K op f s"
proof (cases op)
  case (Read count ubuf)
  then show ?thesis using read_refines [OF assms(1-3)] by simp
next
  case (Write ubuf count)
  then show ?thesis using write_refines [OF assms(1-3)] assms(4) by simp
next
  case (Ioctl cmd arg)
  then show ?thesis using ioctl_refines [OF assms(1-3)] by simp
next
  case (Llseek offset whence)
  then show ?thesis using seek_refines [OF assms(1-3)] by simp
qed

lemma step_refines:
  assumes step: "driver_step K y ev y'" and inv: "sys_inv y"
  shows "sys_inv y' \<and> log_step K (abs_of y) ev (abs_of y')"
  using step
proof cases
  case (step_open fd f)
  have pos: "positions (y\<lparr>files := (files y)(fd \<mapsto> f)\<rparr>) = (positions y)(fd \<mapsto> 0)" "positions y fd = None"
    using step_open by (auto simp: positions_def aesd_open_def fun_eq_iff)
  have "log_step K (abs_of y) (Open fd) (log_of (core (driver y)), (positions y)(fd \<mapsto> 0))"
    by (rule log_open [where ps = "positions y", OF pos(2)])
  with step_open inv pos show ?thesis
    by (auto simp: sys_inv_def aesd_open_def split: if_splits)
next
  case (step_close fd f f')
  have pos: "positions (y\<lparr>files := (files y)(fd := None)\<rparr>) = (positions y)(fd := None)" "positions y fd = Some (f_pos f)"
    using step_close by (auto simp: positions_def fun_eq_iff)
  have "log_step K (abs_of y) (Close fd) (log_of (core (driver y)), (positions y)(fd := None))"
    by (rule log_close [where ps = "positions y", OF pos(2)])
  with step_close inv pos show ?thesis
    by (auto simp: sys_inv_def split: if_splits)
next
  case (step_call fd f op r out f' s')
  let ?s = "core (driver y)"
  have f: "dev_inv ?s" "\<not> lock (aesd_device ?s)" "private_data f = Some ()"
    using inv step_call(3) by (auto simp: sys_inv_def)
  from fops_refine [OF f step_call(4)] step_call(5) have s': "dev_inv s'" "\<not> lock (aesd_device s')"
    "private_data f' = Some ()" "log_call K op r out (f_pos f) (f_pos f') (log_of ?s) (log_of s')"
    using f(3) by (auto simp: refines_log_def)
  have pos: "positions y' = (positions y)(fd \<mapsto> f_pos f')" "positions y fd = Some (f_pos f)"
    using step_call by (auto simp: positions_def fun_eq_iff)
  have "log_step K (abs_of y) (Call fd op r out) (log_of s', (positions y)(fd \<mapsto> f_pos f'))"
    by (rule log_called [where ps = "positions y", OF pos(2) s'(4)])
  with step_call s' inv pos show ?thesis
    by (auto simp: sys_inv_def split: if_splits)
qed

lemma run_refines:
  "driver_run K y tr y' \<Longrightarrow> sys_inv y \<Longrightarrow> sys_inv y' \<and> log_run K (abs_of y) tr (abs_of y')"
proof (induction rule: driver_run.induct)
  case (run_nil y)
  then show ?case by (simp add: log_nil)
next
  case (run_snoc y tr y' ev y'')
  then have "sys_inv y'" "log_run K (abs_of y) tr (abs_of y')" by auto
  with step_refines [OF run_snoc.hyps(2)] show ?case by (auto intro: log_snoc)
qed

text \<open>No call is ever undefined: from every reachable state every call can be answered.\<close>

lemma call_answered:
  assumes inv: "sys_inv y" and f: "files y fd = Some f" and "fop_ok op"
  shows "\<exists>r out y'. driver_step K y (Call fd op r out) y'"
proof -
  have "dev_inv (core (driver y))" "\<not> lock (aesd_device (core (driver y)))" "private_data f = Some ()"
    using inv f by (auto simp: sys_inv_def)
  from fops_refine [OF this assms(3)] show ?thesis
    unfolding refines_log_def using step_call [OF f assms(3)] by blast
qed

end

section \<open>The log is a function of the bytes written\<close>

definition accepted :: "event list \<Rightarrow> byte list" where
  "accepted tr = concat (map (\<lambda>ev. case ev of
      Call fd (Write ubuf count) (Inr n) out \<Rightarrow> take (unat n) ubuf | _ \<Rightarrow> []) tr)"

definition no_enomem :: "event list \<Rightarrow> bool" where
  "no_enomem tr \<longleftrightarrow> list_all (\<lambda>ev. case ev of Call fd op r out \<Rightarrow> r \<noteq> Inl ENOMEM | _ \<Rightarrow> True) tr"

definition stream_log :: "byte list \<Rightarrow> log_state" where
  "stream_log bs = \<lparr>log_cmds = last_n 10 (fst (split_lines bs)), log_part = snd (split_lines bs)\<rparr>"

lemma stream_log_step:
  "log_lines (log_part (stream_log bs) @ xs) (length (fst (split_lines (log_part (stream_log bs) @ xs)))) (stream_log bs) =
   stream_log (bs @ xs)"
  using split_lines_append [of bs xs] by (simp add: log_lines_def stream_log_def)

lemma accepted_append: "accepted (tr @ tr') = accepted tr @ accepted tr'"
  by (simp add: accepted_def)

text \<open>
  When an allocation is refused the bytes of the write may be kept or not, and lines that are
  complete may stay in the unfinished part until a later write moves them. \<open>may_keep ev bs\<close>: the call
  \<open>ev\<close> may have put \<open>bs\<close> into the stream of the device; \<open>stream_of tr bs\<close>: \<open>bs\<close> may be the stream
  after the calls \<open>tr\<close>. \<open>settled tr\<close>: no write has been refused memory since the last one that was
  accepted.
\<close>

definition may_keep :: "event \<Rightarrow> byte list \<Rightarrow> bool" where
  "may_keep ev bs = (case ev of
      Call fd (Write ubuf count) r out \<Rightarrow>
        (case r of Inr n \<Rightarrow> bs = take (unat n) ubuf
         | Inl e \<Rightarrow> bs = [] \<or> e = ENOMEM \<and> bs = take (unat count) ubuf)
    | _ \<Rightarrow> bs = [])"

definition stream_of :: "event list \<Rightarrow> byte list \<Rightarrow> bool" where
  "stream_of tr bs \<longleftrightarrow> (\<exists>ps. list_all2 may_keep tr ps \<and> bs = concat ps)"

definition settles :: "event \<Rightarrow> bool \<Rightarrow> bool" where
  "settles ev b = (case ev of
      Call fd (Write ubuf count) r out \<Rightarrow>
        (case r of Inr n \<Rightarrow> n \<noteq> 0 \<or> b | Inl e \<Rightarrow> e \<noteq> ENOMEM \<and> b)
    | _ \<Rightarrow> b)"

definition settled :: "event list \<Rightarrow> bool" where
  "settled tr = foldl (\<lambda>b ev. settles ev b) True tr"

text \<open>The log when \<open>k\<close> complete lines of the stream \<open>bs\<close> have been moved into it.\<close>

definition lines_moved :: "byte list \<Rightarrow> nat \<Rightarrow> log_state \<Rightarrow> bool" where
  "lines_moved bs k a \<longleftrightarrow> k \<le> length (fst (split_lines bs)) \<and>
     log_cmds a = last_n 10 (take k (fst (split_lines bs))) \<and>
     log_part a = concat (drop k (fst (split_lines bs))) @ snd (split_lines bs)"

lemma stream_of_simps [simp]:
  "stream_of [] bs \<longleftrightarrow> bs = []"
  "stream_of (tr @ [ev]) bs \<longleftrightarrow> (\<exists>xs ys. stream_of tr xs \<and> may_keep ev ys \<and> bs = xs @ ys)"
proof -
  show "stream_of [] bs \<longleftrightarrow> bs = []" by (simp add: stream_of_def)
  show "stream_of (tr @ [ev]) bs \<longleftrightarrow> (\<exists>xs ys. stream_of tr xs \<and> may_keep ev ys \<and> bs = xs @ ys)" (is "?l \<longleftrightarrow> ?r")
  proof
    assume ?l
    then obtain ps where "list_all2 may_keep (tr @ [ev]) ps" "bs = concat ps" by (auto simp: stream_of_def)
    then obtain qs y where "ps = qs @ [y]" "list_all2 may_keep tr qs" "may_keep ev y"
      by (auto simp: list_all2_append1 list_all2_Cons1)
    with \<open>bs = concat ps\<close> show ?r by (auto simp: stream_of_def)
  next
    assume ?r
    then obtain qs ys where "list_all2 may_keep tr qs" "may_keep ev ys" "bs = concat qs @ ys"
      by (auto simp: stream_of_def)
    then show ?l unfolding stream_of_def by (intro exI [of _ "qs @ [ys]"]) (simp add: list_all2_appendI)
  qed
qed

lemma settled_simps [simp]: "settled []" "settled (tr @ [ev]) = settles ev (settled tr)"
  by (simp_all add: settled_def)

lemma lines_moved_start [simp]: "lines_moved [] k (stream_log []) \<longleftrightarrow> k = 0"
  by (auto simp: lines_moved_def stream_log_def)

lemma lines_moved_part:
  assumes "lines_moved bs k a"
  shows "split_lines (log_part a @ xs) =
      (drop k (fst (split_lines bs)) @ fst (split_lines (snd (split_lines bs) @ xs)),
       snd (split_lines (snd (split_lines bs) @ xs)))"
proof -
  have "\<forall>l\<in>set (drop k (fst (split_lines bs))). is_line l"
    by (auto dest!: in_set_dropD split_lines_are_lines)
  from split_lines_lines [OF this] show ?thesis using assms by (simp add: lines_moved_def)
qed

lemma lines_moved_on:
  assumes moved: "lines_moved bs k a" and j: "j \<le> length (fst (split_lines (log_part a @ xs)))"
  shows "lines_moved (bs @ xs) (k + j) (log_lines (log_part a @ xs) j a) \<and>
    (j = length (fst (split_lines (log_part a @ xs))) \<longrightarrow> k + j = length (fst (split_lines (bs @ xs))))"
proof -
  have k: "k \<le> length (fst (split_lines bs))" and cmds: "log_cmds a = last_n 10 (take k (fst (split_lines bs)))"
    using moved by (simp_all add: lines_moved_def)
  show ?thesis
    using j k lines_moved_part [OF moved, of xs] split_lines_append [of bs xs] cmds
    by (auto simp: lines_moved_def log_lines_def take_append_take_drop drop_append_drop simp del: take_append drop_append)
qed

lemma lines_moved_call:
  assumes call: "log_call K op r out pos pos' a a'" and moved: "lines_moved bs k a"
  shows "\<exists>xs k'. may_keep (Call fd op r out) xs \<and> lines_moved (bs @ xs) k' a' \<and>
    (settles (Call fd op r out) (k = length (fst (split_lines bs))) \<longrightarrow> k' = length (fst (split_lines (bs @ xs))))"
    (is "?kept a'")
proof (cases op)
  case (Write ubuf count)
  have same: "?kept a" if "may_keep (Call fd op r out) []"
    "settles (Call fd op r out) (k = length (fst (split_lines bs))) \<longrightarrow> k = length (fst (split_lines bs))"
    using that moved by (intro exI [of _ "[]"] exI [of _ k]) simp
  have "log_call K (Write ubuf count) r out pos pos' a a'" using call Write by simp
  then have "(\<exists>j. j \<le> length (fst (split_lines (log_part a @ take (unat count) ubuf))) \<and>
      a' = log_lines (log_part a @ take (unat count) ubuf) j a \<and>
      (r = Inl ENOMEM \<or> r = Inr count \<and> j = length (fst (split_lines (log_part a @ take (unat count) ubuf))))) \<or>
    a' = a \<and> (r = Inr 0 \<and> count = 0 \<or> (\<exists>e. r = Inl e))"
    by (elim log_call_WriteE) (simp_all, blast intro: less_imp_le)
  then consider (kept) j where "j \<le> length (fst (split_lines (log_part a @ take (unat count) ubuf)))"
      "a' = log_lines (log_part a @ take (unat count) ubuf) j a"
      "r = Inl ENOMEM \<or> r = Inr count \<and> j = length (fst (split_lines (log_part a @ take (unat count) ubuf)))"
    | (same) "a' = a" "r = Inr 0 \<and> count = 0 \<or> (\<exists>e. r = Inl e)"
    by blast
  then show ?thesis
  proof cases
    case kept
    then show ?thesis
      using lines_moved_on [OF moved kept(1)] Write
      by (intro exI [of _ "take (unat count) ubuf"] exI [of _ "k + j"]) (auto simp: may_keep_def settles_def)
  next
    case same': same
    show ?thesis unfolding same'(1) by (rule same) (use same'(2) Write in \<open>auto simp: may_keep_def settles_def\<close>)
  qed
qed (use call moved in \<open>intro exI [of _ "[]"] exI [of _ k],
    auto simp: may_keep_def settles_def elim: log_call_ReadE log_call_IoctlE log_call_LlseekE\<close>)

lemma lines_moved_step:
  assumes "log_step K x ev x'" and "lines_moved bs k (fst x)"
  shows "\<exists>xs k'. may_keep ev xs \<and> lines_moved (bs @ xs) k' (fst x') \<and>
    (settles ev (k = length (fst (split_lines bs))) \<longrightarrow> k' = length (fst (split_lines (bs @ xs))))"
  using assms(1)
proof cases
  case (log_called ps fd pos op r out pos' a a')
  then show ?thesis using lines_moved_call [of K op r out pos pos' a a' bs k fd] assms(2) by simp
qed (use assms(2) in \<open>auto simp: may_keep_def settles_def intro!: exI [of _ "[]"] exI [of _ k]\<close>)

lemma lines_moved_run:
  "log_run K x tr x' \<Longrightarrow> fst x = stream_log [] \<Longrightarrow>
   \<exists>bs k. stream_of tr bs \<and> lines_moved bs k (fst x') \<and> (settled tr \<longrightarrow> k = length (fst (split_lines bs)))"
proof (induction rule: log_run.induct)
  case (log_nil x)
  then show ?case by simp
next
  case (log_snoc x tr x' ev x'')
  then obtain bs k where bs: "stream_of tr bs" "lines_moved bs k (fst x')"
    "settled tr \<longrightarrow> k = length (fst (split_lines bs))" by blast
  from lines_moved_step [OF log_snoc.hyps(2) bs(2)] obtain xs k' where xs: "may_keep ev xs"
    "lines_moved (bs @ xs) k' (fst x'')"
    "settles ev (k = length (fst (split_lines bs))) \<longrightarrow> k' = length (fst (split_lines (bs @ xs)))" by blast
  have "settles ev (settled tr) \<longrightarrow> settles ev (k = length (fst (split_lines bs)))"
    using bs(3) by (auto simp: settles_def split: event.split fop.split sum.split)
  with bs(1) xs show ?case by (intro exI [of _ "bs @ xs"] exI [of _ k']) auto
qed

text \<open>While no allocation is refused nothing is left open.\<close>

lemma no_enomem_stream: "no_enomem tr \<Longrightarrow> stream_of tr bs \<Longrightarrow> bs = accepted tr \<and> settled tr"
proof (induction tr arbitrary: bs rule: rev_induct)
  case Nil
  then show ?case by (simp add: accepted_def)
next
  case (snoc ev tr)
  then obtain xs ys where "xs = accepted tr" "settled tr" "may_keep ev ys" "bs = xs @ ys"
    by (auto simp: no_enomem_def)
  moreover have "ys = accepted [ev] \<and> settles ev True"
    using snoc.prems(1) \<open>may_keep ev ys\<close>
    by (auto simp: no_enomem_def may_keep_def accepted_def settles_def split: event.splits fop.splits sum.splits)
  ultimately show ?case by (simp add: accepted_append)
qed

text \<open>What the device holds after the calls \<open>tr\<close>.\<close>

definition holds_stream :: "event list \<Rightarrow> byte list list \<Rightarrow> byte list \<Rightarrow> bool" where
  "holds_stream tr cmds part \<longleftrightarrow> (\<exists>bs k. stream_of tr bs \<and> k \<le> length (fst (split_lines bs)) \<and>
     (settled tr \<longrightarrow> k = length (fst (split_lines bs))) \<and>
     cmds = last_n 10 (take k (fst (split_lines bs))) \<and>
     part = concat (drop k (fst (split_lines bs))) @ snd (split_lines bs))"

lemma run_holds_stream:
  assumes "log_run K x tr x'" and "fst x = stream_log []"
  shows "holds_stream tr (log_cmds (fst x')) (log_part (fst x'))"
proof -
  from lines_moved_run [OF assms] obtain bs k where "stream_of tr bs" "lines_moved bs k (fst x')"
    "settled tr \<longrightarrow> k = length (fst (split_lines bs))" by blast
  then show ?thesis unfolding holds_stream_def by (intro exI [of _ bs] exI [of _ k]) (simp add: lines_moved_def)
qed

lemma no_enomem_holds:
  assumes "holds_stream tr cmds part" and "no_enomem tr"
  shows "cmds = last_n 10 (fst (split_lines (accepted tr))) \<and> part = snd (split_lines (accepted tr))"
proof -
  from assms(1) obtain bs where "stream_of tr bs" "settled tr \<longrightarrow>
      cmds = last_n 10 (fst (split_lines bs)) \<and> part = snd (split_lines bs)"
    by (auto simp: holds_stream_def)
  with no_enomem_stream [OF assms(2)] show ?thesis by blast
qed

section \<open>Between loading and unloading\<close>

text \<open>The identity of the device, which only loading the module sets.\<close>

definition device_id :: "aesd_state \<Rightarrow> nat \<times> kobj" where
  "device_id s = (devno (aesd_device s), dev_class (aesd_device s))"

lemma device_id_lock [simp]:
  "mutex_lock_interruptible K s = Some (i, s') \<Longrightarrow> device_id s' = device_id s"
  "mutex_unlock s = Some s' \<Longrightarrow> device_id s' = device_id s"
  by (auto simp: mutex_lock_interruptible_def mutex_unlock_def device_id_def split: if_splits)

lemma device_id_identity: "same_identity s s' \<Longrightarrow> device_id s' = device_id s"
  by (simp add: same_identity_def device_id_def)

lemma device_id_device: "aesd_device s' = aesd_device s \<Longrightarrow> device_id s' = device_id s"
  by (simp add: device_id_def)

lemma device_id_upd [simp]:
  "device_id (dev_update (pending_update g) s) = device_id s"
  "device_id (dev_update (pending_len_update h) s) = device_id s"
  by (simp_all add: device_id_def)

lemmas device_id_frame = device_id_lock device_frame [THEN device_id_device]
  identity_write_loop [THEN device_id_identity]

lemma device_id_read: "aesd_read K f ubuf count pos s = Some (r, out, pos', s') \<Longrightarrow> device_id s' = device_id s"
  by (auto simp: aesd_read_def split: if_splits Option.bind_splits dest!: device_id_lock)

lemma device_id_write: "aesd_write K f ubuf count pos s = Some (r, pos', s') \<Longrightarrow> device_id s' = device_id s"
  by (auto simp: aesd_write_def Let_def split: if_splits Option.bind_splits dest!: device_id_frame)

lemma device_id_ioctl: "aesd_ioctl K f cmd arg s = Some (r, f', s') \<Longrightarrow> device_id s' = device_id s"
  by (auto simp: aesd_ioctl_def Let_def split: option.splits if_splits Option.bind_splits dest!: device_id_lock)

lemma device_id_llseek: "aesd_llseek K f offset whence s = Some (r, f', s') \<Longrightarrow> device_id s' = device_id s"
  by (auto simp: aesd_llseek_def Let_def split: option.splits if_splits Option.bind_splits dest!: device_id_lock)

lemma device_id_fops: "aesd_fops K op f s = Some (r, out, f', s') \<Longrightarrow> device_id s' = device_id s"
  by (auto simp: aesd_fops_def split: fop.splits Option.bind_splits
      dest!: device_id_read device_id_write device_id_ioctl device_id_llseek)

lemma loaded_cong:
  "device_id (core d') = device_id (core d) \<Longrightarrow> aesd_major d' = aesd_major d \<Longrightarrow> held d' = held d \<Longrightarrow>
   loaded D H d' = loaded D H d"
  by (simp add: loaded_def device_id_def)

lemma loaded_step:
  assumes "driver_step K y ev y'" and "loaded D H (driver y)"
  shows "loaded D H (driver y')"
  using assms(1)
proof cases
  case (step_call fd f op r out f' s')
  have "loaded D H (driver y') = loaded D H (driver y)"
    using step_call by (intro loaded_cong) (simp_all add: device_id_fops)
  with assms(2) show ?thesis by simp
qed (use assms(2) in simp_all)

lemma loaded_run: "driver_run K y tr y' \<Longrightarrow> loaded D H (driver y) \<Longrightarrow> loaded D H (driver y')"
  by (induction rule: driver_run.induct) (auto intro: loaded_step)

lemma sys_inv_init:
  assumes "kernel_devices D" and "heap (core d) = Map.empty"
    and "\<forall>n c. {Chrdev_Region n, Cdev n, Class c, Device c n} \<inter> held d = {}"
    and "aesd_init_module D d = Some (0, d1)"
  shows "sys_inv \<lparr>driver = d1, files = Map.empty\<rparr> \<and> loaded D (held d) d1 \<and> log_of (core d1) = stream_log []"
  using kernel_devices.aesd_init_module_correct [OF assms(1-3)] assms(4)
  by (auto simp: sys_inv_def log_of_def stream_log_def)

section \<open>Properties\<close>

definition boot_system :: system where
  "boot_system = \<lparr>driver = \<lparr>core = boot_state, aesd_major = 0, held = {}\<rparr>, files = Map.empty\<rparr>"

lemma boot_system_simps [simp]: "sys_inv boot_system" "core (driver boot_system) = boot_state" "files boot_system = Map.empty"
  by (simp_all add: sys_inv_def boot_system_def)

definition opened :: "nat \<Rightarrow> system \<Rightarrow> system" where
  "opened fd y = y\<lparr>files := (files y)(fd \<mapsto> open_file)\<rparr>"

lemma run_opened: "files y fd = None \<Longrightarrow> driver_run K y [Open fd] (opened fd y)"
  using run_snoc [OF run_nil, of K y "Open fd" "opened fd y"] step_open [of y fd open_file K]
  by (simp add: opened_def open_file_def aesd_open_def)

text \<open>
  C2: The driver refines the log: from a state in which the invariant holds, every run of
  opens, closes, reads, writes, seeks and ioctls on any number of files, in any order and
  with any failures of the kernel, keeps the invariant, leaves the mutex free, and is a run
  of the specification, with the same answers, the same bytes in the callers' buffers and
  the same file positions.
\<close>

theorem driver_refines_log:
  assumes "kernel_allocator K" and "sys_inv y" and "driver_run K y tr y'"
  shows "sys_inv y' \<and> log_run K (abs_of y) tr (abs_of y')"
  using kernel_allocator.run_refines [OF assms(1,3,2)] .

theorem driver_refines_log_witness:
  "\<exists>r out y'. driver_run quiet_kernel boot_system [Open 3, Call 3 (Write [newline] 1) r out] y' \<and> sys_inv y' \<and>
    log_run quiet_kernel (abs_of boot_system) [Open 3, Call 3 (Write [newline] 1) r out] (abs_of y')"
proof -
  have run: "driver_run quiet_kernel boot_system [Open 3] (opened 3 boot_system)"
    by (rule run_opened) simp
  have "sys_inv (opened 3 boot_system)"
    using kernel_allocator.run_refines [OF _ run] by simp
  from kernel_allocator.call_answered [OF _ this, of quiet_kernel 3 open_file "Write [newline] 1"]
  obtain r out y' where "driver_step quiet_kernel (opened 3 boot_system) (Call 3 (Write [newline] 1) r out) y'"
    by (auto simp: opened_def fop_ok_def)
  from run_snoc [OF run this] show ?thesis
    using driver_refines_log [of quiet_kernel boot_system "[Open 3, Call 3 (Write [newline] 1) r out]" y']
    by auto
qed

text \<open>
  C3: No call is undefined: in a state in which the invariant holds, every call on an open
  file gets an answer, so that no handler indexes outside an array, follows a null or
  dangling pointer, frees a block twice or takes the mutex twice.
\<close>

theorem driver_never_stuck:
  assumes "kernel_allocator K" and "sys_inv y" and "files y fd = Some f" and "fop_ok op"
  shows "\<exists>r out y'. driver_step K y (Call fd op r out) y'"
  by (rule kernel_allocator.call_answered [OF assms])

theorem driver_never_stuck_witness:
  "\<exists>r out y'. driver_step quiet_kernel (opened 3 boot_system) (Call 3 (Llseek 0 7) r out) y'"
proof -
  have "sys_inv (opened 3 boot_system)"
    using kernel_allocator.run_refines [OF _ run_opened, of quiet_kernel boot_system 3] by simp
  then show ?thesis
    by (intro driver_never_stuck [of _ _ _ open_file]) (simp_all add: opened_def fop_ok_def)
qed

end
