(* ===== verification/Driver_Bounds.thy ===== *)
theory Driver_Bounds
  imports Driver_System
begin

text \<open>
  Bounds on the driver: what its answers can be, how much it keeps, and that file positions
  never leave the non-negative range of \<^verbatim>\<open>loff_t\<close>, in every run.
\<close>

section \<open>Answers\<close>

text \<open>The answers a call can have, and how much of the caller's buffer is written.\<close>

definition answer_ok :: "fop \<Rightarrow> errno + u64 \<Rightarrow> byte list \<Rightarrow> bool" where
  "answer_ok op r out =
     (case op of
        Read count ubuf \<Rightarrow> length out \<le> length ubuf \<and>
          (case r of Inl e \<Rightarrow> e \<in> {ERESTARTSYS, EFAULT} | Inr n \<Rightarrow> unat n \<le> min (unat count) (length ubuf))
      | Write ubuf count \<Rightarrow>
          (case r of Inl e \<Rightarrow> e \<in> {ERESTARTSYS, EFAULT, ENOMEM} | Inr n \<Rightarrow> n = count \<and> unat count \<le> length ubuf)
      | Ioctl cmd arg \<Rightarrow>
          (case r of Inl e \<Rightarrow> e \<in> {ERESTARTSYS, EFAULT, EINVAL, ENOTTY} | Inr n \<Rightarrow> n = 0)
      | Llseek offset whence \<Rightarrow>
          (case r of Inl e \<Rightarrow> e \<in> {ERESTARTSYS, EINVAL} | Inr p \<Rightarrow> 0 \<le> sint p))"

fun event_ok :: "event \<Rightarrow> bool" where
  "event_ok (Call fd op r out) = answer_ok op r out"
| "event_ok ev = True"

lemma unat_of_nat_le: "unat (of_nat n :: u64) \<le> n"
  by (simp add: unat_of_nat)

lemma log_call_answer:
  assumes "log_call K op r out pos pos' a a'"
  shows "answer_ok op r out"
  using assms
proof (cases rule: log_call.cases)
  case (read_ok data count ubuf)
  then show ?thesis using unat_of_nat_le [of "length data"] by (auto simp: answer_ok_def)
qed (auto simp: answer_ok_def split: fop.splits)

section \<open>Positions\<close>

text \<open>A call leaves a non-negative position non-negative, when the text fits into \<^verbatim>\<open>loff_t\<close>.\<close>

lemma position_within:
  assumes "n \<le> length xs" and "length xs < 2 ^ 63"
  shows "0 \<le> sint (of_nat n :: u64)"
  using assms by (simp add: sint_of_nat_u64)

lemma concat_position:
  assumes "i < length xs" and "k < length (xs ! i)"
  shows "length (concat (take i xs)) + k \<le> length (concat xs)"
  using arg_cong [OF id_take_nth_drop [OF assms(1)], of "\<lambda>zs. length (concat zs)"] assms(2) by simp

lemma log_call_position:
  assumes "log_call K op r out pos pos' a a'" and "length (log_text a) < 2 ^ 63" and "0 \<le> sint pos"
  shows "0 \<le> sint pos'"
  using assms(1)
proof (cases rule: log_call.cases)
  case (read_ok data count ubuf)
  show ?thesis
  proof (cases "data = []")
    case False
    then have "unat pos + length data \<le> length (log_text a)" using read_ok by auto
    with assms(2) have "0 \<le> sint (of_nat (unat pos + length data) :: u64)" by (rule position_within [rotated])
    then show ?thesis using read_ok by simp
  qed (use assms(3) read_ok(4) in simp)
next
  case (ioctl_ok sk)
  have "length (concat (take (unat (write_cmd sk)) (log_cmds a))) + unat (write_cmd_offset sk) \<le> length (log_text a)"
    using concat_position [OF ioctl_ok(6,7)] by (simp add: log_text_def)
  then show ?thesis using ioctl_ok assms(2) position_within by blast
qed (use assms(3) in auto)

section \<open>Runs\<close>

definition positions_ok :: "system \<Rightarrow> bool" where
  "positions_ok y \<longleftrightarrow> (\<forall>fd f. files y fd = Some f \<longrightarrow> 0 \<le> sint (f_pos f))"

lemma positions_ok_iff: "positions_ok y \<longleftrightarrow> (\<forall>fd p. positions y fd = Some p \<longrightarrow> 0 \<le> sint p)"
  by (auto simp: positions_ok_def positions_def)

context kernel_allocator
begin

lemma step_bounded:
  assumes step: "driver_step K y ev y'" and inv: "sys_inv y" "positions_ok y"
  shows "event_ok ev \<and> positions_ok y'"
proof -
  have "length (log_text (log_of (core (driver y)))) < 2 ^ 63"
    using length_dev_text [of "core (driver y)"] inv(1) by (simp add: sys_inv_def)
  with step_refines [OF step inv(1)] inv(2) show ?thesis
    by (auto simp: positions_ok_iff split: if_splits elim!: log_step.cases dest: log_call_answer log_call_position)
qed

lemma run_bounded:
  "driver_run K y tr y' \<Longrightarrow> sys_inv y \<Longrightarrow> positions_ok y \<Longrightarrow> list_all event_ok tr \<and> positions_ok y'"
proof (induction rule: driver_run.induct)
  case (run_snoc y tr y' ev y'')
  then show ?case using run_refines [OF run_snoc.hyps(1)] step_bounded [OF run_snoc.hyps(2)] by simp
qed simp

end

section \<open>Properties\<close>

text \<open>A run in which a file is opened and moved.\<close>

lemma seek_run:
  "\<exists>r out y. driver_run quiet_kernel boot_system [Open 3, Call 3 (Llseek 4 0) r out] y"
proof -
  have run: "driver_run quiet_kernel boot_system [Open 3] (opened 3 boot_system)" by (rule run_opened) simp
  then have "sys_inv (opened 3 boot_system)" using kernel_allocator.run_refines [OF _ run] by simp
  then obtain r out y where "driver_step quiet_kernel (opened 3 boot_system) (Call 3 (Llseek 4 0) r out) y"
    using kernel_allocator.call_answered [of quiet_kernel "opened 3 boot_system" 3 open_file "Llseek 4 0"]
    by (auto simp: opened_def fop_ok_def)
  from run_snoc [OF run this] show ?thesis by auto
qed

text \<open>
  C28: What callers can be answered, in every run of the loaded driver: a read gives at most the
  bytes asked for and never writes behind the caller's buffer; a write answers with the full
  count or an error; a seek gives a non-negative position and a successful ioctl zero; and
  each call has only the errors listed for it.
\<close>

theorem driver_answers:
  assumes "kernel_allocator K" and "sys_inv y" and "files y = Map.empty" and "driver_run K y tr y'"
    and "Call fd op r out \<in> set tr"
  shows "answer_ok op r out"
proof -
  have "positions_ok y" using assms(3) by (simp add: positions_ok_def)
  then have "list_all event_ok tr" using kernel_allocator.run_bounded [OF assms(1,4,2)] by simp
  with assms(5) show ?thesis by (auto simp: list_all_iff)
qed

theorem driver_answers_witness:
  "\<exists>r out y. driver_run quiet_kernel boot_system [Open 3, Call 3 (Llseek 4 0) r out] y \<and>
    (case r of Inl e \<Rightarrow> e \<in> {ERESTARTSYS, EINVAL} | Inr p \<Rightarrow> 0 \<le> sint p)"
proof -
  obtain r out y where run: "driver_run quiet_kernel boot_system [Open 3, Call 3 (Llseek 4 0) r out] y"
    using seek_run by blast
  have "answer_ok (Llseek 4 0) r out"
    by (rule driver_answers [OF _ _ _ run]) simp_all
  with run show ?thesis by (auto simp: answer_ok_def)
qed

text \<open>
  C27: What the driver keeps is bounded, in every run of the loaded driver: at most eleven
  blocks are allocated, ten commands and the pending bytes, the offsets of the ring are below
  ten, the text has fewer than \<open>2 ^ 63\<close> bytes, and the position of every open file is a
  non-negative \<^verbatim>\<open>loff_t\<close>: the additions of \<^verbatim>\<open>aesd_read\<close> and \<^verbatim>\<open>aesd_ioctl\<close> do not overflow.
\<close>

theorem driver_bounded:
  assumes "kernel_allocator K" and "sys_inv y" and "files y = Map.empty" and "driver_run K y tr y'"
  shows "finite (dom (heap (core (driver y')))) \<and> card (dom (heap (core (driver y')))) \<le> 11 \<and>
    unat (in_offs (buffer (aesd_device (core (driver y'))))) < 10 \<and>
    unat (out_offs (buffer (aesd_device (core (driver y'))))) < 10 \<and>
    length (dev_cmds (core (driver y'))) \<le> 10 \<and> length (dev_text (core (driver y'))) < 2 ^ 63 \<and>
    (\<forall>fd f. files y' fd = Some f \<longrightarrow> 0 \<le> sint (f_pos f))"
proof -
  let ?s = "core (driver y')"
  have "positions_ok y" using assms(3) by (simp add: positions_ok_def)
  then have "positions_ok y'" "dev_inv ?s"
    using kernel_allocator.run_bounded [OF assms(1,4,2)] kernel_allocator.run_refines [OF assms(1,4,2)]
    by (auto simp: sys_inv_def)
  then show ?thesis
    using dev_inv_card [of ?s] length_dev_cmds [of ?s] length_dev_text [of ?s]
    by (auto simp: positions_ok_def dev_inv_def Let_def cb_wf_def)
qed

theorem driver_bounded_witness:
  "\<exists>r out y. driver_run quiet_kernel boot_system [Open 3, Call 3 (Llseek 4 0) r out] y \<and>
    (\<forall>fd f. files y fd = Some f \<longrightarrow> 0 \<le> sint (f_pos f))"
proof -
  obtain r out y where run: "driver_run quiet_kernel boot_system [Open 3, Call 3 (Llseek 4 0) r out] y"
    using seek_run by blast
  from driver_bounded [OF _ _ _ this] run show ?thesis by auto
qed

end
