(* ===== verification/Driver_Threads.thy ===== *)
theory Driver_Threads
  imports Driver_System
begin

text \<open>
  The handlers of the driver (\<^verbatim>\<open>aesd-char-driver/main.c\<close>) run by several threads at once. Taking the
  mutex, each round of the loops of \<^verbatim>\<open>aesd_read\<close> and \<^verbatim>\<open>aesd_write\<close>, the other accesses of the device,
  giving the mutex back and the return to the caller are steps of their own, in any interleaving. \<open>Driver_System\<close> takes a
  whole handler as one step; here this is proved: the calls take effect one after the other, and
  no thread that holds the mutex is ever blocked. At most one call at a time is made on one open
  file, as the kernel's lock on the file position does for \<^verbatim>\<open>read\<close>, \<^verbatim>\<open>write\<close> and \<^verbatim>\<open>llseek\<close>.
\<close>

section \<open>The handlers in pieces\<close>

text \<open>The answers given before the mutex is asked for.\<close>

fun early_answer :: "fop \<Rightarrow> ((errno + u64) \<times> byte list) option" where
  "early_answer (Read count ubuf) = (if count = 0 then Some (Inr 0, ubuf) else None)"
| "early_answer (Write ubuf count) = (if count = 0 then Some (Inr 0, []) else None)"
| "early_answer (Ioctl cmd arg) = (if arg = None then Some (Inl EFAULT, []) else None)"
| "early_answer (Llseek offset whence) = None"

text \<open>
  A thread that holds the mutex: after taking it, before a round of the loop of \<^verbatim>\<open>aesd_read\<close> (with
  \<^verbatim>\<open>copied\<close>, \<^verbatim>\<open>entry_off\<close> and the user's buffer), before \<^verbatim>\<open>copy_from_user\<close> and before a round of the loop
  of \<^verbatim>\<open>aesd_write\<close>, and before \<^verbatim>\<open>mutex_unlock\<close>.
\<close>

datatype body_pc =
    Start
  | Reading u64 u64 "byte list"
  | Copying_In
  | Storing
  | Leaving "errno + u64" "byte list" kfile

definition read_round :: "u64 \<Rightarrow> kfile \<Rightarrow> u64 \<Rightarrow> u64 \<Rightarrow> byte list \<Rightarrow> aesd_state \<Rightarrow> body_pc option" where
  "read_round count f copied entry_off ubuf s =
     (if copied < count then do {
        r \<leftarrow> aesd_circular_buffer_find_entry_offset_for_fpos
               (Some (buffer (aesd_device s))) (f_pos f + copied) (Some entry_off);
        case fst r of
          None \<Rightarrow> Some (Leaving (Inr copied) ubuf (f\<lparr>f_pos := f_pos f + copied\<rparr>))
        | Some i \<Rightarrow> do {
            off \<leftarrow> snd r;
            e \<leftarrow> array_get (entry (buffer (aesd_device s))) i;
            let to_copy = min (count - copied) (entry_size e - off);
            src \<leftarrow> read_bytes (buffptr e) (unat off) (unat to_copy) s;
            let (left, ubuf') = copy_to_user ubuf (unat copied) src;
            Some (if left \<noteq> 0 then Leaving (Inl EFAULT) ubuf' f else Reading (copied + to_copy) off ubuf')
          }
      }
      else Some (Leaving (Inr copied) ubuf (f\<lparr>f_pos := f_pos f + copied\<rparr>)))"

definition grow_step :: "kenv \<Rightarrow> u64 \<Rightarrow> kfile \<Rightarrow> aesd_state \<Rightarrow> (body_pc \<times> aesd_state) option" where
  "grow_step K count f s = do {
     (new_pending, s2) \<leftarrow> krealloc K (pending (aesd_device s)) (pending_len (aesd_device s) + count) s;
     Some (if new_pending = NULL then (Leaving (Inl ENOMEM) [] f, s2)
           else (Copying_In, dev_update (pending_update (\<lambda>_. new_pending)) s2))
   }"

definition copy_in_step :: "byte list \<Rightarrow> u64 \<Rightarrow> kfile \<Rightarrow> aesd_state \<Rightarrow> (body_pc \<times> aesd_state) option" where
  "copy_in_step ubuf count f s = do {
     (left, s4) \<leftarrow> copy_from_user (pending (aesd_device s)) (unat (pending_len (aesd_device s)))
                     ubuf (unat count) s;
     Some (if left \<noteq> 0 then (Leaving (Inl EFAULT) [] f, s4)
           else (Storing, dev_update (pending_len_update (\<lambda>l. l + count)) s4))
   }"

definition write_round :: "kenv \<Rightarrow> u64 \<Rightarrow> kfile \<Rightarrow> aesd_state \<Rightarrow> (body_pc \<times> aesd_state) option" where
  "write_round K count f s = do {
     nl \<leftarrow> find_newline s 0;
     case nl of
       None \<Rightarrow> Some (Leaving (Inr count) [] f, s)
     | Some i \<Rightarrow> do {
         (err, s') \<leftarrow> store_command K (i + 1) s;
         Some (case err of None \<Rightarrow> Storing | Some e \<Rightarrow> Leaving (Inl e) [] f, s')
       }
   }"

definition ioctl_answer ::
  "kenv \<Rightarrow> kfile \<Rightarrow> u32 \<Rightarrow> aesd_seekto \<Rightarrow> aesd_circular_buffer \<Rightarrow> ((errno + u64) \<times> kfile) option" where
  "ioctl_answer K f cmd seekto b =
     (if cmd = AESDCHAR_IOCSEEKTO K then
        if ucast (write_cmd seekto) \<ge> ioctl_total_entries b then Some (Inl EINVAL, f)
        else do {
          new_position \<leftarrow> ioctl_position b (unat (write_cmd seekto));
          e \<leftarrow> array_get (entry b) (unat ((ucast (out_offs b) + write_cmd seekto) mod 10));
          Some (if ucast (write_cmd_offset seekto) \<ge> entry_size e then (Inl EINVAL, f)
                else (Inr 0, f\<lparr>f_pos := new_position + ucast (write_cmd_offset seekto)\<rparr>))
        }
      else Some (Inl ENOTTY, f))"

definition llseek_answer ::
  "kfile \<Rightarrow> u64 \<Rightarrow> int \<Rightarrow> aesd_circular_buffer \<Rightarrow> (errno + u64) \<times> kfile" where
  "llseek_answer f offset whence b =
     (let newpos = (if whence = 0 then Some offset
                    else if whence = 1 then Some (f_pos f + offset)
                    else if whence = 2 then Some (llseek_total_size b + offset)
                    else None)
      in case newpos of
           None \<Rightarrow> (Inl EINVAL, f)
         | Some p \<Rightarrow> if sint p < 0 then (Inl EINVAL, f) else (Inr p, f\<lparr>f_pos := p\<rparr>))"

text \<open>One step of a thread that holds the mutex, up to \<^verbatim>\<open>mutex_unlock\<close>.\<close>

fun body_step :: "kenv \<Rightarrow> fop \<Rightarrow> kfile \<Rightarrow> body_pc \<Rightarrow> aesd_state \<Rightarrow> (body_pc \<times> aesd_state) option" where
  "body_step K (Read count ubuf) f Start s = Some (Reading 0 0 ubuf, s)"
| "body_step K (Read count ubuf) f (Reading copied off ub) s =
     do { pc \<leftarrow> read_round count f copied off ub s; Some (pc, s) }"
| "body_step K (Write ubuf count) f Start s = grow_step K count f s"
| "body_step K (Write ubuf count) f Copying_In s = copy_in_step ubuf count f s"
| "body_step K (Write ubuf count) f Storing s = write_round K count f s"
| "body_step K (Ioctl cmd (Some seekto)) f Start s =
     do { (r, f') \<leftarrow> ioctl_answer K f cmd seekto (buffer (aesd_device s)); Some (Leaving r [] f', s) }"
| "body_step K (Llseek offset whence) f Start s =
     (let (r, f') = llseek_answer f offset whence (buffer (aesd_device s)) in Some (Leaving r [] f', s))"
| "body_step K op f pc s = None"

section \<open>The pieces make up the handlers\<close>

text \<open>What a thread does from a program counter to its end, with the loops run to their ends.\<close>

type_synonym outcome = "(errno + u64) \<times> byte list \<times> kfile \<times> aesd_state"

definition leave :: "(errno + u64) \<Rightarrow> byte list \<Rightarrow> kfile \<Rightarrow> aesd_state \<Rightarrow> outcome option" where
  "leave r out f s = do { s' \<leftarrow> mutex_unlock s; Some (r, out, f, s') }"

definition rest_read :: "u64 \<Rightarrow> kfile \<Rightarrow> u64 \<Rightarrow> u64 \<Rightarrow> byte list \<Rightarrow> aesd_state \<Rightarrow> outcome option" where
  "rest_read count f copied off ub s = do {
     (r, ub') \<leftarrow> aesd_read_loop s count (f_pos f) copied off ub;
     leave r ub' (case r of Inl _ \<Rightarrow> f | Inr n \<Rightarrow> f\<lparr>f_pos := f_pos f + n\<rparr>) s
   }"

definition rest_store :: "kenv \<Rightarrow> u64 \<Rightarrow> kfile \<Rightarrow> aesd_state \<Rightarrow> outcome option" where
  "rest_store K count f s = do {
     (err, s') \<leftarrow> aesd_write_loop K s;
     leave (case err of None \<Rightarrow> Inr count | Some e \<Rightarrow> Inl e) [] f s'
   }"

fun rest_of :: "kenv \<Rightarrow> fop \<Rightarrow> kfile \<Rightarrow> body_pc \<Rightarrow> aesd_state \<Rightarrow> outcome option" where
  "rest_of K op f (Leaving r out f') s = leave r out f' s"
| "rest_of K (Read count ubuf) f (Reading copied off ub) s = rest_read count f copied off ub s"
| "rest_of K (Write ubuf count) f Storing s = rest_store K count f s"
| "rest_of K (Write ubuf count) f Copying_In s =
     do { (pc, s') \<leftarrow> copy_in_step ubuf count f s;
          case pc of Leaving r out f' \<Rightarrow> leave r out f' s' | _ \<Rightarrow> rest_store K count f s' }"
| "rest_of K (Read count ubuf) f Start s = rest_read count f 0 0 ubuf s"
| "rest_of K (Write ubuf count) f Start s =
     do { (pc, s1) \<leftarrow> grow_step K count f s;
          case pc of Leaving r out f' \<Rightarrow> leave r out f' s1
          | _ \<Rightarrow> do { (pc', s') \<leftarrow> copy_in_step ubuf count f s1;
                     case pc' of Leaving r out f' \<Rightarrow> leave r out f' s' | _ \<Rightarrow> rest_store K count f s' } }"
| "rest_of K (Ioctl cmd (Some seekto)) f Start s =
     do { (r, f') \<leftarrow> ioctl_answer K f cmd seekto (buffer (aesd_device s)); leave r [] f' s }"
| "rest_of K (Llseek offset whence) f Start s =
     (let (r, f') = llseek_answer f offset whence (buffer (aesd_device s)) in leave r [] f' s)"
| "rest_of K op f pc s = None"

lemma rest_read_step:
  "rest_read count f copied off ub s =
     do { pc \<leftarrow> read_round count f copied off ub s; rest_of K (Read count ubuf) f pc s }"
  unfolding rest_read_def
  by (subst aesd_read_loop.simps)
    (auto simp: read_round_def Let_def rest_read_def split: option.split prod.split Option.bind_split)

lemma rest_store_step:
  "rest_store K count f s = do { (pc, s') \<leftarrow> write_round K count f s; rest_of K (Write ubuf count) f pc s' }"
  unfolding rest_store_def
  by (subst aesd_write_loop.simps)
    (auto simp: write_round_def rest_store_def split: option.split prod.split Option.bind_split)

lemma grow_step_pc: "grow_step K count f s = Some (pc, s') \<Longrightarrow> (\<exists>r out f'. pc = Leaving r out f') \<or> pc = Copying_In"
  by (auto simp: grow_step_def split: if_splits Option.bind_splits)

lemma copy_in_step_pc: "copy_in_step ubuf count f s = Some (pc, s') \<Longrightarrow> (\<exists>r out f'. pc = Leaving r out f') \<or> pc = Storing"
  by (auto simp: copy_in_step_def split: if_splits Option.bind_splits)

lemma rest_of_grow:
  "rest_of K (Write ubuf count) f Start s =
     do { (pc, s1) \<leftarrow> grow_step K count f s; rest_of K (Write ubuf count) f pc s1 }"
  by (cases "grow_step K count f s") (auto dest!: grow_step_pc)

lemma rest_of_copy:
  "rest_of K (Write ubuf count) f Copying_In s =
     do { (pc, s1) \<leftarrow> copy_in_step ubuf count f s; rest_of K (Write ubuf count) f pc s1 }"
  by (cases "copy_in_step ubuf count f s") (auto dest!: copy_in_step_pc)

lemma rest_of_step:
  assumes "\<And>r out f'. pc \<noteq> Leaving r out f'"
  shows "rest_of K op f pc s = do { (pc', s') \<leftarrow> body_step K op f pc s; rest_of K op f pc' s' }"
proof (cases op)
  case (Read count ubuf)
  then show ?thesis using assms
    by (cases pc) (auto simp: rest_read_step [where K = K and ubuf = ubuf] split: Option.bind_split)
next
  case (Write ubuf count)
  then show ?thesis using assms
    by (cases pc) (auto simp: rest_of_grow rest_of_copy rest_store_step [where ubuf = ubuf] simp del: rest_of.simps(4,6))
next
  case (Ioctl cmd arg)
  then show ?thesis using assms
    by (cases pc; cases arg) (auto split: Option.bind_split)
next
  case (Llseek offset whence)
  then show ?thesis using assms
    by (cases pc) (auto simp: Let_def split: prod.split)
qed

text \<open>A handler is: an early answer, or the mutex and then the pieces, unless a signal comes first.\<close>

lemma aesd_fops_early:
  "early_answer op = Some (r, out) \<Longrightarrow> aesd_fops K op f s = Some (r, out, f, s)"
  by (cases op) (auto simp: aesd_fops_def aesd_read_def aesd_write_def aesd_ioctl_def split: if_splits)

lemma kfile_same [simp]: "f\<lparr>f_pos := f_pos f\<rparr> = f"
  by simp

lemma aesd_fops_pieces:
  assumes "early_answer op = None" and "private_data f = Some ()"
    and "mutex_lock_interruptible K s = Some (False, s1)"
  shows "aesd_fops K op f s = rest_of K op f Start s1"
proof (cases op)
  case (Read count ubuf)
  then show ?thesis using assms
    by (auto simp: aesd_fops_def aesd_read_def rest_read_def leave_def split: if_splits Option.bind_splits sum.split)
next
  case (Write ubuf count)
  then show ?thesis using assms
    by (auto simp: aesd_fops_def aesd_write_def grow_step_def copy_in_step_def rest_store_def leave_def Let_def
        split: if_splits Option.bind_splits)
next
  case (Ioctl cmd arg)
  then show ?thesis using assms
    by (auto simp: aesd_fops_def aesd_ioctl_def ioctl_answer_def leave_def Let_def
        split: if_splits Option.bind_splits)
next
  case (Llseek offset whence)
  then show ?thesis using assms
    by (auto simp: aesd_fops_def aesd_llseek_def llseek_answer_def leave_def Let_def
        split: Option.bind_splits option.splits)
qed

section \<open>What a step keeps, and that it leads to the end\<close>

lemma store_command_lock:
  "store_command K n s = Some (e, s') \<Longrightarrow> lock (aesd_device s') = lock (aesd_device s)"
  by (auto simp: store_command_def same_identity_def split: prod.splits if_splits Option.bind_splits
      dest!: device_frame insert_entry_frame drop_pending_frame)

lemma body_step_lock:
  "body_step K op f pc s = Some (pc', s') \<Longrightarrow> lock (aesd_device s') = lock (aesd_device s)"
  by (cases "(K, op, f, pc, s)" rule: body_step.cases)
    (auto simp: grow_step_def copy_in_step_def write_round_def Let_def
      split: Option.bind_splits if_splits option.splits prod.splits dest!: device_frame store_command_lock)

text \<open>The steps left before \<^verbatim>\<open>mutex_unlock\<close>, at most: a measure that every step makes smaller.\<close>

fun steps_left :: "fop \<Rightarrow> body_pc \<Rightarrow> aesd_state \<Rightarrow> nat" where
  "steps_left op (Leaving r out f) s = 0"
| "steps_left (Read count ubuf) (Reading copied off ub) s = unat (count - copied) + 1"
| "steps_left op Storing s = unat (pending_len (aesd_device s)) + 1"
| "steps_left op Copying_In s = 2 ^ 64 + 1"
| "steps_left op pc s = 2 ^ 64 + 2"

lemma unat_less_u64 [simp]: "unat (w :: u64) < 18446744073709551617"
  by (rule less_trans [OF unsigned_less]) simp

lemma read_round_decreases:
  assumes "read_round count f copied off ub s = Some pc"
  shows "steps_left (Read count ubuf) pc s' \<le> unat (count - copied)"
  using assms
  by (auto simp: read_round_def Let_def split: if_splits Option.bind_splits option.splits prod.splits
      dest!: find_in_range intro!: Suc_leI read_loop_progress)

lemma write_round_decreases:
  "write_round K count f s = Some (pc, s') \<Longrightarrow>
   steps_left op pc s' \<le> unat (pending_len (aesd_device s))"
  by (auto simp: write_round_def split: Option.bind_splits option.splits
      dest!: find_newline_bound store_command_pending_len intro!: Suc_leI write_loop_progress)

lemma body_step_decreases:
  "body_step K op f pc s = Some (pc', s') \<Longrightarrow> steps_left op pc' s' < steps_left op pc s"
  by (cases "(K, op, f, pc, s)" rule: body_step.cases)
    (auto simp: grow_step_def copy_in_step_def Let_def read_round_decreases write_round_decreases less_Suc_eq_le
      split: Option.bind_splits if_splits prod.splits)

section \<open>Threads\<close>

text \<open>
  What goes on on an open file: nothing, a call that does not have the mutex yet, a call that
  has it, or a call that has given the mutex back (or never had it) and is about to return its
  answer. A signal can come whenever a thread waits for the mutex, so that the kernel of the other
  definitions is used without its signals.
\<close>

datatype activity =
    Idle
  | Waiting fop
  | Holding fop body_pc
  | Returning fop "errno + u64" "byte list"

record conc =
  sys :: system
  activity :: "nat \<Rightarrow> activity"

abbreviation device_of :: "conc \<Rightarrow> aesd_state" where
  "device_of x \<equiv> core (driver (sys x))"

abbreviation set_device :: "aesd_state \<Rightarrow> system \<Rightarrow> system" where
  "set_device s y \<equiv> y\<lparr>driver := (driver y)\<lparr>core := s\<rparr>\<rparr>"

abbreviation fd_goes :: "nat \<Rightarrow> activity \<Rightarrow> conc \<Rightarrow> conc" where
  "fd_goes fd p x \<equiv> x\<lparr>activity := (activity x)(fd := p)\<rparr>"

definition old_buffer :: "fop \<Rightarrow> byte list" where
  "old_buffer op = (case op of Read count ubuf \<Rightarrow> ubuf | _ \<Rightarrow> [])"

text \<open>
  What can be seen of a step: that a call begins, that it (or an \<^verbatim>\<open>open\<close>, or a last \<^verbatim>\<open>close\<close>) takes
  effect, which for a call that had the mutex is the moment at which it gives the mutex back, and
  that a call returns. Between the last two any steps of other threads can come, so that calls need
  not return in the order in which they have given back the mutex.
\<close>

datatype mark =
    Invoked nat fop
  | Effect event
  | Returned nat fop "errno + u64" "byte list"

inductive thread_step :: "kenv \<Rightarrow> conc \<Rightarrow> mark list \<Rightarrow> conc \<Rightarrow> bool" for K :: kenv where
  t_open: "files (sys x) fd = None \<Longrightarrow> activity x fd = Idle \<Longrightarrow>
    aesd_open \<lparr>private_data = None, f_pos = 0\<rparr> = (0, f) \<Longrightarrow>
    thread_step K x [Effect (Open fd)] (x\<lparr>sys := (sys x)\<lparr>files := (files (sys x))(fd \<mapsto> f)\<rparr>\<rparr>)"
| t_close: "files (sys x) fd = Some f \<Longrightarrow> activity x fd = Idle \<Longrightarrow> aesd_release f = (0, f') \<Longrightarrow>
    thread_step K x [Effect (Close fd)] (x\<lparr>sys := (sys x)\<lparr>files := (files (sys x))(fd := None)\<rparr>\<rparr>)"
| t_call: "files (sys x) fd = Some f \<Longrightarrow> activity x fd = Idle \<Longrightarrow> fop_ok op \<Longrightarrow>
    thread_step K x [Invoked fd op] (fd_goes fd (Waiting op) x)"
| t_early: "activity x fd = Waiting op \<Longrightarrow> early_answer op = Some (r, out) \<Longrightarrow>
    thread_step K x [Effect (Call fd op r out)] (fd_goes fd (Returning op r out) x)"
| t_signal: "activity x fd = Waiting op \<Longrightarrow> early_answer op = None \<Longrightarrow>
    thread_step K x [Effect (Call fd op (Inl ERESTARTSYS) (old_buffer op))]
      (fd_goes fd (Returning op (Inl ERESTARTSYS) (old_buffer op)) x)"
| t_lock: "activity x fd = Waiting op \<Longrightarrow> early_answer op = None \<Longrightarrow>
    mutex_lock_interruptible K (device_of x) = Some (False, s') \<Longrightarrow>
    thread_step K x [] (fd_goes fd (Holding op Start) (x\<lparr>sys := set_device s' (sys x)\<rparr>))"
| t_body: "activity x fd = Holding op pc \<Longrightarrow> files (sys x) fd = Some f \<Longrightarrow>
    body_step K op f pc (device_of x) = Some (pc', s') \<Longrightarrow>
    thread_step K x [] (fd_goes fd (Holding op pc') (x\<lparr>sys := set_device s' (sys x)\<rparr>))"
| t_unlock: "activity x fd = Holding op (Leaving r out f') \<Longrightarrow>
    mutex_unlock (device_of x) = Some s' \<Longrightarrow>
    thread_step K x [Effect (Call fd op r out)]
      (fd_goes fd (Returning op r out)
        (x\<lparr>sys := (set_device s' (sys x))\<lparr>files := (files (sys x))(fd \<mapsto> f')\<rparr>\<rparr>))"
| t_return: "activity x fd = Returning op r out \<Longrightarrow>
    thread_step K x [Returned fd op r out] (fd_goes fd Idle x)"

inductive thread_run :: "kenv \<Rightarrow> conc \<Rightarrow> mark list \<Rightarrow> conc \<Rightarrow> bool" for K :: kenv where
  threads_start: "thread_run K x [] x"
| threads_go: "thread_run K x tr x' \<Longrightarrow> thread_step K x' ms x'' \<Longrightarrow> thread_run K x (tr @ ms) x''"

text \<open>The calls of a run in the order in which they have taken effect.\<close>

definition effects :: "mark list \<Rightarrow> event list" where
  "effects tr = concat (map (\<lambda>m. case m of Effect ev \<Rightarrow> [ev] | _ \<Rightarrow> []) tr)"

lemma effects_simps [simp]:
  "effects [] = []" "effects (Effect ev # tr) = ev # effects tr"
  "effects (Invoked fd op # tr) = effects tr" "effects (Returned fd op r out # tr) = effects tr"
  "effects (tr @ tr') = effects tr @ effects tr'"
  by (simp_all add: effects_def)

text \<open>
  What has been seen on one open file: nothing of a call since the last return, a call that has not
  taken effect, or one that has and has not returned. \<open>bracketed fd tr p\<close>: in the run \<open>tr\<close> each call on
  \<open>fd\<close> has taken effect exactly once, after its beginning and before its return, which gives the
  answer of that moment, and the file is opened and closed only between calls; \<open>p\<close> is where it is now.
\<close>

datatype phase = Between | Asked fop | Answered fop "errno + u64" "byte list"

fun mark_fd :: "mark \<Rightarrow> nat" where
  "mark_fd (Invoked fd op) = fd"
| "mark_fd (Effect (Open fd)) = fd"
| "mark_fd (Effect (Close fd)) = fd"
| "mark_fd (Effect (Call fd op r out)) = fd"
| "mark_fd (Returned fd op r out) = fd"

inductive bracketed :: "nat \<Rightarrow> mark list \<Rightarrow> phase \<Rightarrow> bool" for fd :: nat where
  b_start: "bracketed fd [] Between"
| b_elsewhere: "bracketed fd tr p \<Longrightarrow> mark_fd m \<noteq> fd \<Longrightarrow> bracketed fd (tr @ [m]) p"
| b_opened: "bracketed fd tr Between \<Longrightarrow> bracketed fd (tr @ [Effect (Open fd)]) Between"
| b_closed: "bracketed fd tr Between \<Longrightarrow> bracketed fd (tr @ [Effect (Close fd)]) Between"
| b_invoked: "bracketed fd tr Between \<Longrightarrow> bracketed fd (tr @ [Invoked fd op]) (Asked op)"
| b_effect: "bracketed fd tr (Asked op) \<Longrightarrow>
    bracketed fd (tr @ [Effect (Call fd op r out)]) (Answered op r out)"
| b_returned: "bracketed fd tr (Answered op r out) \<Longrightarrow>
    bracketed fd (tr @ [Returned fd op r out]) Between"

fun phase_of :: "activity \<Rightarrow> phase" where
  "phase_of Idle = Between"
| "phase_of (Waiting op) = Asked op"
| "phase_of (Holding op pc) = Asked op"
| "phase_of (Returning op r out) = Answered op r out"

lemma thread_step_brackets:
  assumes "thread_step K x ms x'" and "bracketed fd tr (phase_of (activity x fd))"
  shows "bracketed fd (tr @ ms) (phase_of (activity x' fd))"
  using assms(1)
proof cases
  case (t_open fd' f)
  then show ?thesis using assms(2) by (cases "fd' = fd") (auto intro: b_opened b_elsewhere)
next
  case (t_close fd' f f')
  then show ?thesis using assms(2) by (cases "fd' = fd") (auto intro: b_closed b_elsewhere)
next
  case (t_call fd' f op)
  then show ?thesis using assms(2) by (cases "fd' = fd") (auto intro: b_invoked b_elsewhere)
next
  case (t_early fd' op r out)
  then show ?thesis using assms(2) by (cases "fd' = fd") (auto intro: b_effect b_elsewhere)
next
  case (t_signal fd' op)
  then show ?thesis using assms(2) by (cases "fd' = fd") (auto intro: b_effect b_elsewhere)
next
  case (t_lock fd' op s')
  then show ?thesis using assms(2) by (cases "fd' = fd") auto
next
  case (t_body fd' op pc f pc' s')
  then show ?thesis using assms(2) by (cases "fd' = fd") auto
next
  case (t_unlock fd' op r out f' s')
  then show ?thesis using assms(2) by (cases "fd' = fd") (auto intro: b_effect b_elsewhere)
next
  case (t_return fd' op r out)
  then show ?thesis using assms(2) by (cases "fd' = fd") (auto intro: b_returned b_elsewhere)
qed

lemma thread_run_brackets:
  "thread_run K x tr x' \<Longrightarrow> phase_of (activity x fd) = Between \<Longrightarrow> bracketed fd tr (phase_of (activity x' fd))"
  by (induction rule: thread_run.induct) (auto intro: b_start thread_step_brackets)

section \<open>The invariant\<close>

fun holds :: "activity \<Rightarrow> bool" where
  "holds (Holding op pc) = True"
| "holds p = False"

definition files_ok :: "conc \<Rightarrow> bool" where
  "files_ok x \<longleftrightarrow> (\<forall>fd f. files (sys x) fd = Some f \<longrightarrow> private_data f = Some ()) \<and>
     (\<forall>fd. activity x fd \<noteq> Idle \<longrightarrow> files (sys x) fd \<noteq> None) \<and>
     (\<forall>fd op. activity x fd = Waiting op \<longrightarrow> fop_ok op)"

text \<open>
  While no thread is inside, the log is what the device holds. While one is, the log is what the
  device held when it took the mutex, and what it does from here on is what is left of the handler
  that it began then.
\<close>

definition inside_ok :: "kenv \<Rightarrow> log_state \<Rightarrow> nat \<Rightarrow> conc \<Rightarrow> bool" where
  "inside_ok K a fd x \<longleftrightarrow> (\<exists>op pc f s0. activity x fd = Holding op pc \<and> files (sys x) fd = Some f \<and>
     fop_ok op \<and> early_answer op = None \<and>
     dev_inv s0 \<and> \<not> lock (aesd_device s0) \<and> log_of s0 = a \<and>
     rest_of K op f pc (device_of x) = aesd_fops K op f s0)"

definition conc_inv :: "kenv \<Rightarrow> log_state \<times> (nat \<rightharpoonup> u64) \<Rightarrow> conc \<Rightarrow> bool" where
  "conc_inv K a x \<longleftrightarrow> files_ok x \<and> snd a = positions (sys x) \<and>
     (if lock (aesd_device (device_of x))
      then \<exists>fd. (\<forall>fd'. holds (activity x fd') \<longleftrightarrow> fd' = fd) \<and> inside_ok K (fst a) fd x
      else (\<forall>fd'. \<not> holds (activity x fd')) \<and> dev_inv (device_of x) \<and> fst a = log_of (device_of x))"

section \<open>Preservation\<close>

text \<open>A step completes at most one event; what the log does for it.\<close>

inductive log_steps ::
  "kenv \<Rightarrow> log_state \<times> (nat \<rightharpoonup> u64) \<Rightarrow> event list \<Rightarrow> log_state \<times> (nat \<rightharpoonup> u64) \<Rightarrow> bool" for K :: kenv where
  no_event: "log_steps K a [] a"
| one_event: "log_step K a ev a' \<Longrightarrow> log_steps K a [ev] a'"

lemma log_run_steps: "log_run K a tr a1 \<Longrightarrow> log_steps K a1 evs a2 \<Longrightarrow> log_run K a (tr @ evs) a2"
  by (erule log_steps.cases) (auto intro: log_snoc)

lemma positions_upd [simp]:
  "positions (y\<lparr>files := fs\<rparr>) = map_option f_pos \<circ> fs"
  "positions (set_device s y) = positions y"
  by (simp_all add: positions_def)

lemma positions_at: "files y fd = Some f \<Longrightarrow> positions y fd = Some (f_pos f)"
  by (simp add: positions_def)

lemma positions_none: "files y fd = None \<Longrightarrow> positions y fd = None"
  by (simp add: positions_def)

lemma inside_ok_frame:
  "inside_ok K a fd x \<Longrightarrow> activity x' fd = activity x fd \<Longrightarrow> files (sys x') fd = files (sys x) fd \<Longrightarrow>
   device_of x' = device_of x \<Longrightarrow> inside_ok K a fd x'"
  by (simp add: inside_ok_def)

text \<open>A step of a thread that does not have the mutex and leaves the device alone.\<close>

lemma conc_inv_outside:
  assumes "conc_inv K (a, ps) x" and "files_ok x'"
    and "\<not> holds (activity x fd)" "\<not> holds (activity x' fd)" and "device_of x' = device_of x"
    and "\<And>fd'. fd' \<noteq> fd \<Longrightarrow> activity x' fd' = activity x fd' \<and> files (sys x') fd' = files (sys x) fd'"
    and "ps' = positions (sys x')"
  shows "conc_inv K (a, ps') x'"
proof -
  have same: "holds (activity x' fd') = holds (activity x fd')" for fd'
    using assms(3,4,6) by (cases "fd' = fd") auto
  have "inside_ok K a fd' x'" if "inside_ok K a fd' x" "holds (activity x fd')" for fd'
    using inside_ok_frame [OF that(1)] that(2) assms(3,5,6) by (cases "fd' = fd") auto
  with assms(1,2,5,7) same show ?thesis by (auto simp: conc_inv_def split: if_splits)
qed

text \<open>What the log answers to an early answer, in the state of the device that the log stands for.\<close>

lemma conc_inv_log:
  assumes "conc_inv K (a, ps) x"
  obtains s0 where "dev_inv s0" "\<not> lock (aesd_device s0)" "log_of s0 = a"
  using assms by (auto simp: conc_inv_def inside_ok_def split: if_splits)

text \<open>A thread that has the mutex comes to the end of its handler by its own steps.\<close>

lemma threads_first: "thread_run K x1 tr x2 \<Longrightarrow> thread_step K x evs x1 \<Longrightarrow> thread_run K x (evs @ tr) x2"
proof (induction rule: thread_run.induct)
  case (threads_start x1)
  from thread_run.threads_go [OF thread_run.threads_start this] show ?case by simp
next
  case (threads_go x1 tr x' evs' x'')
  from thread_run.threads_go [OF threads_go.IH [OF threads_go.prems] threads_go.hyps(2)] show ?case by simp
qed

lemma threads_append: "thread_run K x2 tr' x3 \<Longrightarrow> thread_run K x1 tr x2 \<Longrightarrow> thread_run K x1 (tr @ tr') x3"
proof (induction rule: thread_run.induct)
  case (threads_start x)
  then show ?case by simp
next
  case (threads_go x2 tr' x' ms x'')
  from thread_run.threads_go [OF threads_go.IH [OF threads_go.prems] threads_go.hyps(2)] show ?case by simp
qed

text \<open>
  The thread on \<open>fd\<close> gives the mutex back and returns, without a step of another thread, with what is
  left of its handler as the answer and the device.
\<close>

definition finishes :: "kenv \<Rightarrow> nat \<Rightarrow> fop \<Rightarrow> body_pc \<Rightarrow> conc \<Rightarrow> bool" where
  "finishes K fd op pc x \<longleftrightarrow> (\<exists>f r out f' s'. files (sys x) fd = Some f \<and>
     rest_of K op f pc (device_of x) = Some (r, out, f', s') \<and> \<not> lock (aesd_device s') \<and>
     thread_run K x [Effect (Call fd op r out), Returned fd op r out]
       (fd_goes fd Idle (x\<lparr>sys := (set_device s' (sys x))\<lparr>files := (files (sys x))(fd \<mapsto> f')\<rparr>\<rparr>)))"

context kernel_allocator
begin

lemma early_call:
  assumes "conc_inv K (a, ps) x" and "private_data (f :: kfile) = Some ()" and "fop_ok op"
    and "early_answer op = Some (r, out)"
  shows "log_call K op r out (f_pos f) (f_pos f) a a"
proof -
  obtain s0 where s0: "dev_inv s0" "\<not> lock (aesd_device s0)" "log_of s0 = a"
    using conc_inv_log [OF assms(1)] by blast
  from fops_refine [OF s0(1,2) assms(2,3)] s0(3) show ?thesis
    by (simp add: refines_log_def aesd_fops_early [OF assms(4)])
qed

text \<open>A call that is answered without the mutex leaves the log and the position as they are.\<close>

lemma outside_call:
  assumes inv: "conc_inv K (a, ps) x" and act: "activity x fd = Waiting op"
    and log: "\<And>f. files (sys x) fd = Some f \<Longrightarrow> log_call K op r out (f_pos f) (f_pos f) a a"
  shows "\<exists>a'. conc_inv K a' (fd_goes fd (Returning op r out) x) \<and> log_steps K (a, ps) [Call fd op r out] a'"
proof -
  have ok: "files_ok x" "ps = positions (sys x)" using inv by (simp_all add: conc_inv_def)
  then obtain f where f: "files (sys x) fd = Some f" using act by (fastforce simp: files_ok_def)
  have ps: "ps fd = Some (f_pos f)" using ok f by (simp add: positions_at)
  have "conc_inv K (a, ps) (fd_goes fd (Returning op r out) x)"
    by (rule conc_inv_outside [OF inv, where fd = fd]) (use ok act in \<open>auto simp: files_ok_def\<close>)
  moreover have "log_step K (a, ps) (Call fd op r out) (a, ps(fd \<mapsto> f_pos f))"
    by (rule log_called [where ps = ps, OF ps log [OF f]])
  moreover have "ps(fd \<mapsto> f_pos f) = ps" using ps by auto
  ultimately show ?thesis by (auto intro: one_event)
qed

lemma lock_preserves:
  assumes inv: "conc_inv K (a, ps) x" and act: "activity x fd = Waiting op" and "early_answer op = None"
    and lock: "mutex_lock_interruptible K (device_of x) = Some (False, s')"
  shows "conc_inv K (a, ps) (fd_goes fd (Holding op Start) (x\<lparr>sys := set_device s' (sys x)\<rparr>))"
proof -
  have free: "\<not> lock (aesd_device (device_of x))" and s': "lock (aesd_device s')"
    using lock by (auto simp: mutex_lock_interruptible_def split: if_splits)
  have ok: "files_ok x" "ps = positions (sys x)" "dev_inv (device_of x)" "a = log_of (device_of x)"
    "\<And>fd'. \<not> holds (activity x fd')"
    using inv free by (simp_all add: conc_inv_def)
  then obtain f where f: "files (sys x) fd = Some f" "private_data f = Some ()" "fop_ok op"
    using act by (fastforce simp: files_ok_def)
  have "rest_of K op f Start s' = aesd_fops K op f (device_of x)"
    by (rule aesd_fops_pieces [symmetric, OF assms(3) f(2) lock])
  then have "inside_ok K a fd (fd_goes fd (Holding op Start) (x\<lparr>sys := set_device s' (sys x)\<rparr>))"
    using f ok free assms(3) by (auto simp: inside_ok_def)
  with ok s' act f show ?thesis by (auto simp: conc_inv_def files_ok_def)
qed

lemma holding_inside:
  assumes "conc_inv K (a, ps) x" and "holds (activity x fd)"
  shows "lock (aesd_device (device_of x)) \<and> inside_ok K a fd x \<and> (\<forall>fd'. holds (activity x fd') \<longrightarrow> fd' = fd)"
  using assms by (auto simp: conc_inv_def split: if_splits)

lemma body_preserves:
  assumes inv: "conc_inv K (a, ps) x" and act: "activity x fd = Holding op pc"
    and f: "files (sys x) fd = Some f" and body: "body_step K op f pc (device_of x) = Some (pc', s')"
  shows "conc_inv K (a, ps) (fd_goes fd (Holding op pc') (x\<lparr>sys := set_device s' (sys x)\<rparr>))"
proof -
  have in': "lock (aesd_device (device_of x))" "inside_ok K a fd x" "\<And>fd'. holds (activity x fd') \<Longrightarrow> fd' = fd"
    using holding_inside [OF inv, of fd] act by auto
  have ok: "files_ok x" "ps = positions (sys x)" using inv by (simp_all add: conc_inv_def)
  have "pc \<noteq> Leaving r out f'" for r out f' using body by auto
  then have "rest_of K op f pc (device_of x) = rest_of K op f pc' s'"
    using body by (simp add: rest_of_step)
  with in'(2) act f have "inside_ok K a fd (fd_goes fd (Holding op pc') (x\<lparr>sys := set_device s' (sys x)\<rparr>))"
    by (auto simp: inside_ok_def)
  moreover have "lock (aesd_device s')" using body_step_lock [OF body] in'(1) by simp
  ultimately show ?thesis using in'(3) ok act f by (auto simp: conc_inv_def files_ok_def)
qed

lemma unlock_preserves:
  assumes inv: "conc_inv K (a, ps) x" and act: "activity x fd = Holding op (Leaving r out f')"
    and unlock: "mutex_unlock (device_of x) = Some s'"
  shows "\<exists>a'. conc_inv K a' (fd_goes fd (Returning op r out)
      (x\<lparr>sys := (set_device s' (sys x))\<lparr>files := (files (sys x))(fd \<mapsto> f')\<rparr>\<rparr>)) \<and>
    log_steps K (a, ps) [Call fd op r out] a'"
proof -
  have ok: "files_ok x" "ps = positions (sys x)" using inv by (simp_all add: conc_inv_def)
  have only: "\<not> holds (activity x fd')" if "fd' \<noteq> fd" for fd'
    using holding_inside [OF inv, of fd] act that by auto
  from holding_inside [OF inv, of fd] act obtain f s0 where f: "files (sys x) fd = Some f" "fop_ok op"
    and s0: "dev_inv s0" "\<not> lock (aesd_device s0)" "log_of s0 = a"
    and rest: "rest_of K op f (Leaving r out f') (device_of x) = aesd_fops K op f s0"
    by (auto simp: inside_ok_def)
  have pd: "private_data f = Some ()" using ok f by (auto simp: files_ok_def)
  have fops: "aesd_fops K op f s0 = Some (r, out, f', s')"
    using rest unlock by (simp add: leave_def)
  from fops_refine [OF s0(1,2) pd f(2)] fops s0(3) pd
  have s': "dev_inv s'" "\<not> lock (aesd_device s')" "private_data f' = Some ()"
    "log_call K op r out (f_pos f) (f_pos f') a (log_of s')"
    by (auto simp: refines_log_def)
  have "log_step K (a, ps) (Call fd op r out) (log_of s', ps(fd \<mapsto> f_pos f'))"
    using f ok by (intro log_called [where ps = ps, OF _ s'(4)]) (simp add: positions_at)
  moreover have "conc_inv K (log_of s', ps(fd \<mapsto> f_pos f'))
      (fd_goes fd (Returning op r out)
        (x\<lparr>sys := (set_device s' (sys x))\<lparr>files := (files (sys x))(fd \<mapsto> f')\<rparr>\<rparr>))"
    using ok s' only by (auto simp: conc_inv_def files_ok_def positions_def)
  ultimately show ?thesis by (blast intro: one_event)
qed

lemma thread_step_refines:
  assumes step: "thread_step K x ms x'" and inv: "conc_inv K a x"
  shows "\<exists>a'. conc_inv K a' x' \<and> log_steps K a (effects ms) a'"
proof -
  obtain l ps where a: "a = (l, ps)" by (cases a)
  have inv': "conc_inv K (l, ps) x" using inv a by simp
  have ok: "files_ok x" "ps = positions (sys x)" using inv a by (simp_all add: conc_inv_def)
  from step show ?thesis unfolding a
  proof cases
    case (t_open fd f)
    have "conc_inv K (l, ps(fd \<mapsto> 0)) x'"
      by (rule conc_inv_outside [OF inv', where fd = fd])
        (use t_open ok in \<open>auto simp: files_ok_def aesd_open_def positions_def\<close>)
    moreover have "log_step K (l, ps) (Open fd) (l, ps(fd \<mapsto> 0))"
      using t_open ok by (intro log_open [where ps = ps]) (simp add: positions_none)
    ultimately show "\<exists>a'. conc_inv K a' x' \<and> log_steps K (l, ps) (effects ms) a'"
      using t_open(1) by (auto intro: one_event)
  next
    case (t_close fd f f')
    have "conc_inv K (l, ps(fd := None)) x'"
      by (rule conc_inv_outside [OF inv', where fd = fd])
        (use t_close ok in \<open>auto simp: files_ok_def positions_def\<close>)
    moreover have "log_step K (l, ps) (Close fd) (l, ps(fd := None))"
      using t_close ok by (intro log_close [where ps = ps]) (simp add: positions_at)
    ultimately show "\<exists>a'. conc_inv K a' x' \<and> log_steps K (l, ps) (effects ms) a'"
      using t_close(1) by (auto intro: one_event)
  next
    case (t_call fd f op)
    have "conc_inv K (l, ps) x'"
      by (rule conc_inv_outside [OF inv', where fd = fd]) (use t_call ok in \<open>auto simp: files_ok_def\<close>)
    then show "\<exists>a'. conc_inv K a' x' \<and> log_steps K (l, ps) (effects ms) a'"
      using t_call(1) by (auto intro: no_event)
  next
    case (t_early fd op r out)
    have "log_call K op r out (f_pos f) (f_pos f) l l" if "files (sys x) fd = Some f" for f
      using early_call [OF inv' _ _ t_early(4)] that ok t_early(3) by (auto simp: files_ok_def)
    from outside_call [OF inv' t_early(3) this] show "\<exists>a'. conc_inv K a' x' \<and> log_steps K (l, ps) (effects ms) a'"
      using t_early(1,2) by simp
  next
    case (t_signal fd op)
    have "log_call K op (Inl ERESTARTSYS) (old_buffer op) (f_pos f) (f_pos f) l l" for f
      by (rule interrupted) (simp add: old_buffer_def)
    from outside_call [OF inv' t_signal(3) this] show "\<exists>a'. conc_inv K a' x' \<and> log_steps K (l, ps) (effects ms) a'"
      using t_signal(1,2) by simp
  next
    case (t_lock fd op s')
    from lock_preserves [OF inv' t_lock(3-5)] show "\<exists>a'. conc_inv K a' x' \<and> log_steps K (l, ps) (effects ms) a'"
      using t_lock(1,2) by (auto intro: no_event)
  next
    case (t_body fd op pc f pc' s')
    from body_preserves [OF inv' t_body(3-5)] show "\<exists>a'. conc_inv K a' x' \<and> log_steps K (l, ps) (effects ms) a'"
      using t_body(1,2) by (auto intro: no_event)
  next
    case (t_unlock fd op r out f' s')
    from unlock_preserves [OF inv' t_unlock(3-4)] show "\<exists>a'. conc_inv K a' x' \<and> log_steps K (l, ps) (effects ms) a'"
      using t_unlock(1,2) by simp
  next
    case (t_return fd op r out)
    have "conc_inv K (l, ps) x'"
      by (rule conc_inv_outside [OF inv', where fd = fd]) (use t_return ok in \<open>auto simp: files_ok_def\<close>)
    then show "\<exists>a'. conc_inv K a' x' \<and> log_steps K (l, ps) (effects ms) a'"
      using t_return(1) by (auto intro: no_event)
  qed
qed

lemma thread_run_refines:
  "thread_run K x tr x' \<Longrightarrow> conc_inv K a x \<Longrightarrow> \<exists>a'. conc_inv K a' x' \<and> log_run K a (effects tr) a'"
proof (induction rule: thread_run.induct)
  case (threads_start x)
  then show ?case using log_nil [of K a] by (intro exI [of _ a]) simp
next
  case (threads_go x tr x' ms x'')
  then obtain a' where "conc_inv K a' x'" "log_run K a (effects tr) a'" by blast
  then obtain a'' where "conc_inv K a'' x''" "log_steps K a' (effects ms) a''" "log_run K a (effects tr) a'"
    using thread_step_refines [OF threads_go.hyps(2)] by blast
  then show ?case using log_run_steps [of K a "effects tr" a' "effects ms" a'']
    by (intro exI [of _ a'']) simp
qed

lemma body_progress:
  assumes "conc_inv K (a, ps) x" and "activity x fd = Holding op pc"
  shows "(\<exists>r out f. pc = Leaving r out f) \<or>
    (\<exists>f pc' s'. files (sys x) fd = Some f \<and> body_step K op f pc (device_of x) = Some (pc', s'))"
proof -
  from holding_inside [OF assms(1), of fd] assms(2) obtain f s0 where f: "files (sys x) fd = Some f" "fop_ok op"
    and s0: "dev_inv s0" "\<not> lock (aesd_device s0)"
    and rest: "rest_of K op f pc (device_of x) = aesd_fops K op f s0"
    by (auto simp: inside_ok_def)
  have "private_data f = Some ()" using assms(1) f by (auto simp: conc_inv_def files_ok_def)
  from fops_refine [OF s0 this f(2)] rest have "rest_of K op f pc (device_of x) \<noteq> None"
    by (auto simp: refines_log_def)
  then have "body_step K op f pc (device_of x) \<noteq> None" if "\<And>r out f'. pc \<noteq> Leaving r out f'"
    using rest_of_step [OF that, of K op f "device_of x"]
    by (cases "body_step K op f pc (device_of x)") auto
  with f show ?thesis by fast
qed

lemma holder_finishes:
  "conc_inv K (a, ps) x \<Longrightarrow> activity x fd = Holding op pc \<Longrightarrow> finishes K fd op pc x"
proof (induction "steps_left op pc (device_of x)" arbitrary: x pc rule: less_induct)
  case less
  have locked: "lock (aesd_device (device_of x))" and "\<exists>f. files (sys x) fd = Some f"
    using holding_inside [OF less.prems(1), of fd] less.prems(2) by (auto simp: inside_ok_def)
  then obtain f where f: "files (sys x) fd = Some f" by blast
  from body_progress [OF less.prems] show ?case
  proof (elim disjE exE conjE)
    fix r out f'
    assume pc: "pc = Leaving r out f'"
    obtain s' where s': "mutex_unlock (device_of x) = Some s'" "\<not> lock (aesd_device s')"
      using locked by (auto simp: mutex_unlock_def)
    let ?y = "x\<lparr>sys := (set_device s' (sys x))\<lparr>files := (files (sys x))(fd \<mapsto> f')\<rparr>\<rparr>"
    have step: "thread_step K x [Effect (Call fd op r out)] (fd_goes fd (Returning op r out) ?y)"
      using t_unlock [OF _ s'(1)] less.prems(2) pc by blast
    have "thread_step K (fd_goes fd (Returning op r out) ?y) [Returned fd op r out] (fd_goes fd Idle ?y)"
      using t_return [of "fd_goes fd (Returning op r out) ?y" fd op r out K] by simp
    from threads_first [OF threads_first [OF threads_start this] step] show ?thesis
      unfolding finishes_def using f s' pc
      by (intro exI [of _ f] exI [of _ r] exI [of _ out] exI [of _ f'] exI [of _ s']) (simp add: leave_def)
  next
    fix f0 pc' s'
    assume "files (sys x) fd = Some f0" and body': "body_step K op f0 pc (device_of x) = Some (pc', s')"
    then have body: "body_step K op f pc (device_of x) = Some (pc', s')" using f by simp
    let ?x' = "fd_goes fd (Holding op pc') (x\<lparr>sys := set_device s' (sys x)\<rparr>)"
    have "finishes K fd op pc' ?x'"
      by (rule less.hyps [where pc = pc'])
        (use body_step_decreases [OF body] body_preserves [OF less.prems f body] in simp_all)
    then obtain r out f' s2 where fin: "rest_of K op f pc' s' = Some (r, out, f', s2)"
      "\<not> lock (aesd_device s2)"
      "thread_run K ?x' [Effect (Call fd op r out), Returned fd op r out]
         (fd_goes fd Idle (x\<lparr>sys := (set_device s2 (sys x))\<lparr>files := (files (sys x))(fd \<mapsto> f')\<rparr>\<rparr>))"
      using f by (auto simp: finishes_def)
    have "pc \<noteq> Leaving r out f'" for r out f' using body by auto
    then have "rest_of K op f pc (device_of x) = Some (r, out, f', s2)"
      using rest_of_step [of pc K op f "device_of x"] body fin(1) by simp
    moreover have "thread_step K x [] ?x'"
      by (rule t_body [OF less.prems(2) f body])
    ultimately show ?thesis
      unfolding finishes_def using f fin(2) threads_first [OF fin(3), of x "[]"]
      by (intro exI [of _ f] exI [of _ r] exI [of _ out] exI [of _ f'] exI [of _ s2]) simp
  qed
qed

end

lemma conc_inv_idle: "sys_inv y \<Longrightarrow> conc_inv K (abs_of y) \<lparr>sys = y, activity = \<lambda>fd. Idle\<rparr>"
  by (simp add: conc_inv_def files_ok_def sys_inv_def)

section \<open>Properties\<close>

text \<open>
  C6: The driver under concurrency: in every interleaving of threads on any open files, at most one
  thread has the mutex; every call takes effect exactly once between its beginning and its return and
  returns the answer it had then, wherever the others are; in the order in which they take effect the
  calls are a run of the log, with the same answers, buffers and positions; and whenever no thread
  has the mutex, the device holds that log.
\<close>

theorem driver_threads_refine:
  assumes "kernel_allocator K" and "sys_inv y"
    and "thread_run K \<lparr>sys = y, activity = \<lambda>fd. Idle\<rparr> tr x"
  shows "(\<forall>fd fd'. holds (activity x fd) \<and> holds (activity x fd') \<longrightarrow> fd = fd') \<and>
    (\<forall>fd. bracketed fd tr (phase_of (activity x fd))) \<and>
    (\<exists>a. log_run K (abs_of y) (effects tr) a \<and>
      ((\<forall>fd. \<not> holds (activity x fd)) \<longrightarrow> a = abs_of (sys x) \<and> sys_inv (sys x)))"
proof -
  from kernel_allocator.thread_run_refines [OF assms(1,3) conc_inv_idle [OF assms(2)]]
  obtain l ps where inv: "conc_inv K (l, ps) x" and run: "log_run K (abs_of y) (effects tr) (l, ps)" by auto
  have "(l, ps) = abs_of (sys x) \<and> sys_inv (sys x)" if "\<forall>fd. \<not> holds (activity x fd)"
    using inv that by (auto simp: conc_inv_def files_ok_def sys_inv_def split: if_splits)
  moreover have "fd = fd'" if "holds (activity x fd)" "holds (activity x fd')" for fd fd'
    using kernel_allocator.holding_inside [OF assms(1) inv] that by blast
  moreover have "bracketed fd tr (phase_of (activity x fd))" for fd
    by (rule thread_run_brackets [OF assms(3)]) simp
  ultimately show ?thesis using run by blast
qed

text \<open>
  C7: The mutex is always given back: in every reachable state, the thread that has it comes to the
  end of its handler by its own steps alone, whatever the others wait for, leaves the mutex
  free and returns; a thread that has given it back returns; and a thread that waits for a free mutex
  takes it unless it is interrupted.
\<close>

theorem driver_threads_finish:
  assumes "kernel_allocator K" and "sys_inv y"
    and "thread_run K \<lparr>sys = y, activity = \<lambda>fd. Idle\<rparr> tr x"
  shows "(\<forall>fd op pc. activity x fd = Holding op pc \<longrightarrow>
      (\<exists>r out x'. thread_run K x [Effect (Call fd op r out), Returned fd op r out] x' \<and>
        \<not> lock (aesd_device (device_of x')) \<and> activity x' = (activity x)(fd := Idle))) \<and>
    (\<forall>fd op r out. activity x fd = Returning op r out \<longrightarrow>
      (\<exists>x'. thread_step K x [Returned fd op r out] x' \<and> activity x' = (activity x)(fd := Idle))) \<and>
    (\<forall>fd op. activity x fd = Waiting op \<and> early_answer op = None \<and> (\<forall>fd'. \<not> holds (activity x fd')) \<and>
      \<not> signalled K (clock (device_of x)) \<longrightarrow>
      (\<exists>x'. thread_step K x [] x' \<and> activity x' = (activity x)(fd := Holding op Start)))"
proof (intro conjI allI impI)
  from kernel_allocator.thread_run_refines [OF assms(1,3) conc_inv_idle [OF assms(2)]]
  obtain l ps where inv: "conc_inv K (l, ps) x" by auto
  show "\<exists>r out x'. thread_run K x [Effect (Call fd op r out), Returned fd op r out] x' \<and>
      \<not> lock (aesd_device (device_of x')) \<and> activity x' = (activity x)(fd := Idle)"
    if "activity x fd = Holding op pc" for fd op pc
    using kernel_allocator.holder_finishes [OF assms(1) inv that] by (fastforce simp: finishes_def)
  show "\<exists>x'. thread_step K x [Returned fd op r out] x' \<and> activity x' = (activity x)(fd := Idle)"
    if "activity x fd = Returning op r out" for fd op r out
    using t_return [OF that] by fastforce
  show "\<exists>x'. thread_step K x [] x' \<and> activity x' = (activity x)(fd := Holding op Start)"
    if w: "activity x fd = Waiting op \<and> early_answer op = None \<and> (\<forall>fd'. \<not> holds (activity x fd')) \<and>
      \<not> signalled K (clock (device_of x))" for fd op
  proof -
    have "\<not> lock (aesd_device (device_of x))" using inv w by (auto simp: conc_inv_def split: if_splits)
    then have "mutex_lock_interruptible K (device_of x) =
        Some (False, tick (dev_update (lock_update (\<lambda>_. True)) (device_of x)))"
      using w by (simp add: mutex_lock_interruptible_def)
    from t_lock [OF _ _ this] w show ?thesis by fastforce
  qed
qed

text \<open>A run of two threads: the one on file 3 is in \<^verbatim>\<open>aesd_write\<close> while a signal ends the call on file 4.\<close>

definition two_files :: system where
  "two_files = opened 4 (opened 3 boot_system)"

definition writer_inside :: "conc" where
  "writer_inside = \<lparr>sys = set_device (tick (dev_update (lock_update (\<lambda>_. True)) boot_state)) two_files,
     activity = (\<lambda>fd. Idle)(3 := Holding (Write [newline] 1) Start)\<rparr>"

lemma two_files_inv [simp]: "sys_inv two_files"
  using boot_system_simps(1) by (simp add: sys_inv_def two_files_def opened_def)

lemma two_files_at [simp]: "files two_files 3 = Some open_file" "files two_files 4 = Some open_file"
  "core (driver two_files) = boot_state"
  by (simp_all add: two_files_def opened_def)

lemma writer_inside_run:
  "thread_run quiet_kernel \<lparr>sys = two_files, activity = \<lambda>fd. Idle\<rparr>
     [Invoked 3 (Write [newline] 1), Invoked 4 (Llseek 0 0),
      Effect (Call 4 (Llseek 0 0) (Inl ERESTARTSYS) []), Returned 4 (Llseek 0 0) (Inl ERESTARTSYS) []] writer_inside"
proof -
  let ?K = quiet_kernel and ?W = "Write [newline] 1" and ?L = "Llseek 0 0"
  let ?s = "tick (dev_update (lock_update (\<lambda>_. True)) boot_state)"
  define x0 where "x0 = \<lparr>sys = two_files, activity = \<lambda>fd. Idle\<rparr>"
  define x1 where "x1 = fd_goes 3 (Waiting ?W) x0"
  define x2 where "x2 = fd_goes 4 (Waiting ?L) x1"
  define x3 where "x3 = fd_goes 3 (Holding ?W Start) (x2\<lparr>sys := set_device ?s (sys x2)\<rparr>)"
  have s1: "thread_step ?K x0 [Invoked 3 ?W] x1"
    unfolding x1_def by (rule t_call [where f = open_file]) (simp_all add: x0_def fop_ok_def MAX_RW_COUNT_def)
  have s2: "thread_step ?K x1 [Invoked 4 ?L] x2"
    unfolding x2_def by (rule t_call [where f = open_file]) (simp_all add: x0_def x1_def fop_ok_def)
  have s3: "thread_step ?K x2 [] x3"
    unfolding x3_def by (rule t_lock) (simp_all add: x0_def x1_def x2_def mutex_lock_interruptible_def)
  define x4 where "x4 = fd_goes 4 (Returning ?L (Inl ERESTARTSYS) (old_buffer ?L)) x3"
  have s4: "thread_step ?K x3 [Effect (Call 4 ?L (Inl ERESTARTSYS) (old_buffer ?L))] x4"
    unfolding x4_def by (rule t_signal) (simp_all add: x0_def x1_def x2_def x3_def)
  have s5: "thread_step ?K x4 [Returned 4 ?L (Inl ERESTARTSYS) (old_buffer ?L)] (fd_goes 4 Idle x4)"
    by (rule t_return) (simp add: x4_def)
  have "fd_goes 4 Idle x4 = writer_inside"
    by (simp add: writer_inside_def x0_def x1_def x2_def x3_def x4_def fun_eq_iff)
  with threads_first [OF threads_first [OF threads_first [OF threads_first [OF threads_first
      [OF threads_start s5] s4] s3] s2] s1]
  show ?thesis by (simp add: x0_def old_buffer_def)
qed

theorem driver_threads_refine_witness:
  "\<exists>a. log_run quiet_kernel (abs_of two_files) [Call 4 (Llseek 0 0) (Inl ERESTARTSYS) []] a"
  using driver_threads_refine [OF quiet_kernel(1) two_files_inv writer_inside_run] by auto

theorem driver_threads_finish_witness:
  "\<exists>r out x'. thread_run quiet_kernel writer_inside
    [Effect (Call 3 (Write [newline] 1) r out), Returned 3 (Write [newline] 1) r out] x'"
proof -
  have "activity writer_inside 3 = Holding (Write [newline] 1) Start" by (simp add: writer_inside_def)
  then show ?thesis
    using driver_threads_finish [OF quiet_kernel(1) two_files_inv writer_inside_run] by blast
qed

end
