(* ===== verification/Socket_Client_Correct.thy ===== *)
theory Socket_Client_Correct
  imports Socket_Client
begin

text \<open>
  What a client of the socket server gets. The lemmas hold for any file that keeps the
  interface \<open>data_file\<close>; the properties are stated for the regular file and for the
  driver's device.
\<close>

section \<open>Reading a file in chunks\<close>

function chunks :: "byte list \<Rightarrow> byte list list" where
  "chunks xs = (if xs = [] then [] else take 1024 xs # chunks (drop 1024 xs))"
  by pat_completeness auto

termination chunks
  by (relation "measure length") auto

declare chunks.simps [simp del]

lemma chunks_Nil [simp]: "chunks [] = []"
  by (simp add: chunks.simps)

lemma concat_chunks [simp]: "concat (chunks xs) = xs"
proof (induction xs rule: chunks.induct)
  case (1 xs)
  then show ?case by (subst chunks.simps) simp
qed

text \<open>One round of a loop that reads on from \<open>pos\<close>.\<close>

lemma chunk_step:
  assumes "pos < length (xs :: byte list)"
  shows "pos + length (take 1024 (drop pos xs)) \<le> length xs"
    and "length xs - (pos + length (take 1024 (drop pos xs))) < length xs - pos"
    and "drop (pos + length (take 1024 (drop pos xs))) xs = drop 1024 (drop pos xs)"
    and "chunks (drop pos xs) = take 1024 (drop pos xs) # chunks (drop 1024 (drop pos xs))"
proof -
  show "pos + length (take 1024 (drop pos xs)) \<le> length xs"
    and "length xs - (pos + length (take 1024 (drop pos xs))) < length xs - pos"
    using assms unfolding length_take length_drop by linarith+
  show "drop (pos + length (take 1024 (drop pos xs))) xs = drop 1024 (drop pos xs)"
    by (cases "length (drop pos xs) \<le> 1024") (simp_all add: add.commute)
  show "chunks (drop pos xs) = take 1024 (drop pos xs) # chunks (drop 1024 (drop pos xs))"
    using assms by (subst chunks.simps) simp
qed

text \<open>The buffer after the last chunk starts with a non-empty end of the file.\<close>

lemma overlay_chunks:
  "xs \<noteq> [] \<Longrightarrow> \<exists>pre z post. xs = pre @ z \<and> z \<noteq> [] \<and> foldl overlay b (chunks xs) = z @ post"
proof (induction xs arbitrary: b rule: chunks.induct)
  case (1 xs)
  have ch: "chunks xs = take 1024 xs # chunks (drop 1024 xs)" using 1(2) by (subst chunks.simps) simp
  show ?case
  proof (cases "drop 1024 xs = []")
    case True
    then have "foldl overlay b (chunks xs) = xs @ drop (length xs) b"
      using ch by (simp add: overlay_def)
    then show ?thesis using 1(2)
      by (intro exI [of _ "[]"] exI [of _ xs] exI [of _ "drop (length xs) b"]) simp
  next
    case False
    from 1(1) [OF 1(2) False, of "overlay b (take 1024 xs)"] obtain pre z post where
      z: "drop 1024 xs = pre @ z" "z \<noteq> []"
      "foldl overlay (overlay b (take 1024 xs)) (chunks (drop 1024 xs)) = z @ post" by blast
    have "xs = (take 1024 xs @ pre) @ z" using z(1) by (metis append_assoc append_take_drop_id)
    moreover have "foldl overlay b (chunks xs) = z @ post" using ch z(3) by simp
    ultimately show ?thesis using z(2) by blast
  qed
qed

lemma strchr_newline_found:
  assumes "newline \<in> set z" and "nul \<notin> set z"
  shows "strchr_newline (z @ post) = Some True"
proof -
  obtain a r where z: "z = a @ newline # r" "newline \<notin> set a" using assms(1) by (meson split_list_first)
  have "dropWhile (\<lambda>x. x \<noteq> nul \<and> x \<noteq> newline) (z @ post) = newline # r @ post"
    using z assms(2) by (auto simp: dropWhile_append3 dropWhile_eq_self_iff)
  then show ?thesis by (simp add: strchr_newline_def)
qed

section \<open>The packet in the buffer\<close>

lemma c_string_packet:
  "nul \<notin> set bs \<Longrightarrow> c_string (bs @ nul # post) = Some bs"
  by (auto simp: c_string_def takeWhile_append)

lemma not_command:
  assumes "take (length ioctl_value) bs \<noteq> ioctl_value"
  shows "take (length ioctl_value) (overlay b (bs @ [nul])) \<noteq> ioctl_value"
proof
  assume eq: "take (length ioctl_value) (overlay b (bs @ [nul])) = ioctl_value"
  show False
  proof (cases "length ioctl_value \<le> length bs")
    case True
    with eq assms show False by (simp add: overlay_def)
  next
    case False
    then have "take (length ioctl_value) (overlay b (bs @ [nul])) ! length bs = nul"
      by (simp add: overlay_def nth_append)
    then have "nul = ioctl_value ! length bs" using eq by simp
    moreover have "length bs < length ioctl_value" using False by simp
    ultimately have "nul \<in> set ioctl_value" by (metis nth_mem)
    then show False by (simp add: ioctl_value_def)
  qed
qed

text \<open>Every call succeeds and every \<^verbatim>\<open>send\<close> takes all it is given.\<close>

definition good_env :: "'st client_env \<Rightarrow> bool" where
  "good_env E \<longleftrightarrow> (\<forall>n. open_ok E n) \<and> (\<forall>n k. send_res E n k = Some k) \<and> (\<forall>n k. flushed E n k = k) \<and>
     (\<forall>n. \<not> stopping E n)"

lemma send_file_step:
  "good_env E \<Longrightarrow> df_read (data E) (store c) pos 1024 = ch \<Longrightarrow> ch \<noteq> [] \<Longrightarrow>
   send_file E pos c = send_file E (pos + length ch) (call (c\<lparr>buf := overlay (buf c) ch, sent := sent c @ ch\<rparr>))"
  by (subst send_file.simps) (simp add: good_env_def)

lemma send_rest_step:
  "good_env E \<Longrightarrow> df_read (data E) (store c) pos 1024 = ch \<Longrightarrow> ch \<noteq> [] \<Longrightarrow>
   send_rest E pos c = send_rest E (pos + length ch) (call (c\<lparr>buf := overlay (buf c) ch, sent := sent c @ ch\<rparr>))"
  by (subst send_rest.simps) (simp add: good_env_def)

context data_file
begin

lemma send_file_correct:
  assumes E: "good_env E" "data E = F" and inv: "file_inv (store c)" and "pos \<le> length (content (store c))"
  shows "send_file E pos c = Some (c\<lparr>buf := foldl overlay (buf c) (chunks (drop pos (content (store c)))),
      sent := sent c @ drop pos (content (store c)),
      calls := calls c + length (chunks (drop pos (content (store c))))\<rparr>)"
  using inv assms(4)
proof (induction "length (content (store c)) - pos" arbitrary: pos c rule: less_induct)
  case less
  let ?txt = "content (store c)"
  let ?ch = "take 1024 (drop pos ?txt)"
  have rd: "df_read (data E) (store c) pos 1024 = ?ch"
    using read_law [OF less.prems(1,2)] E(2) by simp
  show ?case
  proof (cases "drop pos ?txt = []")
    case True
    with rd show ?thesis by (subst send_file.simps) simp
  next
    case False
    then have ne: "?ch \<noteq> []" and lt: "pos < length ?txt" by auto
    let ?c = "call (c\<lparr>buf := overlay (buf c) ?ch, sent := sent c @ ?ch\<rparr>)"
    have step: "send_file E pos c = send_file E (pos + length ?ch) ?c"
      by (rule send_file_step [OF E(1) rd ne])
    note next_chunk = chunk_step [OF lt]
    have "send_file E (pos + length ?ch) ?c = Some (?c\<lparr>buf := foldl overlay (buf ?c) (chunks (drop 1024 (drop pos ?txt))),
      sent := sent ?c @ drop 1024 (drop pos ?txt), calls := calls ?c + length (chunks (drop 1024 (drop pos ?txt)))\<rparr>)"
      using less.hyps [of ?c "pos + length ?ch"] less.prems(1) next_chunk(1-3) by simp
    then show ?thesis using step next_chunk(4) by (simp del: drop_drop)
  qed
qed

lemma send_rest_correct:
  assumes E: "good_env E" "data E = F" and inv: "file_inv (store c)" and "pos \<le> length (content (store c))"
  shows "send_rest E pos c = Some (c\<lparr>buf := foldl overlay (buf c) (chunks (drop pos (content (store c)))),
      sent := sent c @ drop pos (content (store c)),
      calls := calls c + length (chunks (drop pos (content (store c))))\<rparr>)"
  using inv assms(4)
proof (induction "length (content (store c)) - pos" arbitrary: pos c rule: less_induct)
  case less
  let ?txt = "content (store c)"
  let ?ch = "take 1024 (drop pos ?txt)"
  have rd: "df_read (data E) (store c) pos 1024 = ?ch"
    using read_law [OF less.prems(1,2)] E(2) by simp
  show ?case
  proof (cases "drop pos ?txt = []")
    case True
    with rd show ?thesis by (subst send_rest.simps) simp
  next
    case False
    then have ne: "?ch \<noteq> []" and lt: "pos < length ?txt" by auto
    let ?c = "call (c\<lparr>buf := overlay (buf c) ?ch, sent := sent c @ ?ch\<rparr>)"
    have step: "send_rest E pos c = send_rest E (pos + length ?ch) ?c"
      by (rule send_rest_step [OF E(1) rd ne])
    note next_chunk = chunk_step [OF lt]
    have "send_rest E (pos + length ?ch) ?c = Some (?c\<lparr>buf := foldl overlay (buf ?c) (chunks (drop 1024 (drop pos ?txt))),
      sent := sent ?c @ drop 1024 (drop pos ?txt), calls := calls ?c + length (chunks (drop 1024 (drop pos ?txt)))\<rparr>)"
      using less.hyps [of ?c "pos + length ?ch"] less.prems(1) next_chunk(1-3) by simp
    then show ?thesis using step next_chunk(4) by (simp del: drop_drop)
  qed
qed

text \<open>A packet that is not a command: it is appended, the whole file is sent, and the buffer
  then decides whether the connection is closed.\<close>

lemma data_round_correct:
  assumes E: "good_env E" "data E = F" and inv: "file_inv (store c)" and "\<not> files_locked c"
    and bs: "bs \<noteq> []" "length bs \<le> 1023" "nul \<notin> set bs" "take (length ioctl_value) bs \<noteq> ioctl_value"
    and t: "txt = content (df_append F (store c) bs)"
  shows "client_round E bs c = do {
      nl \<leftarrow> strchr_newline (foldl overlay (overlay (buf c) (bs @ [nul])) (chunks txt));
      Some (if nl then Stop else Continue,
        c\<lparr>store := df_append F (store c) bs, sent := sent c @ txt,
          buf := foldl overlay (overlay (buf c) (bs @ [nul])) (chunks txt),
          calls := calls c + 2 + length (chunks txt)\<rparr>)
    }"
proof -
  let ?b = "overlay (buf c) (bs @ [nul])"
  let ?c1 = "c\<lparr>buf := ?b\<rparr>"
  let ?c2 = "c\<lparr>buf := ?b, store := df_append F (store c) bs, calls := Suc (calls c)\<rparr>"
  have "c_string ?b = Some bs" using c_string_packet [OF bs(3)] by (simp add: overlay_def)
  then have app: "append_packet E ?c1 = Some ?c2"
    using E bs(1) assms(4) by (simp add: append_packet_def put_file_def files_lock_def files_unlock_def good_env_def)
  have inv2: "file_inv (df_append F (store c) bs)" using append_inv [OF inv] bs(2) by simp
  let ?c3 = "call (?c2\<lparr>files_locked := True\<rparr>)"
  have "send_file E 0 ?c3 = Some (?c3\<lparr>buf := foldl overlay ?b (chunks txt), sent := sent c @ txt,
      calls := calls ?c3 + length (chunks txt)\<rparr>)"
    using send_file_correct [OF E, of ?c3 0] inv2 t by simp
  then have rep: "reply_file E ?c2 = Some (c\<lparr>store := df_append F (store c) bs, sent := sent c @ txt,
          buf := foldl overlay ?b (chunks txt), calls := calls c + 2 + length (chunks txt)\<rparr>)"
    using E(1) assms(4) by (simp add: reply_file_def files_lock_def files_unlock_def good_env_def)
  show ?thesis
    using app rep not_command [OF bs(4), of "buf c"] by (simp add: client_round_def data_round_def)
qed

lemma data_round_closes:
  assumes "good_env E" "data E = F" and "file_inv (store c)" and "\<not> files_locked c"
    and "bs \<noteq> []" "length bs \<le> 1023" "nul \<notin> set bs" "take (length ioctl_value) bs \<noteq> ioctl_value"
    and t: "txt = content (df_append F (store c) bs)" "txt \<noteq> []" "last txt = newline" "nul \<notin> set txt"
  shows "\<exists>c'. client_round E bs c = Some (Stop, c') \<and> store c' = df_append F (store c) bs \<and>
    sent c' = sent c @ txt \<and> \<not> files_locked c'"
proof -
  obtain pre z post where z: "txt = pre @ z" "z \<noteq> []"
    "foldl overlay (overlay (buf c) (bs @ [nul])) (chunks txt) = z @ post"
    using overlay_chunks [OF t(2)] by blast
  have "newline \<in> set z" using z t(3) by (metis last_appendR last_in_set)
  then have "strchr_newline (z @ post) = Some True"
    using z t(4) by (intro strchr_newline_found) auto
  then show ?thesis
    using data_round_correct [OF assms(1-9)] z(3) assms(4) by simp
qed

lemma seek_round_correct:
  assumes E: "good_env E" "data E = F" and inv: "file_inv (store c)"
    and rest: "nul \<notin> set rest" "scan_seekto rest = Some (Some (cmd, off))"
    and pos: "df_seek F (store c) cmd off = Some pos"
  shows "\<exists>c'. client_round E (ioctl_value @ rest) c = Some (Continue, c') \<and> store c' = store c \<and>
    sent c' = sent c @ drop pos (content (store c)) \<and> files_locked c' = files_locked c"
proof -
  let ?b = "overlay (buf c) ((ioctl_value @ rest) @ [nul])"
  have b: "take (length ioctl_value) ?b = ioctl_value" "drop (length ioctl_value) ?b = rest @ nul # drop (length ((ioctl_value @ rest) @ [nul])) (buf c)"
    by (simp_all add: overlay_def)
  have "c_string (drop (length ioctl_value) ?b) = Some rest"
    unfolding b(2) by (rule c_string_packet [OF rest(1)])
  moreover have "pos \<le> length (content (store c))" using seek_law [OF inv pos] .
  ultimately show ?thesis
    using send_rest_correct [OF E, of "call (c\<lparr>buf := ?b\<rparr>)" pos] inv E rest(2) pos b(1)
    by (simp add: client_round_def seek_round_def good_env_def)
qed

end

section \<open>Parsing a seek command\<close>

text \<open>The decimal representation of a number.\<close>

fun dec :: "nat \<Rightarrow> byte list" where
  "dec n = (if n < 10 then [char_of (48 + n)] else dec (n div 10) @ [char_of (48 + n mod 10)])"

declare dec.simps [simp del]

lemma dec_digits: "c \<in> set (dec n) \<Longrightarrow> isdigit c"
proof (induction n rule: dec.induct)
  case (1 n)
  then show ?case
    by (cases "n < 10") (auto simp: dec.simps [of n] isdigit_def)
qed

lemma dec_ne: "dec n \<noteq> []"
  by (subst dec.simps) simp

lemma digits_value_dec: "digits_value (dec n) = n"
proof (induction n rule: dec.induct)
  case (1 n)
  show ?case
  proof (cases "n < 10")
    case True
    then show ?thesis by (simp add: dec.simps [of n] digits_value_def)
  next
    case False
    then have "digits_value (dec (n div 10)) = n div 10" by (rule 1)
    with False show ?thesis by (simp add: dec.simps [of n] digits_value_def)
  qed
qed

lemma scan_u_dec:
  assumes "n < 2 ^ 32" and "rest = [] \<or> \<not> isdigit (hd rest)"
  shows "scan_u (dec n @ rest) = Some (Some (of_nat n, rest))"
proof -
  obtain d ds where d: "dec n = d # ds" using dec_ne [of n] by (cases "dec n") auto
  have "isdigit d" using dec_digits [of d n] d by simp
  then have nd: "\<not> isspace d" "d \<noteq> CHR ''-''" "d \<noteq> CHR ''+''"
    by (auto simp: isspace_def isdigit_def)
  have tw: "takeWhile isdigit (dec n @ rest) = dec n"
    using assms(2) dec_digits [of _ n] by (cases rest) (auto simp: takeWhile_append)
  have "dropWhile isspace (dec n @ rest) = dec n @ rest" using d nd by simp
  then show ?thesis
    using assms(1) tw d nd digits_value_dec [of n] by (simp add: scan_u_def Let_def del: takeWhile.simps)
qed

section \<open>What ends with a newline\<close>

lemma split_lines_ends:
  "bs \<noteq> [] \<Longrightarrow> last bs = newline \<Longrightarrow> fst (split_lines bs) \<noteq> [] \<and> snd (split_lines bs) = []"
proof (induction bs)
  case (Cons c cs)
  then show ?case by (cases "cs = []") (auto split: prod.splits list.splits)
qed simp

lemma last_log_text:
  assumes "ls \<noteq> []" and "\<forall>l \<in> set ls. is_line l"
  shows "concat (last_n 10 (cs @ ls)) \<noteq> [] \<and> last (concat (last_n 10 (cs @ ls))) = newline"
proof -
  have "is_line (last ls)" using assms by simp
  then have l: "last ls \<noteq> []" "last (last ls) = newline" by (simp_all add: is_line_def)
  have lt: "length (cs @ ls) - 10 < length (cs @ ls)" using assms(1) by (cases ls) simp_all
  then have "last_n 10 (cs @ ls) \<noteq> []" unfolding last_n_def by (simp only: drop_eq_Nil not_le not_False_eq_True)
  moreover have "last (last_n 10 (cs @ ls)) = last ls"
    using assms(1) last_drop [OF lt] unfolding last_n_def by (simp only: last_appendR not_False_eq_True)
  ultimately obtain pre where "last_n 10 (cs @ ls) = pre @ [last ls]"
    by (metis append_butlast_last_id)
  with l show ?thesis by simp
qed

section \<open>Properties\<close>

definition demo_env :: "'st data_ops \<Rightarrow> 'st client_env" where
  "demo_env F = \<lparr>data = F, open_ok = (\<lambda>_. True), send_res = (\<lambda>_ k. Some k), flushed = (\<lambda>_ k. k), stopping = (\<lambda>_. False)\<rparr>"

definition demo_client :: "'st \<Rightarrow> byte list \<Rightarrow> 'st client" where
  "demo_client st junk = \<lparr>store = st, sent = [], buf = junk, files_locked = False, connected = True, calls = 0\<rparr>"

lemma demo_env_simps [simp]: "good_env (demo_env F)" "data (demo_env F) = F"
  by (simp_all add: good_env_def demo_env_def)

lemma demo_client_simps [simp]:
  "store (demo_client st junk) = st" "sent (demo_client st junk) = []" "\<not> files_locked (demo_client st junk)"
  by (simp_all add: demo_client_def)

text \<open>
  With a regular file, a client that sends a complete line gets back the whole file, its
  line appended, whatever the size of the file and whatever the buffer held before; the
  line is in the file after it, the mutex is free and the connection is then closed. (No
  NUL bytes, all calls succeed and every \<^verbatim>\<open>send\<close> takes all it is given.)
\<close>

theorem client_line_answered:
  assumes "good_env E" "data E = regular_file" and "\<not> files_locked c"
    and "bs \<noteq> []" "length bs \<le> 1023" "take (length ioctl_value) bs \<noteq> ioctl_value"
    and "last bs = newline" "nul \<notin> set (store c @ bs)"
  shows "\<exists>c'. client_round E bs c = Some (Stop, c') \<and> store c' = store c @ bs \<and>
    sent c' = sent c @ store c @ bs \<and> \<not> files_locked c'"
  using regular.data_round_closes [of E c bs "store c @ bs"] assms by (simp add: regular_file_def)

theorem client_line_answered_witness:
  "\<exists>c'. client_round (demo_env regular_file) [CHR ''b'', newline] (demo_client [CHR ''a'', newline] (replicate 1024 CHR ''x'')) =
      Some (Stop, c') \<and> store c' = [CHR ''a'', newline, CHR ''b'', newline] \<and> sent c' = [CHR ''a'', newline, CHR ''b'', newline]"
  using client_line_answered [of "demo_env regular_file" "demo_client [CHR ''a'', newline] (replicate 1024 CHR ''x'')" "[CHR ''b'', newline]"]
  by (auto simp: ioctl_value_def)

text \<open>
  C8: With the driver's device, a client that sends a packet ending in a newline gets back
  the newest ten commands of the device, the lines of its packet included, and the device
  holds them afterwards.
\<close>

theorem client_line_answered_by_device:
  assumes "serving_kernel K" and "good_env E" "data E = device_file K" and "\<not> files_locked c"
    and "dev_inv (store c)" "\<not> lock (aesd_device (store c))"
    and "bs \<noteq> []" "length bs \<le> 1023" "take (length ioctl_value) bs \<noteq> ioctl_value" "last bs = newline"
    and "nul \<notin> set bs" "nul \<notin> set (dev_text (store c))" "nul \<notin> set (dev_partial (store c))"
    and "length (dev_partial (store c)) + 1023 \<le> KMALLOC_BOUND"
    and "cmds = last_n 10 (dev_cmds (store c) @ fst (split_lines (dev_partial (store c) @ bs)))"
  shows "\<exists>c'. client_round E bs c = Some (Stop, c') \<and> sent c' = sent c @ concat cmds \<and>
    dev_cmds (store c') = cmds \<and> dev_partial (store c') = [] \<and> \<not> files_locked c'"
proof -
  let ?s = "store c" and ?n = "of_nat (length bs) :: u64"
  let ?ls = "fst (split_lines (dev_partial ?s @ bs))"
  have K: "kernel_allocator K" "serves K" "\<And>t. \<not> signalled K t"
    using assms(1) by (auto simp: serving_kernel_def serving_kernel_axioms_def)
  have n: "unat ?n = length bs" using assms(8) by (intro unat_of_nat_u64) simp
  have "0 < ?n" using assms(7) n by (metis length_0_conv unat_0 word_gt_0)
  with aesd_write_served [OF K(1) assms(5,6) _ _ K(2,3), of open_file ?n bs 0] n assms(8,14) obtain s' where
    s': "aesd_write K open_file bs ?n 0 ?s = Some (Inr ?n, 0, s')" "dev_cmds s' = cmds"
    "dev_partial s' = snd (split_lines (dev_partial ?s @ bs))"
    by (auto simp: assms(15))
  have app: "df_append (device_file K) ?s bs = s'" using s'(1) by (simp add: device_file_def)
  have ends: "?ls \<noteq> []" "snd (split_lines (dev_partial ?s @ bs)) = []"
    using split_lines_ends [of "dev_partial ?s @ bs"] assms(7,10) by auto
  have dtext: "dev_text s' = concat cmds" using s'(2) by (simp add: dev_text_def)
  have last: "concat cmds \<noteq> [] \<and> last (concat cmds) = newline"
    unfolding assms(15) by (rule last_log_text) (use ends(1) split_lines_are_lines in auto)
  have "set (concat cmds) \<subseteq> set (dev_text ?s) \<union> set (dev_partial ?s) \<union> set bs"
  proof -
    have "set (concat ?ls) \<subseteq> set (dev_partial ?s @ bs)"
      by (metis set_append split_lines_concat sup_ge1)
    then show ?thesis unfolding assms(15) dev_text_def by (fastforce dest: set_last_n)
  qed
  then have "nul \<notin> set (concat cmds)" using assms(11-13) by blast
  note closes = data_file.data_round_closes [OF serving_kernel.device_data_file [OF assms(1)] assms(2,3) _ assms(4,7,8,11,9)]
  obtain c' where "client_round E bs c = Some (Stop, c')" "store c' = s'" "sent c' = sent c @ concat cmds"
    "\<not> files_locked c'"
    using closes [of "concat cmds"] app dtext last \<open>nul \<notin> set (concat cmds)\<close> assms(5,6)
    by (auto simp: dev_ready_def)
  with s'(2,3) ends(2) show ?thesis by auto
qed

theorem client_line_answered_by_device_witness:
  "\<exists>c'. client_round (demo_env (device_file quiet_kernel)) [CHR ''b'', newline]
      (demo_client boot_state (replicate 1024 CHR ''x'')) = Some (Stop, c') \<and>
    sent c' = [CHR ''b'', newline] \<and> dev_cmds (store c') = [[CHR ''b'', newline]]"
proof -
  have "\<exists>c'. client_round (demo_env (device_file quiet_kernel)) [CHR ''b'', newline]
      (demo_client boot_state (replicate 1024 CHR ''x'')) = Some (Stop, c') \<and>
    sent c' = sent (demo_client boot_state (replicate 1024 CHR ''x'')) @ concat [[CHR ''b'', newline]] \<and>
    dev_cmds (store c') = [[CHR ''b'', newline]] \<and> dev_partial (store c') = [] \<and> \<not> files_locked c'"
    by (rule client_line_answered_by_device [OF serving.serving_kernel_axioms])
      (simp_all add: ioctl_value_def dev_text_def)
  then show ?thesis by auto
qed

text \<open>
  C9: With the driver's device, the packet \<^verbatim>\<open>AESDCHAR_IOCSEEKTO:X,Y\<close> with the decimal numbers
  of an existing command \<open>X\<close> and a byte \<open>Y\<close> in it is answered with the rest of that
  command from byte \<open>Y\<close> on and all the later commands; nothing is written to the device
  and the connection stays open.
\<close>

theorem client_seek_answered:
  assumes "serving_kernel K" and "good_env E" "data E = device_file K"
    and "dev_inv (store c)" "\<not> lock (aesd_device (store c))"
    and "unat (x :: u32) < length (dev_cmds (store c))" "unat (y :: u32) < length (dev_cmds (store c) ! unat x)"
  shows "\<exists>c'. client_round E (ioctl_value @ dec (unat x) @ '','' @ dec (unat y) @ [newline]) c = Some (Continue, c') \<and>
    store c' = store c \<and>
    sent c' = sent c @ drop (unat y) (dev_cmds (store c) ! unat x) @ concat (drop (Suc (unat x)) (dev_cmds (store c)))"
proof -
  let ?s = "store c" and ?rest = "dec (unat x) @ '','' @ dec (unat y) @ [newline]"
  let ?p = "length (concat (take (unat x) (dev_cmds ?s))) + unat y"
  have quiet: "\<And>t. \<not> signalled K t"
    using assms(1) by (simp add: serving_kernel_def serving_kernel_axioms_def)
  have no_nul: "nul \<notin> set (dec n)" for n using dec_digits [of nul n] by (auto simp: isdigit_def)
  then have "nul \<notin> set ?rest" by simp
  moreover have "scan_seekto ?rest = Some (Some (x, y))"
    using scan_u_dec [of "unat x" "'','' @ dec (unat y) @ [newline]"] scan_u_dec [of "unat y" "[newline]"]
      unsigned_less [of x, where 'a = nat] unsigned_less [of y, where 'a = nat]
    by (simp add: scan_seekto_def isdigit_def)
  moreover have "df_seek (device_file K) ?s x y = Some ?p"
    using device_seek [OF assms(4,5) quiet, of x y] assms(6,7) by simp
  moreover have "drop ?p (dev_text ?s) = drop (unat y) (dev_cmds ?s ! unat x) @ concat (drop (Suc (unat x)) (dev_cmds ?s))"
  proof -
    have "dev_text ?s = concat (take (unat x) (dev_cmds ?s)) @ dev_cmds ?s ! unat x @ concat (drop (Suc (unat x)) (dev_cmds ?s))"
      using id_take_nth_drop [OF assms(6)] unfolding dev_text_def by (metis concat.simps(2) concat_append)
    then show ?thesis using assms(7) by simp
  qed
  ultimately show ?thesis
    using data_file.seek_round_correct [OF serving_kernel.device_data_file [OF assms(1)] assms(2,3), of c ?rest x y ?p]
      assms(4,5) by (auto simp: dev_ready_def)
qed

theorem client_seek_answered_witness:
  "\<exists>s c'. client_round (demo_env (device_file quiet_kernel))
      (ioctl_value @ dec 0 @ '','' @ dec 1 @ [newline]) (demo_client s (replicate 1024 CHR ''x'')) = Some (Continue, c') \<and>
    sent c' = [CHR ''b'', newline]"
proof -
  obtain s where s: "dev_inv s" "\<not> lock (aesd_device s)" "dev_cmds s = [[CHR ''a'', CHR ''b'', newline]]"
  proof -
    have "\<exists>s'. aesd_write quiet_kernel open_file [CHR ''a'', CHR ''b'', newline] 3 0 boot_state = Some (Inr 3, 0, s') \<and>
        \<not> lock (aesd_device s') \<and> dev_inv s' \<and> dev_cmds s' = [[CHR ''a'', CHR ''b'', newline]] \<and> dev_partial s' = []"
      using aesd_write_served [of quiet_kernel boot_state open_file 3 "[CHR ''a'', CHR ''b'', newline]" 0] by simp
    then show ?thesis using that by blast
  qed
  let ?c = "demo_client s (replicate 1024 CHR ''x'')"
  have "\<exists>c'. client_round (demo_env (device_file quiet_kernel))
      (ioctl_value @ dec (unat (0 :: u32)) @ '','' @ dec (unat (1 :: u32)) @ [newline]) ?c = Some (Continue, c') \<and>
    store c' = store ?c \<and> sent c' = sent ?c @ drop (unat (1 :: u32)) (dev_cmds (store ?c) ! unat (0 :: u32)) @
      concat (drop (Suc (unat (0 :: u32))) (dev_cmds (store ?c)))"
    by (rule client_seek_answered [OF serving.serving_kernel_axioms]) (simp_all add: s)
  then obtain c' where "client_round (demo_env (device_file quiet_kernel))
      (ioctl_value @ dec 0 @ '','' @ dec 1 @ [newline]) ?c = Some (Continue, c')" "sent c' = [CHR ''b'', newline]"
    by (elim exE conjE) (simp add: s)
  then show ?thesis by (intro exI conjI)
qed

text \<open>
  C32: Scanning the decimal representations of two 32-bit numbers with a comma between them
  gives the numbers back, whatever non-digit follows.
\<close>

theorem scan_seekto_roundtrip:
  assumes "rest = [] \<or> \<not> isdigit (hd rest)"
  shows "scan_seekto (dec (unat x) @ '','' @ dec (unat y) @ rest) = Some (Some (x, y))"
  using scan_u_dec [of "unat x" "'','' @ dec (unat y) @ rest"] scan_u_dec [of "unat y" rest] assms
    unsigned_less [of x, where 'a = nat] unsigned_less [of y, where 'a = nat]
  by (simp add: scan_seekto_def isdigit_def)

theorem scan_seekto_roundtrip_witness:
  "scan_seekto (dec (unat (3 :: u32)) @ '','' @ dec (unat (10 :: u32)) @ '' x'') = Some (Some (3, 10))"
  by (rule scan_seekto_roundtrip) (simp add: isdigit_def)

text \<open>
  The connection is closed as soon as the file holds a newline, not when the client's
  packet does: after an earlier line of another client, a packet without a newline is
  answered at once and the connection is closed.
\<close>

theorem client_closed_mid_packet:
  "\<exists>c'. client_round (demo_env regular_file) ''b'' (demo_client [CHR ''a'', newline] (replicate 1024 CHR ''x'')) =
      Some (Stop, c') \<and> sent c' = [CHR ''a'', newline, CHR ''b'']"
proof -
  have "chunks [CHR ''a'', newline, CHR ''b''] = [[CHR ''a'', newline, CHR ''b'']]"
    by (subst chunks.simps) simp
  then show ?thesis
    using regular.data_round_correct [of "demo_env regular_file" "demo_client [CHR ''a'', newline] (replicate 1024 CHR ''x'')"
        "''b''" "[CHR ''a'', newline, CHR ''b'']"]
    by (simp add: regular_file_def ioctl_value_def overlay_def strchr_newline_def)
qed

text \<open>
  The search for the newline can run past the end of the buffer: when the file holds no
  newline and is longer than the packet, the file's bytes overwrite the terminating NUL,
  and if what the stack held before has neither a NUL nor a newline, \<^verbatim>\<open>strchr\<close> is undefined.
\<close>

theorem client_reads_past_buffer:
  "client_round (demo_env regular_file) ''cd'' (demo_client ''ab'' (replicate 1024 CHR ''x'')) = None"
proof -
  have ch: "chunks ''abcd'' = [''abcd'']"
    by (subst chunks.simps) simp
  have "overlay (overlay (replicate 1024 CHR ''x'') (''cd'' @ [nul])) ''abcd'' = ''abcd'' @ replicate 1020 CHR ''x''"
    by (simp add: overlay_def)
  moreover have "strchr_newline (''abcd'' @ replicate 1020 CHR ''x'') = None"
    by (simp add: strchr_newline_def dropWhile_replicate)
  ultimately show ?thesis
    using ch regular.data_round_correct [of "demo_env regular_file" "demo_client ''ab'' (replicate 1024 CHR ''x'')" "''cd''" "''abcd''"]
    by (simp add: regular_file_def ioctl_value_def demo_client_def)
qed

text \<open>
  An error of \<^verbatim>\<open>send\<close> while the file is being sent closes the file twice, which is
  undefined: the client thread has no defined outcome.
\<close>

theorem send_error_closes_twice:
  assumes "data E = regular_file" and "store c \<noteq> []"
    and "send_res E (calls c) (length (take 1024 (store c))) = None"
  shows "send_file E 0 c = None"
  using assms by (subst send_file.simps) (simp add: regular_file_def)

theorem send_error_closes_twice_witness:
  "send_file ((demo_env regular_file)\<lparr>send_res := \<lambda>_ _. None\<rparr>) 0 (demo_client ''abc'' (replicate 1024 CHR ''x'')) = None"
  by (rule send_error_closes_twice) (simp_all add: demo_env_def)

end
