(* ===== verification/Socket_Threads.thy ===== *)
theory Socket_Threads
  imports Socket_Client_Correct
begin

text \<open>
  The threads of the socket server together: any number of client threads and the timestamp
  thread, which run the code of \<open>Socket_Client\<close> in any interleaving, on any file that keeps the
  interface \<open>data_file\<close>. Taking \<^verbatim>\<open>mutex_for_files\<close>, the append, each chunk of a reply and giving the
  mutex back are steps of their own. The answer to an \<^verbatim>\<open>AESDCHAR_IOCSEEKTO\<close> command takes no mutex:
  the ioctl and each chunk that is read are steps between which the others can append.
\<close>

section \<open>The critical sections in pieces\<close>

text \<open>What \<open>append_packet\<close> and \<open>timestamp_round\<close> do between lock and unlock, with the bytes written,
  and one round of \<open>send_file\<close>: the text read from the file, and the client after it was sent.\<close>

definition append_body :: "'st client_env \<Rightarrow> 'st client \<Rightarrow> (byte list \<times> 'st client) option" where
  "append_body E c =
     (if open_ok E (calls c) then do {
        packet \<leftarrow> c_string (buf c);
        let bs = take (flushed E (calls c) (length packet)) packet;
        Some (bs, call (c\<lparr>store := put_file (data E) (store c) bs\<rparr>))
      }
      else Some ([], call c))"

definition stamp_body :: "'st client_env \<Rightarrow> byte list \<Rightarrow> 'st client \<Rightarrow> byte list \<times> 'st client" where
  "stamp_body E stamp c =
     (if open_ok E (calls c)
      then let bs = take (flushed E (calls c) (length stamp)) stamp
           in (bs, call (c\<lparr>store := put_file (data E) (store c) bs\<rparr>))
      else ([], call c))"

definition reply_chunk :: "'st client_env \<Rightarrow> nat \<Rightarrow> 'st client \<Rightarrow> (byte list \<times> 'st client) option" where
  "reply_chunk E pos c =
     (let ch = df_read (data E) (store c) pos 1024
      in if ch = [] then Some ([], c)
         else do {
           m \<leftarrow> send_res E (calls c) (length ch);
           Some (ch, call (c\<lparr>buf := overlay (buf c) ch, sent := sent c @ take m ch\<rparr>))
         })"

text \<open>One round of \<open>send_rest\<close>: the position of the next one, or \<open>None\<close> when the loop ends.\<close>

definition rest_chunk :: "'st client_env \<Rightarrow> nat \<Rightarrow> 'st client \<Rightarrow> nat option \<times> 'st client" where
  "rest_chunk E pos c =
     (let ch = df_read (data E) (store c) pos 1024
      in if ch = [] then (None, c)
         else case send_res E (calls c) (length ch) of
           None \<Rightarrow> (None, call (c\<lparr>buf := overlay (buf c) ch\<rparr>))
         | Some m \<Rightarrow> (Some (pos + length ch), call (c\<lparr>buf := overlay (buf c) ch, sent := sent c @ take m ch\<rparr>)))"

lemma append_packet_pieces:
  "append_packet E c = do { c1 \<leftarrow> files_lock c; (bs, c2) \<leftarrow> append_body E c1; files_unlock c2 }"
  by (cases "files_lock c") (simp_all add: append_packet_def append_body_def Let_def bind_eq_None_conv split: Option.bind_split)

lemma timestamp_round_pieces:
  "timestamp_round E stamp c = do { c1 \<leftarrow> files_lock c; files_unlock (snd (stamp_body E stamp c1)) }"
  by (cases "files_lock c") (simp_all add: timestamp_round_def stamp_body_def Let_def)

lemma send_file_pieces:
  "send_file E pos c = do {
     (ch, c1) \<leftarrow> reply_chunk E pos c;
     if ch = [] then Some c1 else send_file E (pos + length ch) c1
   }"
  by (subst send_file.simps) (auto simp: reply_chunk_def Let_def split: option.splits)

lemma send_rest_pieces:
  "send_rest E pos c =
     (case rest_chunk E pos c of (None, c1) \<Rightarrow> Some c1 | (Some pos1, c1) \<Rightarrow> send_rest E pos1 c1)"
  by (subst send_rest.simps) (simp add: rest_chunk_def Let_def split: option.split)

lemma reply_file_pieces:
  "reply_file E c = do {
     c1 \<leftarrow> files_lock c;
     c2 \<leftarrow> (if open_ok E (calls c1) then send_file E 0 (call c1) else Some (call c1));
     files_unlock c2
   }"
  by (simp add: reply_file_def)

section \<open>All threads\<close>

datatype thread = Client nat | Stamper

text \<open>A client before the named action; \<open>Seeking pos\<close> is the loop after the ioctl.\<close>

datatype client_pc =
    Receiving | Before_Append | Appending | Appended | Before_Reply | Replying nat | Replied
  | Before_Check | Before_Seek u32 u32 | Seeking nat | Finished

datatype stamper_pc = Sleeping | Stamping | Stamped

text \<open>
  A seek as it was asked: how many appends there had been at the ioctl, and its arguments; and its
  answer: the client, how many appends there were at the end, and the bytes sent.
\<close>

record seek =
  appends_before :: nat
  seek_cmd :: u32
  seek_off :: u32

record seek_answer =
  asked_by :: nat
  asked :: seek
  appends_after :: nat
  answer :: "byte list"

text \<open>
  \<open>shared\<close> is the file and \<open>mutex_holder\<close> the thread that holds \<^verbatim>\<open>mutex_for_files\<close>. \<open>local i\<close> is client
  \<open>i\<close> with its buffer; its \<open>store\<close> is not used. The others describe the run: \<open>received i\<close> are the
  packets of client \<open>i\<close> so far that are not commands, \<open>history\<close> what has been appended by whom, \<open>mark i\<close>
  what client \<open>i\<close> had been sent before its current reply, \<open>seek_of i\<close> its current seek, \<open>replies\<close> the
  finished replies with the packet they answer, and \<open>seek_answers\<close> the finished answers of seeks.
\<close>

record 'st server_state =
  shared :: 'st
  mutex_holder :: "thread option"
  client_at :: "nat \<Rightarrow> client_pc"
  stamper_at :: stamper_pc
  local :: "nat \<Rightarrow> 'st client"
  stamper :: "'st client"
  received :: "nat \<Rightarrow> byte list list"
  mark :: "nat \<Rightarrow> byte list"
  seek_of :: "nat \<Rightarrow> seek"
  history :: "(thread \<times> byte list) list"
  replies :: "(nat \<times> byte list \<times> byte list) list"
  seek_answers :: "seek_answer list"

abbreviation client_goes :: "nat \<Rightarrow> client_pc \<Rightarrow> 'st server_state \<Rightarrow> 'st server_state" where
  "client_goes i p s \<equiv> s\<lparr>client_at := (client_at s)(i := p)\<rparr>"

abbreviation set_local :: "nat \<Rightarrow> 'st client \<Rightarrow> 'st server_state \<Rightarrow> 'st server_state" where
  "set_local i c s \<equiv> s\<lparr>local := (local s)(i := c)\<rparr>"

text \<open>What was sent since a mark.\<close>

definition sent_since :: "byte list \<Rightarrow> byte list \<Rightarrow> byte list" where
  "sent_since old new = drop (length old) new"

definition seek_result :: "nat \<Rightarrow> 'st server_state \<Rightarrow> seek_answer" where
  "seek_result i s = \<lparr>asked_by = i, asked = seek_of s i, appends_after = length (history s),
     answer = sent_since (mark s i) (sent (local s i))\<rparr>"

inductive server_step ::
  "(nat \<Rightarrow> 'st client_env) \<Rightarrow> 'st client_env \<Rightarrow> 'st server_state \<Rightarrow> 'st server_state \<Rightarrow> bool"
  for E G where
  receive: "client_at s i = Receiving \<Longrightarrow> \<not> stopping (E i) (calls (local s i)) \<Longrightarrow>
    bs \<noteq> [] \<Longrightarrow> length bs \<le> 1023 \<Longrightarrow> c = (local s i)\<lparr>buf := overlay (buf (local s i)) (bs @ [nul])\<rparr> \<Longrightarrow>
    take (length ioctl_value) (buf c) \<noteq> ioctl_value \<Longrightarrow>
    server_step E G s (client_goes i Before_Append (set_local i c (s\<lparr>received := (received s)(i := received s i @ [takeWhile (\<lambda>x. x \<noteq> nul) bs])\<rparr>)))"
| receive_command: "client_at s i = Receiving \<Longrightarrow> \<not> stopping (E i) (calls (local s i)) \<Longrightarrow>
    bs \<noteq> [] \<Longrightarrow> length bs \<le> 1023 \<Longrightarrow> c = (local s i)\<lparr>buf := overlay (buf (local s i)) (bs @ [nul])\<rparr> \<Longrightarrow>
    take (length ioctl_value) (buf c) = ioctl_value \<Longrightarrow>
    c_string (drop (length ioctl_value) (buf c)) = Some str \<Longrightarrow> scan_seekto str = Some r \<Longrightarrow>
    server_step E G s (client_goes i (case r of None \<Rightarrow> Finished | Some (cmd, off) \<Rightarrow> Before_Seek cmd off) (set_local i c s))"
| receive_end: "client_at s i = Receiving \<Longrightarrow> server_step E G s (client_goes i Finished s)"
| lock_append: "client_at s i = Before_Append \<Longrightarrow> mutex_holder s = None \<Longrightarrow>
    server_step E G s (client_goes i Appending (s\<lparr>mutex_holder := Some (Client i)\<rparr>))"
| append_bytes: "client_at s i = Appending \<Longrightarrow> append_body (E i) ((local s i)\<lparr>store := shared s\<rparr>) = Some (bs, c) \<Longrightarrow>
    server_step E G s (client_goes i Appended (set_local i c
      (s\<lparr>shared := store c, history := history s @ [(Client i, bs)]\<rparr>)))"
| unlock_append: "client_at s i = Appended \<Longrightarrow> mutex_holder s = Some (Client i) \<Longrightarrow>
    server_step E G s (client_goes i Before_Reply (s\<lparr>mutex_holder := None\<rparr>))"
| lock_reply: "client_at s i = Before_Reply \<Longrightarrow> mutex_holder s = None \<Longrightarrow>
    server_step E G s (client_goes i (if open_ok (E i) (calls (local s i)) then Replying 0 else Replied)
      (set_local i (call (local s i)) (s\<lparr>mutex_holder := Some (Client i), mark := (mark s)(i := sent (local s i))\<rparr>)))"
| reply_next: "client_at s i = Replying pos \<Longrightarrow>
    reply_chunk (E i) pos ((local s i)\<lparr>store := shared s\<rparr>) = Some (ch, c) \<Longrightarrow> ch \<noteq> [] \<Longrightarrow>
    server_step E G s (client_goes i (Replying (pos + length ch)) (set_local i c s))"
| reply_end: "client_at s i = Replying pos \<Longrightarrow>
    reply_chunk (E i) pos ((local s i)\<lparr>store := shared s\<rparr>) = Some ([], c) \<Longrightarrow>
    server_step E G s (client_goes i Replied (set_local i c s))"
| unlock_reply: "client_at s i = Replied \<Longrightarrow> mutex_holder s = Some (Client i) \<Longrightarrow>
    server_step E G s (client_goes i Before_Check (s\<lparr>mutex_holder := None,
      replies := replies s @ [(i, last (received s i), sent_since (mark s i) (sent (local s i)))]\<rparr>))"
| check_newline: "client_at s i = Before_Check \<Longrightarrow> strchr_newline (buf (local s i)) = Some nl \<Longrightarrow>
    server_step E G s (client_goes i (if nl then Finished else Receiving) s)"
| seek_file: "client_at s i = Before_Seek cmd off \<Longrightarrow>
    p = (if open_ok (E i) (calls (local s i))
         then (case df_seek (data (E i)) (shared s) cmd off of None \<Rightarrow> Finished | Some pos \<Rightarrow> Seeking pos)
         else Finished) \<Longrightarrow>
    server_step E G s (client_goes i p (set_local i (call (local s i)) (s\<lparr>mark := (mark s)(i := sent (local s i)),
      seek_of := (seek_of s)(i := \<lparr>appends_before = length (history s), seek_cmd = cmd, seek_off = off\<rparr>)\<rparr>)))"
| seek_next: "client_at s i = Seeking pos \<Longrightarrow> rest_chunk (E i) pos ((local s i)\<lparr>store := shared s\<rparr>) = (Some pos', c) \<Longrightarrow>
    server_step E G s (client_goes i (Seeking pos') (set_local i c s))"
| seek_end: "client_at s i = Seeking pos \<Longrightarrow> rest_chunk (E i) pos ((local s i)\<lparr>store := shared s\<rparr>) = (None, c) \<Longrightarrow>
    s1 = set_local i c s \<Longrightarrow>
    server_step E G s (client_goes i Receiving (s1\<lparr>seek_answers := seek_answers s1 @ [seek_result i s1]\<rparr>))"
| lock_stamp: "stamper_at s = Sleeping \<Longrightarrow> mutex_holder s = None \<Longrightarrow>
    server_step E G s (s\<lparr>stamper_at := Stamping, mutex_holder := Some Stamper\<rparr>)"
| stamp_bytes: "stamper_at s = Stamping \<Longrightarrow> length stamp \<le> 1023 \<Longrightarrow>
    stamp_body G stamp ((stamper s)\<lparr>store := shared s\<rparr>) = (bs, c) \<Longrightarrow>
    server_step E G s (s\<lparr>stamper_at := Stamped, stamper := c, shared := store c,
      history := history s @ [(Stamper, bs)]\<rparr>)"
| unlock_stamp: "stamper_at s = Stamped \<Longrightarrow> mutex_holder s = Some Stamper \<Longrightarrow>
    server_step E G s (s\<lparr>stamper_at := Sleeping, mutex_holder := None\<rparr>)"

definition server_starts :: "'st \<Rightarrow> 'st server_state \<Rightarrow> bool" where
  "server_starts file s \<longleftrightarrow> shared s = file \<and> mutex_holder s = None \<and> (\<forall>i. client_at s i = Receiving) \<and>
     stamper_at s = Sleeping \<and>
     (\<forall>i. received s i = []) \<and> history s = [] \<and> replies s = [] \<and> seek_answers s = []"

inductive server_run ::
  "(nat \<Rightarrow> 'st client_env) \<Rightarrow> 'st client_env \<Rightarrow> 'st server_state \<Rightarrow> 'st server_state \<Rightarrow> bool"
  for E G where
  run_start: "server_run E G s s"
| run_step: "server_run E G s s1 \<Longrightarrow> server_step E G s1 s2 \<Longrightarrow> server_run E G s s2"

section \<open>The invariant\<close>

fun client_holds :: "client_pc \<Rightarrow> bool" where
  "client_holds Appending = True"
| "client_holds Appended = True"
| "client_holds (Replying pos) = True"
| "client_holds Replied = True"
| "client_holds p = False"

text \<open>The file after the appends \<open>h\<close>.\<close>

definition file_after :: "'st data_ops \<Rightarrow> 'st \<Rightarrow> (thread \<times> byte list) list \<Rightarrow> 'st" where
  "file_after F file h = foldl (put_file F) file (map snd h)"

text \<open>A reply is the file after some of the appends, the one of the packet it answers among them.\<close>

definition snapshot ::
  "(nat \<Rightarrow> byte list) \<Rightarrow> (thread \<times> byte list) list \<Rightarrow> nat \<times> byte list \<times> byte list \<Rightarrow> bool" where
  "snapshot txt h r \<longleftrightarrow> (case r of (i, p, reply) \<Rightarrow>
     \<exists>k \<le> length h. reply = txt k \<and> (Client i, p) \<in> set (take k h))"

text \<open>The answer of a seek that no append came into is the file from the position of the ioctl on.\<close>

definition seek_ok :: "(nat \<Rightarrow> byte list) \<Rightarrow> (nat \<Rightarrow> u32 \<Rightarrow> u32 \<Rightarrow> nat option) \<Rightarrow> nat \<Rightarrow> seek_answer \<Rightarrow> bool" where
  "seek_ok txt pos n r \<longleftrightarrow> (let q = asked r; k = appends_before q in
     k \<le> appends_after r \<and> appends_after r \<le> n \<and>
     (\<exists>p. pos k (seek_cmd q) (seek_off q) = Some p \<and> (appends_after r = k \<longrightarrow> answer r = drop p (txt k))))"

definition mutex_inv :: "'st server_state \<Rightarrow> bool" where
  "mutex_inv s \<longleftrightarrow> (\<forall>i. client_holds (client_at s i) \<longleftrightarrow> mutex_holder s = Some (Client i)) \<and>
     (stamper_at s \<noteq> Sleeping \<longleftrightarrow> mutex_holder s = Some Stamper)"

definition appended_by :: "thread \<Rightarrow> (thread \<times> byte list) list \<Rightarrow> byte list list" where
  "appended_by t h = map snd (filter (\<lambda>e. fst e = t) h)"

definition client_inv :: "byte list \<Rightarrow> (thread \<times> byte list) list \<Rightarrow> nat \<Rightarrow> client_pc \<Rightarrow> 'st client \<Rightarrow>
    byte list list \<Rightarrow> byte list \<Rightarrow> bool" where
  "client_inv txt h i p c rc mk \<longleftrightarrow>
     (if p \<in> {Before_Append, Appending}
      then rc \<noteq> [] \<and> c_string (buf c) = Some (last rc) \<and> length (last rc) \<le> 1023 \<and> appended_by (Client i) h = butlast rc
      else appended_by (Client i) h = rc) \<and>
     (p \<in> {Appended, Before_Reply, Replied} \<or> (\<exists>pos. p = Replying pos) \<longrightarrow> (Client i, last rc) \<in> set h) \<and>
     (\<forall>pos. p = Replying pos \<longrightarrow> pos \<le> length txt \<and> sent c = mk @ take pos txt) \<and>
     (p = Replied \<longrightarrow> sent c = mk @ txt)"

text \<open>A client in a seek; \<open>st k\<close> is the text after \<open>k\<close> appends, \<open>pos k\<close> the result of the ioctl then.\<close>

definition seek_inv ::
  "(nat \<Rightarrow> byte list) \<Rightarrow> (nat \<Rightarrow> u32 \<Rightarrow> u32 \<Rightarrow> nat option) \<Rightarrow> nat \<Rightarrow> client_pc \<Rightarrow> 'st client \<Rightarrow> seek \<Rightarrow> byte list \<Rightarrow> bool" where
  "seek_inv txt pos n p c q mk \<longleftrightarrow>
     (\<forall>at. p = Seeking at \<longrightarrow> appends_before q \<le> n \<and>
        (\<exists>p0. pos (appends_before q) (seek_cmd q) (seek_off q) = Some p0 \<and>
          (appends_before q = n \<longrightarrow> p0 \<le> at \<and> at \<le> length (txt n) \<and> sent c = mk @ drop p0 (take at (txt n)))))"

definition text_at :: "'st data_ops \<Rightarrow> ('st \<Rightarrow> byte list) \<Rightarrow> 'st \<Rightarrow> (thread \<times> byte list) list \<Rightarrow> nat \<Rightarrow> byte list" where
  "text_at F content file h k = content (file_after F file (take k h))"

definition pos_at :: "'st data_ops \<Rightarrow> 'st \<Rightarrow> (thread \<times> byte list) list \<Rightarrow> nat \<Rightarrow> u32 \<Rightarrow> u32 \<Rightarrow> nat option" where
  "pos_at F file h k = df_seek F (file_after F file (take k h))"

definition client_ok :: "'st data_ops \<Rightarrow> ('st \<Rightarrow> byte list) \<Rightarrow> 'st \<Rightarrow> (thread \<times> byte list) list \<Rightarrow> nat \<Rightarrow>
    client_pc \<Rightarrow> 'st client \<Rightarrow> byte list list \<Rightarrow> byte list \<Rightarrow> seek \<Rightarrow> bool" where
  "client_ok F content file h i p c rc mk q \<longleftrightarrow>
     client_inv (text_at F content file h (length h)) h i p c rc mk \<and>
     seek_inv (text_at F content file h) (pos_at F file h) (length h) p c q mk"

definition answers_ok :: "'st data_ops \<Rightarrow> ('st \<Rightarrow> byte list) \<Rightarrow> 'st \<Rightarrow> 'st server_state \<Rightarrow> bool" where
  "answers_ok F content file s \<longleftrightarrow>
     (\<forall>r \<in> set (replies s). snapshot (text_at F content file (history s)) (history s) r) \<and>
     (\<forall>r \<in> set (seek_answers s).
        seek_ok (text_at F content file (history s)) (pos_at F file (history s)) (length (history s)) r)"

definition server_inv ::
  "'st data_ops \<Rightarrow> ('st \<Rightarrow> bool) \<Rightarrow> ('st \<Rightarrow> byte list) \<Rightarrow> 'st \<Rightarrow> 'st server_state \<Rightarrow> bool" where
  "server_inv F ok content file s \<longleftrightarrow> shared s = file_after F file (history s) \<and> ok (shared s) \<and> mutex_inv s \<and>
     (\<forall>e \<in> set (history s). length (snd e) \<le> 1024) \<and>
     (\<forall>i. client_ok F content file (history s) i (client_at s i) (local s i) (received s i) (mark s i) (seek_of s i)) \<and>
     answers_ok F content file s"

lemma server_inv_start: "server_starts file s \<Longrightarrow> ok file \<Longrightarrow> server_inv F ok content file s"
  by (simp add: server_starts_def server_inv_def file_after_def mutex_inv_def client_ok_def client_inv_def
      seek_inv_def appended_by_def answers_ok_def)

section \<open>Preservation\<close>

text \<open>Files can be opened and written, and \<^verbatim>\<open>send\<close> takes all it is given.\<close>

definition serving_env :: "'st data_ops \<Rightarrow> 'st client_env \<Rightarrow> bool" where
  "serving_env F E \<longleftrightarrow> data E = F \<and> (\<forall>n. open_ok E n) \<and> (\<forall>n k. send_res E n k = Some k) \<and>
     (\<forall>n k. flushed E n k = k)"

lemma append_body_serving:
  "serving_env F E \<Longrightarrow> c_string (buf c) = Some p \<Longrightarrow>
   append_body E c = Some (p, call (c\<lparr>store := put_file F (store c) p\<rparr>))"
  by (simp add: append_body_def serving_env_def)

lemma stamp_body_puts:
  "data G = F \<Longrightarrow> stamp_body G stamp c = (bs, c') \<Longrightarrow> store c' = put_file F (store c) bs \<and> length bs \<le> length stamp"
  by (auto simp: stamp_body_def put_file_def Let_def split: if_splits)

lemma reply_chunk_serving:
  "serving_env F E \<Longrightarrow> reply_chunk E pos c = Some (ch, c') \<Longrightarrow>
   ch = df_read F (store c) pos 1024 \<and> sent c' = sent c @ ch"
  by (auto simp: reply_chunk_def serving_env_def Let_def split: if_splits)

lemma rest_chunk_serving:
  "serving_env F E \<Longrightarrow> rest_chunk E pos c = (r, c') \<Longrightarrow> ch = df_read F (store c) pos 1024 \<Longrightarrow>
   sent c' = sent c @ ch \<and> r = (if ch = [] then None else Some (pos + length ch))"
  by (auto simp: rest_chunk_def serving_env_def Let_def split: if_splits)

lemma appended_by_append [simp]:
  "appended_by t (h @ [(t', x)]) = appended_by t h @ (if t' = t then [x] else [])"
  "appended_by t [] = []"
  by (simp_all add: appended_by_def)

lemma sent_since_append [simp]: "sent_since txt (txt @ x) = x"
  by (simp add: sent_since_def)

lemma file_after_append: "file_after F file (h @ [(t, x)]) = put_file F (file_after F file h) x"
  by (simp add: file_after_def)

text \<open>An append does not change what the file was before.\<close>

lemma at_append:
  "k \<le> length h \<Longrightarrow> text_at F content file (h @ x) k = text_at F content file h k"
  "k \<le> length h \<Longrightarrow> pos_at F file (h @ x) k = pos_at F file h k"
  by (simp_all add: text_at_def pos_at_def)

lemma answers_append:
  assumes "\<And>k. k \<le> length h \<Longrightarrow> txt' k = txt k" and "snapshot txt h r"
  shows "snapshot txt' (h @ x) r"
proof -
  obtain i p reply where r: "r = (i, p, reply)" by (cases r)
  with assms obtain k where "k \<le> length h" "reply = txt' k" "(Client i, p) \<in> set (take k h)"
    by (auto simp: snapshot_def)
  then show ?thesis by (auto simp: snapshot_def r intro!: exI [of _ k])
qed

lemma seeks_append:
  "(\<And>k. k \<le> n \<Longrightarrow> txt' k = txt k \<and> pos' k = pos k) \<Longrightarrow> n \<le> n' \<Longrightarrow> seek_ok txt pos n r \<Longrightarrow> seek_ok txt' pos' n' r"
  by (auto simp: seek_ok_def Let_def)

text \<open>A client that does not hold the mutex does not notice an append of another thread.\<close>

lemma client_ok_append:
  assumes "client_ok F content file h i p c rc mk q" and "\<not> client_holds p" and "t \<noteq> Client i"
  shows "client_ok F content file (h @ [(t, x)]) i p c rc mk q"
proof -
  have "client_inv txt' (h @ [(t, x)]) i p c rc mk" for txt'
    using assms by (cases p) (auto simp: client_ok_def client_inv_def)
  moreover have "seek_inv (text_at F content file (h @ [(t, x)])) (pos_at F file (h @ [(t, x)])) (length (h @ [(t, x)])) p c q mk"
    using assms(1) by (auto simp: client_ok_def seek_inv_def at_append)
  ultimately show ?thesis by (simp add: client_ok_def)
qed

text \<open>A step of client \<open>i\<close> that leaves the file and the history changes the invariant of \<open>i\<close> only.\<close>

lemma server_inv_local:
  assumes "server_inv F ok content file s" and "mutex_inv s'"
    and "shared s' = shared s" "history s' = history s"
    and "client_ok F content file (history s) i (client_at s' i) (local s' i) (received s' i) (mark s' i) (seek_of s' i)"
    and "\<And>j. j \<noteq> i \<Longrightarrow> client_at s' j = client_at s j \<and> local s' j = local s j \<and> received s' j = received s j \<and>
      mark s' j = mark s j \<and> seek_of s' j = seek_of s j"
    and "answers_ok F content file s'"
  shows "server_inv F ok content file s'"
proof -
  have "client_ok F content file (history s') j (client_at s' j) (local s' j) (received s' j) (mark s' j) (seek_of s' j)" for j
    using assms(1,4-6) by (cases "j = i") (auto simp: server_inv_def)
  moreover have "shared s' = file_after F file (history s')" "ok (shared s')" "\<forall>e \<in> set (history s'). length (snd e) \<le> 1024"
    using assms(1) unfolding assms(3,4) server_inv_def by blast+
  ultimately show ?thesis using assms(2,7) unfolding server_inv_def by blast
qed

lemma answers_ok_same:
  "answers_ok F content file s \<Longrightarrow> history s' = history s \<Longrightarrow> replies s' = replies s \<Longrightarrow> seek_answers s' = seek_answers s \<Longrightarrow>
   answers_ok F content file s'"
  by (simp add: answers_ok_def)

text \<open>A step that appends \<open>x\<close> under the mutex, of client \<open>i\<close> or of the timestamp thread.\<close>

lemma server_inv_append:
  assumes "server_inv F ok content file s" and "mutex_inv s'"
    and "shared s' = put_file F (shared s) x" "ok (shared s')" "history s' = history s @ [(t, x)]" and len: "length x \<le> 1024"
    and "replies s' = replies s" "seek_answers s' = seek_answers s"
    and "\<And>j. t \<noteq> Client j \<Longrightarrow> \<not> client_holds (client_at s j) \<and>
      client_at s' j = client_at s j \<and> local s' j = local s j \<and> received s' j = received s j \<and>
      mark s' j = mark s j \<and> seek_of s' j = seek_of s j"
    and "\<And>i. t = Client i \<Longrightarrow>
      client_ok F content file (history s') i (client_at s' i) (local s' i) (received s' i) (mark s' i) (seek_of s' i)"
  shows "server_inv F ok content file s'"
proof -
  have "client_ok F content file (history s') j (client_at s' j) (local s' j) (received s' j) (mark s' j) (seek_of s' j)" for j
  proof (cases "t = Client j")
    case False
    with assms(1) assms(9) [OF False] show ?thesis
      unfolding assms(5) by (auto simp: server_inv_def intro!: client_ok_append)
  qed (rule assms(10))
  moreover have "answers_ok F content file s'"
    unfolding answers_ok_def assms(5,7,8)
  proof (intro conjI ballI)
    have old: "answers_ok F content file s" using assms(1) by (simp add: server_inv_def)
    show "snapshot (text_at F content file (history s @ [(t, x)])) (history s @ [(t, x)]) r" if "r \<in> set (replies s)" for r
      by (rule answers_append [of _ _ "text_at F content file (history s)"])
        (use old that in \<open>simp_all add: at_append answers_ok_def\<close>)
    show "seek_ok (text_at F content file (history s @ [(t, x)])) (pos_at F file (history s @ [(t, x)]))
        (length (history s @ [(t, x)])) r" if "r \<in> set (seek_answers s)" for r
      by (rule seeks_append [of "length (history s)" _ "text_at F content file (history s)" _ "pos_at F file (history s)"])
        (use old that in \<open>simp_all add: at_append answers_ok_def\<close>)
  qed
  moreover have "shared s' = file_after F file (history s')"
    using assms(1) unfolding assms(3,5) file_after_append server_inv_def by simp
  moreover have "\<forall>e \<in> set (history s'). length (snd e) \<le> 1024"
    using assms(1) len unfolding assms(5) server_inv_def by auto
  ultimately show ?thesis using assms(2,4) unfolding server_inv_def by blast
qed

lemma mutex_only:
  "mutex_inv s \<Longrightarrow> client_holds (client_at s i) \<Longrightarrow>
   (\<forall>j. j \<noteq> i \<longrightarrow> \<not> client_holds (client_at s j)) \<and> stamper_at s = Sleeping"
  by (auto simp: mutex_inv_def)

lemma mutex_inv_same:
  assumes "mutex_inv s" and "mutex_holder s' = mutex_holder s" "stamper_at s' = Sleeping \<longleftrightarrow> stamper_at s = Sleeping"
    and "\<And>j. client_holds (client_at s' j) = client_holds (client_at s j)"
  shows "mutex_inv s'"
  using assms by (simp add: mutex_inv_def)

lemma mutex_inv_lock:
  assumes "mutex_inv s" and "mutex_holder s = None" and "mutex_holder s' = Some (Client i)"
    and "client_holds (client_at s' i)" "stamper_at s' = stamper_at s"
    and "\<And>j. j \<noteq> i \<Longrightarrow> client_at s' j = client_at s j"
  shows "mutex_inv s'"
proof -
  have "client_holds (client_at s' j) \<longleftrightarrow> j = i" for j
    using assms by (cases "j = i") (auto simp: mutex_inv_def)
  with assms show ?thesis by (auto simp: mutex_inv_def)
qed

lemma mutex_inv_unlock:
  assumes "mutex_inv s" and "mutex_holder s = Some (Client i)" and "mutex_holder s' = None"
    and "\<not> client_holds (client_at s' i)" "stamper_at s' = stamper_at s"
    and "\<And>j. j \<noteq> i \<Longrightarrow> client_at s' j = client_at s j"
  shows "mutex_inv s'"
proof -
  have "\<not> client_holds (client_at s' j)" for j
    using assms by (cases "j = i") (auto simp: mutex_inv_def)
  with assms show ?thesis by (auto simp: mutex_inv_def)
qed

lemma takeWhile_nul: "takeWhile (\<lambda>x. x \<noteq> nul) (bs @ nul # rest) = takeWhile (\<lambda>x. x \<noteq> nul) bs"
  by (induction bs) simp_all

lemma c_string_received: "c_string (overlay b (bs @ [nul])) = Some (takeWhile (\<lambda>x. x \<noteq> nul) bs)"
  using takeWhile_nul [of bs] by (simp add: c_string_def overlay_def)

lemmas client_ok_defs = client_ok_def client_inv_def seek_inv_def

context data_file
begin

lemma put_file_inv: "file_inv st \<Longrightarrow> length bs \<le> 1024 \<Longrightarrow> file_inv (put_file F st bs)"
  by (simp add: put_file_def append_inv)

text \<open>The next chunk that is read, for a loop that has sent the file up to \<open>pos\<close>.\<close>

lemma read_chunk:
  assumes "file_inv st" and "pos \<le> length (content st)" and "p \<le> pos" and "ch = df_read F st pos 1024"
    and "out = drop p (take pos (content st))"
  shows "out @ ch = drop p (take (pos + length ch) (content st))" "pos + length ch \<le> length (content st)"
    "ch = [] \<longrightarrow> out = drop p (content st)"
proof -
  have ch: "ch = take 1024 (drop pos (content st))" using read_law [OF assms(1,2)] assms(4) by simp
  then show len: "pos + length ch \<le> length (content st)" using assms(2) by (auto simp: min_def)
  have "ch = take (length ch) (drop pos (content st))" by (auto simp: ch min_def)
  then have "take (pos + length ch) (content st) = take pos (content st) @ ch" by (metis take_add)
  then show "out @ ch = drop p (take (pos + length ch) (content st))" using assms(2,3,5) by simp
  show "ch = [] \<longrightarrow> out = drop p (content st)" using ch assms(5) by simp
qed

lemma server_step_inv:
  assumes E: "\<forall>i. serving_env F (E i)" and G: "data G = F"
    and step: "server_step E G s s'" and inv: "server_inv F file_inv content file s"
  shows "server_inv F file_inv content file s'"
proof -
  from inv have mi: "mutex_inv s" and fi: "file_inv (shared s)"
    and ci: "\<And>i. client_ok F content file (history s) i (client_at s i) (local s i) (received s i) (mark s i) (seek_of s i)"
    and an: "answers_ok F content file s" and sh: "shared s = file_after F file (history s)"
    by (auto simp: server_inv_def)
  have now: "text_at F content file (history s) (length (history s)) = content (shared s)"
    "pos_at F file (history s) (length (history s)) = df_seek F (shared s)"
    by (simp_all add: text_at_def pos_at_def sh)
  note mi_def = mi [unfolded mutex_inv_def]
  note same = answers_ok_same [OF an]
  from step show ?thesis
  proof cases
    case (receive i bs c)
    have "length (takeWhile (\<lambda>x. x \<noteq> nul) bs) \<le> 1023" using receive(5) length_takeWhile_le le_trans by blast
    then show ?thesis
      using receive ci [of i]
      by (intro server_inv_local [OF inv, of _ i])
        (auto simp: client_ok_defs c_string_received intro!: mutex_inv_same [OF mi] same split: if_splits)
  next
    case (receive_command i bs c str r)
    with ci [of i] show ?thesis
      by (intro server_inv_local [OF inv, of _ i])
        (auto simp: client_ok_defs intro!: mutex_inv_same [OF mi] same split: if_splits option.splits)
  next
    case (receive_end i)
    with ci [of i] show ?thesis
      by (intro server_inv_local [OF inv, of _ i]) (auto simp: client_ok_defs intro!: mutex_inv_same [OF mi] same split: if_splits)
  next
    case (lock_append i)
    with ci [of i] show ?thesis
      by (intro server_inv_local [OF inv, of _ i]) (auto simp: client_ok_defs intro!: mutex_inv_lock [OF mi] same)
  next
    case (append_bytes i bs c)
    with ci [of i] have pk: "c_string (buf (local s i)) = Some (last (received s i))" "length (last (received s i)) \<le> 1023"
      by (simp_all add: client_ok_defs)
    with append_body_serving [of F "E i" "(local s i)\<lparr>store := shared s\<rparr>" "last (received s i)"] E append_bytes(3)
    have c: "bs = last (received s i)" "store c = put_file F (shared s) bs" by auto
    have whole: "appended_by (Client i) (history s) @ [bs] = received s i"
      using ci [of i] append_bytes(2) by (simp add: client_ok_defs c)
    have holds: "client_holds (client_at s i)" using append_bytes by simp
    note only = mutex_only [OF mi holds]
    show ?thesis
      unfolding append_bytes(1) c(2)
      by (rule server_inv_append [OF inv, of _ bs "Client i"])
        (use only whole append_bytes(2) c(1) pk(2) fi in
          \<open>auto simp: client_ok_defs intro!: mutex_inv_same [OF mi] put_file_inv split: if_splits\<close>)
  next
    case (unlock_append i)
    with ci [of i] show ?thesis
      by (intro server_inv_local [OF inv, of _ i]) (auto simp: client_ok_defs intro!: mutex_inv_unlock [OF mi] same)
  next
    case (lock_reply i)
    moreover have "open_ok (E i) (calls (local s i))" using E by (simp add: serving_env_def)
    ultimately show ?thesis
      using ci [of i] by (intro server_inv_local [OF inv, of _ i]) (auto simp: client_ok_defs intro!: mutex_inv_lock [OF mi] same)
  next
    case (reply_next i pos ch c)
    with reply_chunk_serving [of F "E i" pos "(local s i)\<lparr>store := shared s\<rparr>" ch c] E
    have c: "ch = df_read F (shared s) pos 1024" "sent c = sent (local s i) @ ch" by auto
    from ci [of i] reply_next(2) have old: "pos \<le> length (content (shared s))"
      "sent (local s i) = mark s i @ take pos (content (shared s))"
      "(Client i, last (received s i)) \<in> set (history s)" "appended_by (Client i) (history s) = received s i"
      by (auto simp: client_ok_defs now)
    from read_chunk [OF fi old(1) _ c(1), of 0] c(2) old(2)
    have new: "sent c = mark s i @ take (pos + length ch) (content (shared s))"
      "pos + length ch \<le> length (content (shared s))" by simp_all
    with reply_next old(3,4) show ?thesis
      by (intro server_inv_local [OF inv, of _ i])
        (auto simp: client_ok_defs now intro!: mutex_inv_same [OF mi] same split: if_splits)
  next
    case (reply_end i pos c)
    with reply_chunk_serving [of F "E i" pos "(local s i)\<lparr>store := shared s\<rparr>" "[]" c] E
    have c: "[] = df_read F (shared s) pos 1024" "sent c = sent (local s i)" by auto
    from ci [of i] reply_end(2) have old: "pos \<le> length (content (shared s))"
      "sent (local s i) = mark s i @ take pos (content (shared s))" by (auto simp: client_ok_defs now)
    from read_chunk(3) [OF fi old(1) _ c(1), of 0] old(2) c(2) have "sent c = mark s i @ content (shared s)" by simp
    with reply_end ci [of i] show ?thesis
      by (intro server_inv_local [OF inv, of _ i])
        (auto simp: client_ok_defs now intro!: mutex_inv_same [OF mi] same split: if_splits)
  next
    case (unlock_reply i)
    with ci [of i] have r: "sent (local s i) = mark s i @ content (shared s)" "(Client i, last (received s i)) \<in> set (history s)"
      "appended_by (Client i) (history s) = received s i"
      by (auto simp: client_ok_defs now)
    then have "snapshot (text_at F content file (history s)) (history s)
        (i, last (received s i), sent_since (mark s i) (sent (local s i)))"
      by (auto simp: snapshot_def now intro!: exI [of _ "length (history s)"])
    then have "answers_ok F content file s'" using an unlock_reply(1) by (simp add: answers_ok_def)
    with unlock_reply r(3) show ?thesis
      by (intro server_inv_local [OF inv, of _ i]) (auto simp: client_ok_defs intro!: mutex_inv_unlock [OF mi])
  next
    case (check_newline i nl)
    with ci [of i] show ?thesis
      by (intro server_inv_local [OF inv, of _ i]) (auto simp: client_ok_defs intro!: mutex_inv_same [OF mi] same split: if_splits)
  next
    case (seek_file i cmd off p)
    have E': "open_ok (E i) n" "data (E i) = F" for n using E by (simp_all add: serving_env_def)
    have at: "df_seek F (shared s) cmd off = Some p0 \<Longrightarrow> p0 \<le> length (content (shared s))" for p0
      using seek_law [OF fi] .
    have "\<not> client_holds p" using seek_file(3) E' by (auto split: option.splits)
    with seek_file(1-2) have "mutex_inv s'" by (auto intro!: mutex_inv_same [OF mi] split: if_splits)
    moreover have "client_ok F content file (history s) i p (call (local s i)) (received s i) (sent (local s i))
        \<lparr>appends_before = length (history s), seek_cmd = cmd, seek_off = off\<rparr>"
      using ci [of i] seek_file(2,3) at
      by (auto simp: client_ok_defs now E' split: option.splits)
    ultimately show ?thesis
      using seek_file(1) by (intro server_inv_local [OF inv, of _ i]) (auto intro!: same)
  next
    case (seek_next i pos pos' c)
    define ch where "ch = df_read F (shared s) pos 1024"
    from rest_chunk_serving [of F "E i" pos "(local s i)\<lparr>store := shared s\<rparr>" "Some pos'" c ch] E seek_next(3)
    have c: "sent c = sent (local s i) @ ch" "pos' = pos + length ch" by (auto simp: ch_def split: if_splits)
    from ci [of i] seek_next(2) obtain p0 where q: "appends_before (seek_of s i) \<le> length (history s)"
      "pos_at F file (history s) (appends_before (seek_of s i)) (seek_cmd (seek_of s i)) (seek_off (seek_of s i)) = Some p0"
      "appends_before (seek_of s i) = length (history s) \<Longrightarrow> p0 \<le> pos \<and> pos \<le> length (content (shared s)) \<and>
        sent (local s i) = mark s i @ drop p0 (take pos (content (shared s)))"
      by (auto simp: client_ok_defs now)
    have "p0 \<le> pos' \<and> pos' \<le> length (content (shared s)) \<and> sent c = mark s i @ drop p0 (take pos' (content (shared s)))"
      if "appends_before (seek_of s i) = length (history s)"
    proof -
      note old = q(3) [OF that]
      from read_chunk(1,2) [OF fi _ _ ch_def, of p0 "drop p0 (take pos (content (shared s)))"] old c show ?thesis by simp
    qed
    with seek_next(1,2) ci [of i] q(1,2) show ?thesis
      by (intro server_inv_local [OF inv, of _ i])
        (auto simp: client_ok_defs now intro!: mutex_inv_same [OF mi] same split: if_splits)
  next
    case (seek_end i pos c s1)
    from rest_chunk_serving [of F "E i" pos "(local s i)\<lparr>store := shared s\<rparr>" None c "df_read F (shared s) pos 1024"] E seek_end(3)
    have c: "sent c = sent (local s i)" "[] = df_read F (shared s) pos 1024" by (auto split: if_splits)
    from ci [of i] seek_end(2) obtain p0 where q: "appends_before (seek_of s i) \<le> length (history s)"
      "pos_at F file (history s) (appends_before (seek_of s i)) (seek_cmd (seek_of s i)) (seek_off (seek_of s i)) = Some p0"
      "appends_before (seek_of s i) = length (history s) \<Longrightarrow> p0 \<le> pos \<and> pos \<le> length (content (shared s)) \<and>
        sent (local s i) = mark s i @ drop p0 (take pos (content (shared s)))"
      by (auto simp: client_ok_defs now)
    have "sent c = mark s i @ drop p0 (content (shared s))" if "appends_before (seek_of s i) = length (history s)"
    proof -
      note old = q(3) [OF that]
      from read_chunk(3) [OF fi _ _ c(2), of p0 "drop p0 (take pos (content (shared s)))"] old c(1) show ?thesis by simp
    qed
    moreover have "appends_before (seek_of s i) = length (history s) \<longrightarrow>
        text_at F content file (history s) (appends_before (seek_of s i)) = content (shared s)" using now(1) by simp
    ultimately have "seek_ok (text_at F content file (history s)) (pos_at F file (history s)) (length (history s)) (seek_result i s1)"
      using q(1,2) seek_end(4) by (auto simp: seek_ok_def seek_result_def Let_def)
    then have "answers_ok F content file s'" using an seek_end(1,4) by (simp add: answers_ok_def)
    with seek_end ci [of i] show ?thesis
      by (intro server_inv_local [OF inv, of _ i])
        (auto simp: client_ok_defs intro!: mutex_inv_same [OF mi] split: if_splits)
  next
    case lock_stamp
    with ci show ?thesis
      using mi by (intro server_inv_local [OF inv, of _ 0]) (auto simp: mutex_inv_def intro!: same)
  next
    case (stamp_bytes stamp bs c)
    from stamp_body_puts [OF G stamp_bytes(4)] stamp_bytes(3)
    have c: "store c = put_file F (shared s) bs" "length bs \<le> 1024" by auto
    have held: "mutex_holder s = Some Stamper" using stamp_bytes mi_def by simp
    with mi_def have free: "\<not> client_holds (client_at s j)" for j by simp
    show ?thesis
      unfolding stamp_bytes(1) c(1)
      by (rule server_inv_append [OF inv, of _ bs Stamper])
        (use free stamp_bytes(2) c(2) fi in \<open>auto intro!: mutex_inv_same [OF mi] put_file_inv split: if_splits\<close>)
  next
    case unlock_stamp
    with ci show ?thesis
      using mi by (intro server_inv_local [OF inv, of _ 0]) (auto simp: mutex_inv_def intro!: same)
  qed
qed

lemma server_run_inv:
  assumes "\<forall>i. serving_env F (E i)" and "data G = F"
  shows "server_run E G s s' \<Longrightarrow> server_inv F file_inv content file s \<Longrightarrow> server_inv F file_inv content file s'"
  by (induction rule: server_run.induct) (auto intro: server_step_inv [OF assms])

end

section \<open>Executing a schedule\<close>

text \<open>What happens next: a client receives bytes, a client goes on, or the timestamp thread does, with
  the text of its current stamp.\<close>

datatype event = Receives nat "byte list" | Goes_On nat | Stamps "byte list"

definition client_next :: "'st client_env \<Rightarrow> nat \<Rightarrow> 'st server_state \<Rightarrow> 'st server_state option" where
  "client_next E i s =
     (case client_at s i of
        Receiving \<Rightarrow> Some (client_goes i Finished s)
      | Before_Append \<Rightarrow>
          if mutex_holder s = None then Some (client_goes i Appending (s\<lparr>mutex_holder := Some (Client i)\<rparr>)) else None
      | Appending \<Rightarrow> do {
          (bs, c) \<leftarrow> append_body E ((local s i)\<lparr>store := shared s\<rparr>);
          Some (client_goes i Appended (set_local i c
            (s\<lparr>shared := store c, history := history s @ [(Client i, bs)]\<rparr>)))
        }
      | Appended \<Rightarrow>
          if mutex_holder s = Some (Client i) then Some (client_goes i Before_Reply (s\<lparr>mutex_holder := None\<rparr>)) else None
      | Before_Reply \<Rightarrow>
          if mutex_holder s = None
          then Some (client_goes i (if open_ok E (calls (local s i)) then Replying 0 else Replied)
            (set_local i (call (local s i)) (s\<lparr>mutex_holder := Some (Client i), mark := (mark s)(i := sent (local s i))\<rparr>)))
          else None
      | Replying pos \<Rightarrow> do {
          (ch, c) \<leftarrow> reply_chunk E pos ((local s i)\<lparr>store := shared s\<rparr>);
          Some (client_goes i (if ch = [] then Replied else Replying (pos + length ch)) (set_local i c s))
        }
      | Replied \<Rightarrow>
          if mutex_holder s = Some (Client i)
          then Some (client_goes i Before_Check (s\<lparr>mutex_holder := None,
            replies := replies s @ [(i, last (received s i), sent_since (mark s i) (sent (local s i)))]\<rparr>))
          else None
      | Before_Check \<Rightarrow> do {
          nl \<leftarrow> strchr_newline (buf (local s i));
          Some (client_goes i (if nl then Finished else Receiving) s)
        }
      | Before_Seek cmd off \<Rightarrow>
          Some (client_goes i
            (if open_ok E (calls (local s i))
             then (case df_seek (data E) (shared s) cmd off of None \<Rightarrow> Finished | Some pos \<Rightarrow> Seeking pos)
             else Finished)
            (set_local i (call (local s i)) (s\<lparr>mark := (mark s)(i := sent (local s i)),
              seek_of := (seek_of s)(i := \<lparr>appends_before = length (history s), seek_cmd = cmd, seek_off = off\<rparr>)\<rparr>)))
      | Seeking pos \<Rightarrow>
          (case rest_chunk E pos ((local s i)\<lparr>store := shared s\<rparr>) of
             (Some pos', c) \<Rightarrow> Some (client_goes i (Seeking pos') (set_local i c s))
           | (None, c) \<Rightarrow>
               let s1 = set_local i c s
               in Some (client_goes i Receiving (s1\<lparr>seek_answers := seek_answers s1 @ [seek_result i s1]\<rparr>)))
      | Finished \<Rightarrow> None)"

definition stamper_next :: "'st client_env \<Rightarrow> byte list \<Rightarrow> 'st server_state \<Rightarrow> 'st server_state option" where
  "stamper_next G stamp s =
     (case stamper_at s of
        Sleeping \<Rightarrow> if mutex_holder s = None then Some (s\<lparr>stamper_at := Stamping, mutex_holder := Some Stamper\<rparr>) else None
      | Stamping \<Rightarrow>
          if length stamp \<le> 1023
          then let (bs, c) = stamp_body G stamp ((stamper s)\<lparr>store := shared s\<rparr>)
               in Some (s\<lparr>stamper_at := Stamped, stamper := c, shared := store c, history := history s @ [(Stamper, bs)]\<rparr>)
          else None
      | Stamped \<Rightarrow> if mutex_holder s = Some Stamper then Some (s\<lparr>stamper_at := Sleeping, mutex_holder := None\<rparr>) else None)"

definition receive_next :: "'st client_env \<Rightarrow> nat \<Rightarrow> byte list \<Rightarrow> 'st server_state \<Rightarrow> 'st server_state option" where
  "receive_next E i bs s =
     (let c = (local s i)\<lparr>buf := overlay (buf (local s i)) (bs @ [nul])\<rparr>
      in if client_at s i = Receiving \<and> \<not> stopping E (calls (local s i)) \<and> bs \<noteq> [] \<and> length bs \<le> 1023
         then if take (length ioctl_value) (buf c) = ioctl_value
           then do {
             str \<leftarrow> c_string (drop (length ioctl_value) (buf c));
             r \<leftarrow> scan_seekto str;
             Some (client_goes i (case r of None \<Rightarrow> Finished | Some (cmd, off) \<Rightarrow> Before_Seek cmd off) (set_local i c s))
           }
           else Some (client_goes i Before_Append (set_local i c
             (s\<lparr>received := (received s)(i := received s i @ [takeWhile (\<lambda>x. x \<noteq> nul) bs])\<rparr>)))
         else None)"

fun server_exec ::
  "(nat \<Rightarrow> 'st client_env) \<Rightarrow> 'st client_env \<Rightarrow> event list \<Rightarrow> 'st server_state \<Rightarrow> 'st server_state option" where
  "server_exec E G [] s = Some s"
| "server_exec E G (Receives i bs # es) s = do { s1 \<leftarrow> receive_next (E i) i bs s; server_exec E G es s1 }"
| "server_exec E G (Goes_On i # es) s = do { s1 \<leftarrow> client_next (E i) i s; server_exec E G es s1 }"
| "server_exec E G (Stamps stamp # es) s = do { s1 \<leftarrow> stamper_next G stamp s; server_exec E G es s1 }"

lemma client_next_step:
  assumes "client_next (E i) i s = Some s'"
  shows "server_step E G s s'"
proof (cases "client_at s i")
  case Receiving
  with assms receive_end [where s = s and i = i and E = E and G = G] show ?thesis by (simp add: client_next_def)
next
  case Before_Append
  with assms lock_append [where s = s and i = i and E = E and G = G] show ?thesis
    by (simp add: client_next_def split: if_splits)
next
  case Appending
  with assms append_bytes [where s = s and i = i and E = E and G = G] show ?thesis
    by (auto simp: client_next_def bind_eq_Some_conv)
next
  case Appended
  with assms unlock_append [where s = s and i = i and E = E and G = G] show ?thesis
    by (simp add: client_next_def split: if_splits)
next
  case Before_Reply
  with assms lock_reply [where s = s and i = i and E = E and G = G] show ?thesis
    by (cases "mutex_holder s") (simp_all add: client_next_def)
next
  case (Replying pos)
  with assms obtain ch c where c: "reply_chunk (E i) pos ((local s i)\<lparr>store := shared s\<rparr>) = Some (ch, c)"
    "s' = client_goes i (if ch = [] then Replied else Replying (pos + length ch)) (set_local i c s)"
    by (auto simp: client_next_def bind_eq_Some_conv)
  with Replying reply_next [where s = s and i = i and E = E and G = G] reply_end [where s = s and i = i and E = E and G = G] show ?thesis
    by (cases "ch = []") simp_all
next
  case Replied
  with assms unlock_reply [where s = s and i = i and E = E and G = G] show ?thesis
    by (simp add: client_next_def split: if_splits)
next
  case Before_Check
  with assms check_newline [where s = s and i = i and E = E and G = G] show ?thesis
    by (auto simp: client_next_def bind_eq_Some_conv)
next
  case (Before_Seek cmd off)
  with assms seek_file [where s = s and i = i and E = E and G = G, OF Before_Seek refl] show ?thesis
    by (simp add: client_next_def)
next
  case (Seeking pos)
  obtain r c where c: "rest_chunk (E i) pos ((local s i)\<lparr>store := shared s\<rparr>) = (r, c)" by fastforce
  show ?thesis
  proof (cases r)
    case None
    with Seeking c assms seek_end [where s = s and i = i and E = E and G = G, OF Seeking _ refl] show ?thesis
      by (simp add: client_next_def Let_def)
  next
    case (Some pos')
    with Seeking c assms seek_next [where s = s and i = i and E = E and G = G, OF Seeking] show ?thesis
      by (simp add: client_next_def)
  qed
next
  case Finished
  with assms show ?thesis by (simp add: client_next_def)
qed

lemma stamper_next_step: "stamper_next G stamp s = Some s' \<Longrightarrow> server_step E G s s'"
  using lock_stamp [where s = s and E = E and G = G] stamp_bytes [where s = s and E = E and G = G and stamp = stamp]
    unlock_stamp [where s = s and E = E and G = G]
  by (cases "stamper_at s") (simp_all add: stamper_next_def split: if_splits prod.splits)

lemma receive_next_step: "receive_next (E i) i bs s = Some s' \<Longrightarrow> server_step E G s s'"
  using receive [where s = s and i = i and E = E and G = G and bs = bs, OF _ _ _ _ refl]
    receive_command [where s = s and i = i and E = E and G = G and bs = bs, OF _ _ _ _ refl]
  by (auto simp: receive_next_def Let_def bind_eq_Some_conv split: if_splits)

lemma server_run_trans: "server_run E G s1 s2 \<Longrightarrow> server_step E G s s1 \<Longrightarrow> server_run E G s s2"
  by (induction rule: server_run.induct) (auto intro: server_run.intros)

lemma server_exec_run: "server_exec E G es s = Some s' \<Longrightarrow> server_run E G s s'"
proof (induction E G es s rule: server_exec.induct)
  case (2 E G i bs es s)
  then show ?case by (auto simp: bind_eq_Some_conv intro: server_run_trans receive_next_step)
next
  case (3 E G i es s)
  then show ?case by (auto simp: bind_eq_Some_conv intro: server_run_trans client_next_step)
next
  case (4 E G stamp es s)
  then show ?case by (auto simp: bind_eq_Some_conv intro: server_run_trans stamper_next_step)
qed (auto intro: server_run.intros)

text \<open>A thread that holds the mutex can always go on, so that the others get it.\<close>

lemma holder_goes_on:
  assumes "serving_env F (E i)" and "server_inv F ok content file s" and "mutex_holder s = Some (Client i)"
  shows "\<exists>s'. client_next (E i) i s = Some s'"
proof -
  have h: "client_holds (client_at s i)" using assms(2,3) by (simp add: server_inv_def mutex_inv_def)
  have "client_ok F content file (history s) i (client_at s i) (local s i) (received s i) (mark s i) (seek_of s i)"
    using assms(2) unfolding server_inv_def by blast
  then have "client_at s i = Appending \<Longrightarrow> c_string (buf (local s i)) = Some (last (received s i))"
    by (simp add: client_ok_defs)
  with h assms(1,3) show ?thesis
    by (cases "client_at s i")
      (auto simp: client_next_def append_body_def reply_chunk_def serving_env_def Let_def)
qed

section \<open>Property\<close>

text \<open>On a regular file, the file after the appends is their concatenation.\<close>

lemma regular_after: "file_after regular_file file h = file @ concat (map snd h)"
  by (induction h rule: rev_induct) (auto simp: file_after_def put_file_def regular_file_def)

text \<open>Client 1 overtakes client 0 before it replies, and a timestamp comes in between.\<close>

definition demo_client_env :: "'st data_ops \<Rightarrow> 'st client_env" where
  "demo_client_env F = \<lparr>data = F, open_ok = (\<lambda>n. True), send_res = (\<lambda>n k. Some k), flushed = (\<lambda>n k. k),
     stopping = (\<lambda>n. False)\<rparr>"

definition idle_client :: "'st \<Rightarrow> 'st client" where
  "idle_client st = \<lparr>store = st, sent = [], buf = replicate 8 nul, files_locked = False, connected = True, calls = 0\<rparr>"

definition demo_server :: "'st \<Rightarrow> 'st server_state" where
  "demo_server st = \<lparr>shared = st, mutex_holder = None, client_at = (\<lambda>i. Receiving), stamper_at = Sleeping,
     local = (\<lambda>i. idle_client st), stamper = idle_client st, received = (\<lambda>i. []), mark = (\<lambda>i. []),
     seek_of = (\<lambda>i. \<lparr>appends_before = 0, seek_cmd = 0, seek_off = 0\<rparr>), history = [], replies = [], seek_answers = []\<rparr>"

lemma demo_server_simps [simp]: "serving_env F (demo_client_env F)" "data (demo_client_env F) = F"
    "server_starts st (demo_server st)"
  by (simp_all add: serving_env_def demo_client_env_def server_starts_def demo_server_def)

definition demo_events :: "event list" where
  "demo_events = [Receives 0 ''ab'', Receives 1 ''c'', Goes_On 1, Goes_On 1, Goes_On 1, Goes_On 0, Goes_On 0, Goes_On 0,
     Stamps ''t'', Stamps ''t'', Stamps ''t'', Goes_On 0, Goes_On 0, Goes_On 0, Goes_On 0]"

lemma demo_server_run:
  "\<exists>s'. server_run (\<lambda>i. demo_client_env regular_file) (demo_client_env regular_file) (demo_server ''old'') s' \<and>
    shared s' = ''oldcabt'' \<and> replies s' = [(0, ''ab'', ''oldcabt'')]"
proof -
  have "\<exists>s. server_exec (\<lambda>i. demo_client_env regular_file) (demo_client_env regular_file) demo_events (demo_server ''old'') = Some s \<and>
      shared s = ''oldcabt'' \<and> replies s = [(0, ''ab'', ''oldcabt'')]"
    by (simp add: demo_events_def demo_server_def demo_client_env_def idle_client_def regular_file_def put_file_def
        client_next_def receive_next_def stamper_next_def append_body_def stamp_body_def reply_chunk_def
        overlay_def ioctl_value_def c_string_def sent_since_def Let_def)
  then show ?thesis using server_exec_run by blast
qed

text \<open>
  C10: The clients and the timestamp thread on a regular file, in every interleaving. The file
  always is what it was at the start followed by whole packets and timestamps in the order
  in which the mutex was taken: no two appends mix. Every reply is the file as it was at one
  moment, after the packet it answers had been appended, although it is read and sent in
  chunks; and at most one thread is between lock and unlock.
\<close>

theorem server_threads_atomic:
  assumes "\<forall>i. serving_env regular_file (E i)" and "data G = regular_file"
    and "server_starts file s" and "server_run E G s s'"
  shows "shared s' = file @ concat (map snd (history s')) \<and>
    (\<forall>i. client_at s' i \<notin> {Before_Append, Appending} \<longrightarrow> appended_by (Client i) (history s') = received s' i) \<and>
    (\<forall>i. client_at s' i \<in> {Before_Append, Appending} \<longrightarrow> appended_by (Client i) (history s') = butlast (received s' i)) \<and>
    (\<forall>(i, p, reply) \<in> set (replies s'). \<exists>k \<le> length (history s').
       reply = file @ concat (map snd (take k (history s'))) \<and> (Client i, p) \<in> set (take k (history s'))) \<and>
    (\<forall>i j. client_holds (client_at s' i) \<longrightarrow> client_holds (client_at s' j) \<longrightarrow> i = j \<and> stamper_at s' = Sleeping)"
proof -
  have "server_inv regular_file (\<lambda>_. True) (\<lambda>st. st) file s'"
    by (rule regular.server_run_inv [OF assms(1,2,4)]) (rule server_inv_start [OF assms(3)], simp)
  then have shared: "shared s' = file @ concat (map snd (history s'))" and mutex: "mutex_inv s'"
    and clients: "\<And>i. client_ok regular_file (\<lambda>st. st) file (history s') i (client_at s' i) (local s' i)
      (received s' i) (mark s' i) (seek_of s' i)"
    and answers: "\<forall>r \<in> set (replies s'). snapshot (\<lambda>k. file @ concat (map snd (take k (history s')))) (history s') r"
    by (simp_all add: server_inv_def answers_ok_def text_at_def [abs_def] regular_after)
  have by_client: "appended_by (Client i) (history s') =
      (if client_at s' i \<in> {Before_Append, Appending} then butlast (received s' i) else received s' i)" for i
    using clients [of i] by (simp add: client_ok_def client_inv_def split: if_split_asm)
  have excl: "client_holds (client_at s' i) \<Longrightarrow> client_holds (client_at s' j) \<Longrightarrow> i = j \<and> stamper_at s' = Sleeping" for i j
    using mutex by (auto simp: mutex_inv_def)
  show ?thesis
  proof (intro conjI allI impI)
    show "shared s' = file @ concat (map snd (history s'))" by (rule shared)
    show "appended_by (Client i) (history s') = received s' i" if "client_at s' i \<notin> {Before_Append, Appending}" for i
      using by_client [of i] that by simp
    show "appended_by (Client i) (history s') = butlast (received s' i)" if "client_at s' i \<in> {Before_Append, Appending}" for i
      using by_client [of i] that by simp
    show "\<forall>(i, p, reply) \<in> set (replies s'). \<exists>k \<le> length (history s').
       reply = file @ concat (map snd (take k (history s'))) \<and> (Client i, p) \<in> set (take k (history s'))"
      using answers unfolding snapshot_def .
  qed (use excl in blast)+
qed

theorem server_threads_atomic_witness:
  "\<exists>s' :: byte list server_state. replies s' = [(0, ''ab'', ''oldcabt'')] \<and> shared s' = ''old'' @ concat (map snd (history s')) \<and>
    (\<exists>k \<le> length (history s'). ''oldcabt'' = ''old'' @ concat (map snd (take k (history s'))) \<and>
      (Client 0, ''ab'') \<in> set (take k (history s')))"
proof -
  obtain s' where s': "server_run (\<lambda>i. demo_client_env regular_file) (demo_client_env regular_file) (demo_server ''old'') s'"
    "replies s' = [(0, ''ab'', ''oldcabt'')]" using demo_server_run by blast
  have env: "\<forall>i :: nat. serving_env regular_file (demo_client_env regular_file)"
    "data (demo_client_env regular_file) = regular_file"
    and start: "server_starts ''old'' (demo_server ''old'')" by simp_all
  note result = server_threads_atomic [where E = "\<lambda>i. demo_client_env regular_file", OF env start s'(1)]
  have "shared s' = ''old'' @ concat (map snd (history s'))"
    using result by (rule conjunct1)
  moreover have "\<exists>k \<le> length (history s'). ''oldcabt'' = ''old'' @ concat (map snd (take k (history s'))) \<and>
      (Client 0, ''ab'') \<in> set (take k (history s'))"
    using result s'(2) by simp
  ultimately show ?thesis using s'(2) by blast
qed

end
