(* ===== verification/Socket_Device.thy ===== *)
theory Socket_Device
  imports Socket_Threads Driver_System
begin

text \<open>
  The server over the driver: the threads of \<open>Socket_Threads\<close> with the device of
  \<^verbatim>\<open>aesd-char-driver\<close> as their file, every append, read and seek being a call of a handler of the
  driver. The log of \<open>Driver_System\<close> is the specification of both together.
\<close>

section \<open>The device after some appends\<close>

text \<open>The bytes of the appends \<open>h\<close> after those of \<open>start\<close>.\<close>

definition bytes_after :: "byte list \<Rightarrow> (thread \<times> byte list) list \<Rightarrow> byte list" where
  "bytes_after start h = start @ concat (map snd h)"

text \<open>No unfinished line comes near what \<^verbatim>\<open>krealloc\<close> can give.\<close>

definition lines_fit :: "byte list \<Rightarrow> (thread \<times> byte list) list \<Rightarrow> bool" where
  "lines_fit start h \<longleftrightarrow> (\<forall>k \<le> length h. length (snd (split_lines (bytes_after start (take k h)))) + 1024 \<le> KMALLOC_BOUND)"

lemma lines_fit_append: "lines_fit start (h @ [e]) \<Longrightarrow> lines_fit start h"
  unfolding lines_fit_def
proof (intro allI impI)
  fix k assume fit: "\<forall>k \<le> length (h @ [e]). length (snd (split_lines (bytes_after start (take k (h @ [e]))))) + 1024 \<le> KMALLOC_BOUND"
    and "k \<le> length h"
  then show "length (snd (split_lines (bytes_after start (take k h)))) + 1024 \<le> KMALLOC_BOUND"
    using fit [rule_format, of k] by simp
qed

lemma lines_fit_take:
  assumes "lines_fit start h"
  shows "lines_fit start (take k h)"
  unfolding lines_fit_def
proof (intro allI impI)
  fix j assume "j \<le> length (take k h)"
  then have "j \<le> length h" "j \<le> k" by simp_all
  then have "j \<le> length h" "take j (take k h) = take j h" by (simp_all add: min.absorb1)
  then show "length (snd (split_lines (bytes_after start (take j (take k h))))) + 1024 \<le> KMALLOC_BOUND"
    using assms unfolding lines_fit_def by simp
qed

lemma device_put:
  assumes K: "serving_kernel K" and st: "dev_ready st" "log_of st = stream_log x"
    and bs: "length bs \<le> 1024" and fit: "length (snd (split_lines x)) + 1024 \<le> KMALLOC_BOUND"
  shows "dev_ready (put_file (device_file K) st bs) \<and> log_of (put_file (device_file K) st bs) = stream_log (x @ bs)"
proof (cases "bs = []")
  case True
  with st show ?thesis by (simp add: put_file_def)
next
  case False
  let ?n = "of_nat (length bs) :: u64"
  have K': "kernel_allocator K" "serves K" "\<not> signalled K (clock st)"
    using K by (auto simp: serving_kernel_def serving_kernel_axioms_def)
  have n: "unat ?n = length bs" using bs by (intro unat_of_nat_u64) simp
  have pos: "0 < ?n" using False n by (metis length_0_conv unat_0 word_gt_0)
  have part: "dev_partial st = snd (split_lines x)" "dev_cmds st = last_n 10 (fst (split_lines x))"
    using st(2) by (simp_all add: log_of_def stream_log_def)
  have ready: "dev_inv st" "\<not> lock (aesd_device st)" using st(1) by (simp_all add: dev_ready_def)
  have rw: "unat ?n \<le> MAX_RW_COUNT" "unat ?n \<le> length bs" "length (dev_partial st) + unat ?n \<le> KMALLOC_BOUND"
    using bs fit unfolding n part(1) by simp_all
  from aesd_write_served [OF K'(1) ready _ rw(1) K'(2,3) pos rw(2,3), of open_file 0] obtain s' where
    s': "aesd_write K open_file bs ?n 0 st = Some (Inr ?n, 0, s')" "\<not> lock (aesd_device s')" "dev_inv s'"
    "dev_cmds s' = last_n 10 (dev_cmds st @ fst (split_lines (dev_partial st @ bs)))"
    "dev_partial s' = snd (split_lines (dev_partial st @ bs))"
    using n by auto
  have "log_of s' = stream_log (x @ bs)"
    using stream_log_step [of x bs] s'(4,5) unfolding part by (simp add: log_of_def stream_log_def log_lines_def)
  with s' False show ?thesis by (simp add: put_file_def device_file_def dev_ready_def)
qed

lemma device_after:
  assumes K: "serving_kernel K" and st: "dev_ready st" "log_of st = stream_log start"
  shows "\<forall>e \<in> set h. length (snd e) \<le> 1024 \<Longrightarrow> lines_fit start h \<Longrightarrow>
    dev_ready (file_after (device_file K) st h) \<and> log_of (file_after (device_file K) st h) = stream_log (bytes_after start h)"
proof (induction h rule: rev_induct)
  case Nil
  with st show ?case by (simp add: file_after_def bytes_after_def)
next
  case (snoc e h)
  have "lines_fit start h" using snoc.prems(2) by (rule lines_fit_append)
  with snoc have now: "dev_ready (file_after (device_file K) st h)"
    "log_of (file_after (device_file K) st h) = stream_log (bytes_after start h)" by simp_all
  have "length (snd (split_lines (bytes_after start (take (length h) (h @ [e]))))) + 1024 \<le> KMALLOC_BOUND"
    using snoc.prems(2) unfolding lines_fit_def by (rule allE [where x = "length h"]) simp
  then have "length (snd (split_lines (bytes_after start h))) + 1024 \<le> KMALLOC_BOUND" by simp
  moreover have "length (snd e) \<le> 1024" using snoc.prems(1) by simp
  ultimately show ?case
    using device_put [OF K now, of "snd e"] by (cases e) (simp add: file_after_append bytes_after_def)
qed

lemma log_text_dev: "log_of s = l \<Longrightarrow> dev_text s = log_text l" "log_of s = l \<Longrightarrow> dev_cmds s = log_cmds l"
  by (auto simp: log_of_def log_text_def dev_text_def)

section \<open>Seeks\<close>

lemma drop_command:
  assumes "i < length cs" and "j < length (cs ! i)"
  shows "drop (length (concat (take i cs)) + j) (concat cs) = drop j (cs ! i) @ concat (drop (Suc i) cs)"
proof -
  have "concat cs = concat (take i cs) @ cs ! i @ concat (drop (Suc i) cs)"
    using id_take_nth_drop [OF assms(1)] by (metis concat.simps(2) concat_append)
  then show ?thesis using assms(2) by simp
qed

lemma device_seek_text:
  assumes K: "serving_kernel K" and "dev_ready st" and "df_seek (device_file K) st c off = Some p"
  shows "unat c < length (dev_cmds st) \<and> unat off < length (dev_cmds st ! unat c) \<and>
    drop p (dev_text st) = drop (unat off) (dev_cmds st ! unat c) @ concat (drop (Suc (unat c)) (dev_cmds st))"
proof -
  have quiet: "\<And>t. \<not> signalled K t" using K by (simp add: serving_kernel_def serving_kernel_axioms_def)
  have ready: "dev_inv st" "\<not> lock (aesd_device st)" using assms(2) by (simp_all add: dev_ready_def)
  show ?thesis
    using device_seek [OF ready quiet, of c off] assms(3) drop_command [of "unat c" "dev_cmds st" "unat off"]
    by (auto simp: dev_text_def split: if_split_asm)
qed

section \<open>Properties\<close>

text \<open>
  C11: The server on the driver's device, in every interleaving of the clients and the timestamp
  thread, from any state of the device that a stream of bytes can bring about. The device
  always holds the newest ten lines, and the unfinished rest, of this stream followed by the
  packets and timestamps in the order in which the mutex was taken. Every reply is what the
  device held at one moment, after the packet it answers. A seek during which nothing was
  appended is answered with the rest of the command it names and the later ones. (The
  kernel has memory for the unfinished line, and the calls of the server succeed.)
\<close>

theorem device_server_threads:
  assumes "serving_kernel K" and "\<forall>i. serving_env (device_file K) (E i)" and "data G = device_file K"
    and "dev_ready st" and "log_of st = stream_log start"
    and "server_starts st s" and "server_run E G s s'" and "lines_fit start (history s')"
  shows "dev_ready (shared s') \<and> log_of (shared s') = stream_log (bytes_after start (history s')) \<and>
    (\<forall>(i, p, reply) \<in> set (replies s'). \<exists>k \<le> length (history s').
       reply = log_text (stream_log (bytes_after start (take k (history s')))) \<and> (Client i, p) \<in> set (take k (history s'))) \<and>
    (\<forall>r \<in> set (seek_answers s'). appends_after r = appends_before (asked r) \<longrightarrow>
       (let cmds = log_cmds (stream_log (bytes_after start (take (appends_after r) (history s'))));
            c = unat (seek_cmd (asked r)); off = unat (seek_off (asked r))
        in c < length cmds \<and> off < length (cmds ! c) \<and> answer r = drop off (cmds ! c) @ concat (drop (Suc c) cmds)))"
proof -
  let ?F = "device_file K" and ?h = "history s'"
  have inv: "server_inv ?F dev_ready dev_text st s'"
    by (rule data_file.server_run_inv [OF serving_kernel.device_data_file [OF assms(1)] assms(2,3,7)])
      (rule server_inv_start, rule assms(6), rule assms(4))
  then have shared: "shared s' = file_after ?F st ?h" and short: "\<forall>e \<in> set ?h. length (snd e) \<le> 1024"
    and answers: "answers_ok ?F dev_text st s'" by (simp_all add: server_inv_def)
  have at: "dev_ready (file_after ?F st (take k ?h)) \<and>
      log_of (file_after ?F st (take k ?h)) = stream_log (bytes_after start (take k ?h))" for k
    by (rule device_after [OF assms(1,4,5) _ lines_fit_take [OF assms(8)]]) (use short in \<open>auto dest: in_set_takeD\<close>)
  have texts: "text_at ?F dev_text st ?h k = log_text (stream_log (bytes_after start (take k ?h)))" for k
    using log_text_dev(1) [OF conjunct2 [OF at [of k]]] by (simp add: text_at_def)
  have seeks: "let cmds = log_cmds (stream_log (bytes_after start (take (appends_after r) ?h)));
            c = unat (seek_cmd (asked r)); off = unat (seek_off (asked r))
        in c < length cmds \<and> off < length (cmds ! c) \<and> answer r = drop off (cmds ! c) @ concat (drop (Suc c) cmds)"
    if r: "r \<in> set (seek_answers s')" and eq: "appends_after r = appends_before (asked r)" for r
  proof -
    let ?st = "file_after ?F st (take (appends_after r) ?h)"
    from answers r obtain p where "pos_at ?F st ?h (appends_after r) (seek_cmd (asked r)) (seek_off (asked r)) = Some p"
      "answer r = drop p (text_at ?F dev_text st ?h (appends_after r))"
      by (auto simp: answers_ok_def seek_ok_def Let_def eq)
    then have "df_seek ?F ?st (seek_cmd (asked r)) (seek_off (asked r)) = Some p" "answer r = drop p (dev_text ?st)"
      by (simp_all add: pos_at_def text_at_def)
    moreover have "dev_ready ?st" "dev_cmds ?st = log_cmds (stream_log (bytes_after start (take (appends_after r) ?h)))"
      using at [of "appends_after r"] log_text_dev(2) by simp_all
    ultimately show ?thesis using device_seek_text [OF assms(1), of ?st] unfolding Let_def by metis
  qed
  show ?thesis
  proof (intro conjI)
    show "dev_ready (shared s')" "log_of (shared s') = stream_log (bytes_after start ?h)"
      using at [of "length ?h"] by (simp_all add: shared)
    show "\<forall>(i, p, reply) \<in> set (replies s'). \<exists>k \<le> length ?h.
       reply = log_text (stream_log (bytes_after start (take k ?h))) \<and> (Client i, p) \<in> set (take k ?h)"
      using answers unfolding answers_ok_def snapshot_def texts by blast
    show "\<forall>r \<in> set (seek_answers s'). appends_after r = appends_before (asked r) \<longrightarrow>
       (let cmds = log_cmds (stream_log (bytes_after start (take (appends_after r) ?h)));
            c = unat (seek_cmd (asked r)); off = unat (seek_off (asked r))
        in c < length cmds \<and> off < length (cmds ! c) \<and> answer r = drop off (cmds ! c) @ concat (drop (Suc c) cmds))"
      using seeks by blast
  qed
qed

text \<open>A run in which client 1 appends a line between the ioctl of client 0 and its first read.\<close>

definition old_lines :: "byte list" where
  "old_lines = ''aaa'' @ [newline] @ concat (map (\<lambda>c. [c, newline]) ''bcdefghij'')"

definition torn_events :: "Socket_Threads.event list" where
  "torn_events = [Receives 0 (ioctl_value @ ''1,0''), Goes_On 0, Receives 1 [CHR ''x'', newline], Goes_On 1, Goes_On 1,
     Goes_On 0, Goes_On 0]"

lemma seek_1_0: "scan_seekto ''1,0'' = Some (Some (1, 0))"
  by (simp add: scan_seekto_def scan_u_def isspace_def isdigit_def digits_value_def Let_def)

lemma device_chunk:
  assumes "dev_ready st" and "pos \<le> length (dev_text st)"
  shows "df_read (device_file quiet_kernel) st pos 1024 = take 1024 (drop pos (dev_text st))"
  using assms by (intro device_read) (simp_all add: dev_ready_def)

lemma stream_log_old:
  "log_cmds (stream_log old_lines) = (''aaa'' @ [newline]) # map (\<lambda>c. [c, newline]) ''bcdefghij''"
  "log_cmds (stream_log (old_lines @ [CHR ''x'', newline])) = map (\<lambda>c. [c, newline]) ''bcdefghijx''"
  "log_part (stream_log old_lines) = []" "log_part (stream_log (old_lines @ [CHR ''x'', newline])) = []"
  by (simp_all add: stream_log_def old_lines_def last_n_def)

lemma torn_run:
  assumes st: "dev_ready st" "log_of st = stream_log old_lines"
  shows "\<exists>s. server_exec (\<lambda>i. demo_client_env (device_file quiet_kernel)) (demo_client_env (device_file quiet_kernel))
      torn_events (demo_server st) = Some s \<and> history s = [(Client 1, [CHR ''x'', newline])] \<and>
    seek_answers s = [\<lparr>asked_by = 0, asked = \<lparr>appends_before = 0, seek_cmd = 1, seek_off = 0\<rparr>, appends_after = 1,
      answer = concat (map (\<lambda>c. [c, newline]) ''defghijx'')\<rparr>]"
proof -
  let ?D = "device_file quiet_kernel"
  define st' where "st' = put_file ?D st [CHR ''x'', newline]"
  have st': "dev_ready st'" "log_of st' = stream_log (old_lines @ [CHR ''x'', newline])"
    using device_put [OF serving.serving_kernel_axioms st, of "[CHR ''x'', newline]"] stream_log_old(3)
    by (simp_all add: st'_def stream_log_def)
  have seek: "df_seek ?D st 1 0 = Some 4"
    using device_seek [of st quiet_kernel 1 0] st log_text_dev(2) [OF st(2)] by (simp add: dev_ready_def stream_log_old)
  have texts: "dev_text st' = concat (map (\<lambda>c. [c, newline]) ''bcdefghijx'')"
    using log_text_dev(1) [OF st'(2)] by (simp add: log_text_def stream_log_old)
  have rd: "df_read ?D st' 4 1024 = concat (map (\<lambda>c. [c, newline]) ''defghijx'')" "df_read ?D st' 20 1024 = []"
    using device_chunk [OF st'(1), of 4] device_chunk [OF st'(1), of 20] by (simp_all add: texts)
  show ?thesis
    using seek rd st'_def [symmetric]
    by (simp add: torn_events_def demo_server_def demo_client_env_def idle_client_def seek_1_0
        client_next_def receive_next_def append_body_def rest_chunk_def seek_result_def
        overlay_def ioctl_value_def c_string_def sent_since_def Let_def)
qed

lemma old_device: "\<exists>st. dev_ready st \<and> log_of st = stream_log old_lines"
proof -
  have "dev_ready boot_state" "log_of boot_state = stream_log []"
    by (simp_all add: dev_ready_def log_of_def stream_log_def)
  from device_put [OF serving.serving_kernel_axioms this, of old_lines] show ?thesis
    by (auto simp: old_lines_def)
qed

theorem device_server_threads_witness:
  "\<exists>st s. log_of st = stream_log old_lines \<and>
    server_run (\<lambda>i. demo_client_env (device_file quiet_kernel)) (demo_client_env (device_file quiet_kernel)) (demo_server st) s \<and>
    log_cmds (log_of (shared s)) = map (\<lambda>c. [c, newline]) ''bcdefghijx''"
proof -
  let ?E = "demo_client_env (device_file quiet_kernel)"
  obtain st where st: "dev_ready st" "log_of st = stream_log old_lines" using old_device by blast
  from torn_run [OF this] obtain s where s: "server_exec (\<lambda>i. ?E) ?E torn_events (demo_server st) = Some s"
    "history s = [(Client 1, [CHR ''x'', newline])]" by blast
  note run = server_exec_run [OF s(1)]
  have fit: "lines_fit old_lines (history s)"
    unfolding lines_fit_def
  proof (intro allI impI)
    fix k assume "k \<le> length (history s)"
    then have "k = 0 \<or> k = 1" by (auto simp: s(2))
    then show "length (snd (split_lines (bytes_after old_lines (take k (history s))))) + 1024 \<le> KMALLOC_BOUND"
      using stream_log_old(3,4) by (auto simp: s(2) bytes_after_def stream_log_def)
  qed
  have env: "\<forall>i :: nat. serving_env (device_file quiet_kernel) ?E" "data ?E = device_file quiet_kernel" by simp_all
  have "log_of (shared s) = stream_log (bytes_after old_lines (history s))"
    using device_server_threads [where E = "\<lambda>i. ?E", OF serving.serving_kernel_axioms env st _ run fit] by simp
  then have "log_cmds (log_of (shared s)) = map (\<lambda>c. [c, newline]) ''bcdefghijx''"
    using stream_log_old(2) by (simp add: s(2) bytes_after_def)
  with st(2) run show ?thesis by blast
qed

text \<open>
  C12: The answer of a seek can be wrong when a client appends a line at the same time, because the
  code does not take the mutex for it: there is a run in which client 0 asks for command 1 from
  byte 0 and gets a text that is not the rest from command 1 on, neither as the device was at
  the ioctl nor as it is at the end.
\<close>

theorem device_seek_torn:
  "\<exists>st s r. log_of st = stream_log old_lines \<and>
    server_run (\<lambda>i. demo_client_env (device_file quiet_kernel)) (demo_client_env (device_file quiet_kernel)) (demo_server st) s \<and>
    seek_answers s = [r] \<and> seek_cmd (asked r) = 1 \<and> seek_off (asked r) = 0 \<and>
    (\<forall>k. answer r \<noteq> concat (drop 1 (log_cmds (stream_log (bytes_after old_lines (take k (history s)))))))"
proof -
  obtain st where st: "dev_ready st" "log_of st = stream_log old_lines" using old_device by blast
  from torn_run [OF this] obtain s where
    s: "server_exec (\<lambda>i. demo_client_env (device_file quiet_kernel)) (demo_client_env (device_file quiet_kernel))
      torn_events (demo_server st) = Some s" "history s = [(Client 1, [CHR ''x'', newline])]"
    "seek_answers s = [\<lparr>asked_by = 0, asked = \<lparr>appends_before = 0, seek_cmd = 1, seek_off = 0\<rparr>, appends_after = 1,
      answer = concat (map (\<lambda>c. [c, newline]) ''defghijx'')\<rparr>]" by blast
  have "bytes_after old_lines (take k (history s)) = (if k = 0 then old_lines else old_lines @ [CHR ''x'', newline])" for k
    by (cases k) (simp_all add: bytes_after_def s(2))
  then have other: "\<forall>k. concat (map (\<lambda>c. [c, newline]) ''defghijx'') \<noteq>
      concat (drop 1 (log_cmds (stream_log (bytes_after old_lines (take k (history s))))))"
    by (simp add: stream_log_old)
  let ?r = "\<lparr>asked_by = 0, asked = \<lparr>appends_before = 0, seek_cmd = 1, seek_off = 0\<rparr>, appends_after = 1,
      answer = concat (map (\<lambda>c. [c, newline]) ''defghijx'')\<rparr>"
  have "seek_cmd (asked ?r) = 1" "seek_off (asked ?r) = 0"
    "\<forall>k. answer ?r \<noteq> concat (drop 1 (log_cmds (stream_log (bytes_after old_lines (take k (history s))))))"
    using other by simp_all
  with st(2) server_exec_run [OF s(1)] s(3) show ?thesis by blast
qed

end
