(* ===== verification/Queue_Stailq.thy ===== *)
theory Queue_Stailq
  imports Queue_Interface
begin

text \<open>
  The singly-linked tail queues of \<^verbatim>\<open>queue.h\<close> (\<^verbatim>\<open>STAILQ_*\<close>), one definition per macro, and
  their interpretation of the queue interfaces. The second field of a head, \<^verbatim>\<open>stqh_last\<close>, is
  \<open>addr\<close> of the head; the entries have no second field.
\<close>

section \<open>Macros\<close>

definition STAILQ_FIRST :: "nat \<Rightarrow> qmem \<Rightarrow> ptr option" where
  "STAILQ_FIRST head m = get_cell (Head head) m"

definition STAILQ_NEXT :: "ptr \<Rightarrow> qmem \<Rightarrow> ptr option" where
  "STAILQ_NEXT elm m = do { l \<leftarrow> entry elm; get_cell l m }"

definition set_STAILQ_NEXT :: "ptr \<Rightarrow> ptr \<Rightarrow> qmem \<Rightarrow> qmem option" where
  "set_STAILQ_NEXT elm p m = do { l \<leftarrow> entry elm; set_cell l p m }"

definition STAILQ_EMPTY :: "nat \<Rightarrow> qmem \<Rightarrow> bool option" where
  "STAILQ_EMPTY head m = do { p \<leftarrow> STAILQ_FIRST head m; Some (p = NULL) }"

definition STAILQ_INIT :: "nat \<Rightarrow> qmem \<Rightarrow> qmem option" where
  "STAILQ_INIT head m = do {
     m1 \<leftarrow> set_cell (Head head) NULL m;
     set_addr (Head head) (Head head) m1
   }"

definition STAILQ_CONCAT :: "nat \<Rightarrow> nat \<Rightarrow> qmem \<Rightarrow> qmem option" where
  "STAILQ_CONCAT head1 head2 m = do {
     empty2 \<leftarrow> STAILQ_EMPTY head2 m;
     if \<not> empty2 then do {
       last1 \<leftarrow> get_addr (Head head1) m;
       first2 \<leftarrow> get_cell (Head head2) m;
       m1 \<leftarrow> set_cell last1 first2 m;
       last2 \<leftarrow> get_addr (Head head2) m1;
       m2 \<leftarrow> set_addr (Head head1) last2 m1;
       STAILQ_INIT head2 m2
     }
     else Some m
   }"

definition STAILQ_INSERT_AFTER :: "nat \<Rightarrow> ptr \<Rightarrow> ptr \<Rightarrow> qmem \<Rightarrow> qmem option" where
  "STAILQ_INSERT_AFTER head tqelm elm m = do {
     n \<leftarrow> STAILQ_NEXT tqelm m;
     l \<leftarrow> entry elm;
     m1 \<leftarrow> set_STAILQ_NEXT elm n m;
     m2 \<leftarrow> (if n = NULL then set_addr (Head head) l m1 else Some m1);
     set_STAILQ_NEXT tqelm elm m2
   }"

definition STAILQ_INSERT_HEAD :: "nat \<Rightarrow> ptr \<Rightarrow> qmem \<Rightarrow> qmem option" where
  "STAILQ_INSERT_HEAD head elm m = do {
     n \<leftarrow> STAILQ_FIRST head m;
     l \<leftarrow> entry elm;
     m1 \<leftarrow> set_STAILQ_NEXT elm n m;
     m2 \<leftarrow> (if n = NULL then set_addr (Head head) l m1 else Some m1);
     set_cell (Head head) elm m2
   }"

definition STAILQ_INSERT_TAIL :: "nat \<Rightarrow> ptr \<Rightarrow> qmem \<Rightarrow> qmem option" where
  "STAILQ_INSERT_TAIL head elm m = do {
     l \<leftarrow> entry elm;
     m1 \<leftarrow> set_STAILQ_NEXT elm NULL m;
     last \<leftarrow> get_addr (Head head) m1;
     m2 \<leftarrow> set_cell last elm m1;
     set_addr (Head head) l m2
   }"

definition STAILQ_LAST :: "nat \<Rightarrow> qmem \<Rightarrow> ptr option" where
  "STAILQ_LAST head m = do {
     empty \<leftarrow> STAILQ_EMPTY head m;
     if empty then Some NULL else do { last \<leftarrow> get_addr (Head head) m; containerof last }
   }"

definition STAILQ_REMOVE_AFTER :: "nat \<Rightarrow> ptr \<Rightarrow> qmem \<Rightarrow> qmem option" where
  "STAILQ_REMOVE_AFTER head elm m = do {
     n \<leftarrow> STAILQ_NEXT elm m;
     nn \<leftarrow> STAILQ_NEXT n m;
     l \<leftarrow> entry elm;
     m1 \<leftarrow> set_STAILQ_NEXT elm nn m;
     if nn = NULL then set_addr (Head head) l m1 else Some m1
   }"

definition STAILQ_REMOVE_HEAD :: "nat \<Rightarrow> qmem \<Rightarrow> qmem option" where
  "STAILQ_REMOVE_HEAD head m = do {
     p \<leftarrow> STAILQ_FIRST head m;
     n \<leftarrow> STAILQ_NEXT p m;
     m1 \<leftarrow> set_cell (Head head) n m;
     if n = NULL then set_addr (Head head) (Head head) m1 else Some m1
   }"

definition STAILQ_REMOVE :: "nat \<Rightarrow> ptr \<Rightarrow> qmem \<Rightarrow> qmem option" where
  "STAILQ_REMOVE head elm m = do {
     p \<leftarrow> STAILQ_FIRST head m;
     if p = elm then STAILQ_REMOVE_HEAD head m
     else do {
       curelm \<leftarrow> seek_prev STAILQ_NEXT elm p m;
       STAILQ_REMOVE_AFTER head curelm m
     }
   }"

definition STAILQ_SWAP :: "nat \<Rightarrow> nat \<Rightarrow> qmem \<Rightarrow> qmem option" where
  "STAILQ_SWAP head1 head2 m = do {
     swap_first \<leftarrow> STAILQ_FIRST head1 m;
     swap_last \<leftarrow> get_addr (Head head1) m;
     first2 \<leftarrow> STAILQ_FIRST head2 m;
     m1 \<leftarrow> set_cell (Head head1) first2 m;
     last2 \<leftarrow> get_addr (Head head2) m1;
     m2 \<leftarrow> set_addr (Head head1) last2 m1;
     m3 \<leftarrow> set_cell (Head head2) swap_first m2;
     m4 \<leftarrow> set_addr (Head head2) swap_last m3;
     empty1 \<leftarrow> STAILQ_EMPTY head1 m4;
     m5 \<leftarrow> (if empty1 then set_addr (Head head1) (Head head1) m4 else Some m4);
     empty2 \<leftarrow> STAILQ_EMPTY head2 m5;
     if empty2 then set_addr (Head head2) (Head head2) m5 else Some m5
   }"

definition STAILQ_FOREACH :: "'s body \<Rightarrow> nat \<Rightarrow> qmem \<times> 's \<Rightarrow> (qmem \<times> 's) option" where
  "STAILQ_FOREACH body head s = do {
     var \<leftarrow> STAILQ_FIRST head (fst s);
     foreach STAILQ_NEXT body var s
   }"

definition STAILQ_FOREACH_FROM :: "'s body \<Rightarrow> ptr \<Rightarrow> nat \<Rightarrow> qmem \<times> 's \<Rightarrow> (qmem \<times> 's) option" where
  "STAILQ_FOREACH_FROM body var head s = do {
     var1 \<leftarrow> (if var \<noteq> NULL then Some var else STAILQ_FIRST head (fst s));
     foreach STAILQ_NEXT body var1 s
   }"

definition STAILQ_FOREACH_SAFE :: "'s body \<Rightarrow> nat \<Rightarrow> qmem \<times> 's \<Rightarrow> (qmem \<times> 's) option" where
  "STAILQ_FOREACH_SAFE body head s = do {
     var \<leftarrow> STAILQ_FIRST head (fst s);
     foreach_safe STAILQ_NEXT body var s
   }"

definition STAILQ_FOREACH_FROM_SAFE :: "'s body \<Rightarrow> ptr \<Rightarrow> nat \<Rightarrow> qmem \<times> 's \<Rightarrow> (qmem \<times> 's) option" where
  "STAILQ_FOREACH_FROM_SAFE body var head s = do {
     var1 \<leftarrow> (if var \<noteq> NULL then Some var else STAILQ_FIRST head (fst s));
     foreach_safe STAILQ_NEXT body var1 s
   }"

section \<open>Correctness\<close>

text \<open>The tail pointer holds the address of the last first field of the chain.\<close>

definition stailq :: "qmem \<Rightarrow> nat \<Rightarrow> nat list \<Rightarrow> bool" where
  "stailq m h xs \<longleftrightarrow> seg m (Head h) xs NULL \<and> distinct xs \<and>
     addr m (Head h) = Some (tail_cell (Head h) xs)"

lemma STAILQ_access [simp]:
  "STAILQ_FIRST h m = cell m (Head h)" "STAILQ_NEXT (Some e) m = cell m (Elem e)"
  "STAILQ_NEXT None m = None"
  "alloc m (Elem e) \<Longrightarrow> set_STAILQ_NEXT (Some e) p m = Some (upd_cell (Elem e) p m)"
  "cell m (Head h) = Some p \<Longrightarrow> STAILQ_EMPTY h m = Some (p = NULL)"
  by (simp_all add: STAILQ_FIRST_def STAILQ_NEXT_def set_STAILQ_NEXT_def STAILQ_EMPTY_def)

lemma STAILQ_INIT_alloc [simp]:
  "alloc m (Head h) \<Longrightarrow> STAILQ_INIT h m = Some (upd_addr (Head h) (Head h) (upd_cell (Head h) NULL m))"
  by (simp add: STAILQ_INIT_def)

lemma stailq_alloc: "stailq m h xs \<Longrightarrow> alloc m (Head h)"
  by (auto simp: stailq_def dest: seg_alloc)

lemma stailq_insert_head:
  assumes "stailq m h xs" and "alloc m (Elem e)" and "e \<notin> set xs"
  shows "yields (STAILQ_INSERT_HEAD h (Some e) m) (cells h (e # xs)) m (\<lambda>m'. stailq m' h (e # xs))"
  using assms stailq_alloc [OF assms(1)]
  by (cases xs) (auto simp: STAILQ_INSERT_HEAD_def yields_def stailq_def cells_def)

lemma stailq_insert_after:
  assumes "stailq m h (xs @ a # ys)" and "alloc m (Elem e)" and "e \<notin> set (xs @ a # ys)"
  shows "yields (STAILQ_INSERT_AFTER h (Some a) (Some e) m) (cells h (e # xs @ a # ys)) m
    (\<lambda>m'. stailq m' h (xs @ a # e # ys))"
  using assms stailq_alloc [OF assms(1)]
  by (cases ys) (auto simp: STAILQ_INSERT_AFTER_def yields_def stailq_def cells_def)

lemma stailq_insert_tail:
  assumes "stailq m h xs" and "alloc m (Elem e)" and "e \<notin> set xs"
  shows "yields (STAILQ_INSERT_TAIL h (Some e) m) (cells h (e # xs)) m (\<lambda>m'. stailq m' h (xs @ [e]))"
  using assms stailq_alloc [OF assms(1)]
  by (cases xs rule: rev_cases) (auto simp: STAILQ_INSERT_TAIL_def yields_def stailq_def cells_def)

lemma stailq_remove_head:
  assumes "stailq m h (e # ys)"
  shows "yields (STAILQ_REMOVE_HEAD h m) (cells h (e # ys)) m (\<lambda>m'. stailq m' h ys)"
  using assms stailq_alloc [OF assms]
  by (cases ys) (auto simp: STAILQ_REMOVE_HEAD_def yields_def stailq_def cells_def)

lemma stailq_remove_after:
  assumes "stailq m h (xs @ a # e # ys)"
  shows "yields (STAILQ_REMOVE_AFTER h (Some a) m) (cells h (xs @ a # e # ys)) m
    (\<lambda>m'. stailq m' h (xs @ a # ys))"
  using assms stailq_alloc [OF assms]
  by (cases ys) (auto simp: STAILQ_REMOVE_AFTER_def yields_def stailq_def cells_def)

lemma stailq_remove:
  assumes "stailq m h (xs @ e # ys)"
  shows "yields (STAILQ_REMOVE h (Some e) m) (cells h (xs @ e # ys)) m (\<lambda>m'. stailq m' h (xs @ ys))"
proof (cases xs rule: rev_cases)
  case Nil
  with assms stailq_remove_head [of m h e ys] show ?thesis by (simp add: STAILQ_REMOVE_def stailq_def)
next
  case (snoc zs a)
  with assms have "seg m (Head h) (zs @ [a]) (Some e)" "Some e \<notin> Some ` set (zs @ [a])"
    by (auto simp: stailq_def)
  then obtain c where "cell m (Head h) = Some (Some c)" "c \<noteq> e"
    "seek_prev STAILQ_NEXT (Some e) (Some c) m = Some (Some a)"
    by (rule seek_from [of STAILQ_NEXT, rotated]) auto
  then have "STAILQ_REMOVE h (Some e) m = STAILQ_REMOVE_AFTER h (Some a) m"
    by (simp add: STAILQ_REMOVE_def)
  with stailq_remove_after [of m h zs a e ys] assms snoc show ?thesis by simp
qed

lemma stailq_concat:
  assumes "stailq m h1 xs" and "stailq m h2 ys" and "h1 \<noteq> h2" and "set xs \<inter> set ys = {}"
  shows "yields (STAILQ_CONCAT h1 h2 m) (cells h1 xs \<union> cells h2 ys) m
    (\<lambda>m'. stailq m' h1 (xs @ ys) \<and> stailq m' h2 [])"
  using assms stailq_alloc [OF assms(1)] stailq_alloc [OF assms(2)]
  by (cases ys; cases xs rule: rev_cases)
    (auto simp: STAILQ_CONCAT_def yields_def stailq_def cells_def)

lemma stailq_swap:
  assumes "stailq m h1 xs" and "stailq m h2 ys" and "h1 \<noteq> h2" and "set xs \<inter> set ys = {}"
  shows "yields (STAILQ_SWAP h1 h2 m) (cells h1 xs \<union> cells h2 ys) m
    (\<lambda>m'. stailq m' h1 ys \<and> stailq m' h2 xs)"
  using assms stailq_alloc [OF assms(1)] stailq_alloc [OF assms(2)]
  by (cases xs; cases ys) (auto simp: STAILQ_SWAP_def yields_def stailq_def cells_def)

lemma STAILQ_FOREACH_visits:
  assumes "stailq m h xs"
  shows "STAILQ_FOREACH visit_body h (m, vs) = Some (m, vs @ xs)"
proof -
  from assms obtain p where "cell m (Head h) = Some p" by (cases xs) (auto simp: stailq_def)
  with assms foreach_visit [of STAILQ_NEXT m "Head h" xs p vs] show ?thesis
    by (simp add: STAILQ_FOREACH_def stailq_def)
qed

lemma STAILQ_LAST_correct: "stailq m h xs \<Longrightarrow> STAILQ_LAST h m = Some (if xs = [] then NULL else Some (last xs))"
  by (cases xs) (auto simp: STAILQ_LAST_def stailq_def tail_cell_def)

section \<open>Interpretation\<close>

definition stailq_visit :: "nat \<Rightarrow> qmem \<Rightarrow> nat list option" where
  "stailq_visit h m = map_option snd (STAILQ_FOREACH visit_body h (m, []))"

definition stailq_api :: queue_api where
  "stailq_api = \<lparr>init_op = STAILQ_INIT, insert_head_op = STAILQ_INSERT_HEAD,
     insert_after_op = STAILQ_INSERT_AFTER, remove_op = STAILQ_REMOVE,
     concat_op = STAILQ_CONCAT, swap_op = STAILQ_SWAP, visit_op = stailq_visit\<rparr>"

definition stailq_fifo :: fifo_api where
  "stailq_fifo = \<lparr>enqueue_op = STAILQ_INSERT_TAIL, front_op = STAILQ_FIRST,
     dequeue_op = (\<lambda>h e. STAILQ_REMOVE_HEAD h)\<rparr>"

interpretation st: chained_queue stailq_api stailq STAILQ_NEXT
proof unfold_locales
  show "stailq m h xs \<Longrightarrow> distinct xs" "stailq m h xs \<Longrightarrow> alloc m (Head h)"
    "stailq m h xs \<Longrightarrow> seg m (Head h) xs NULL" for m h xs
    by (auto simp: stailq_def dest: seg_alloc)
  show "stailq m h xs \<Longrightarrow> agree (cells h xs) m m' \<Longrightarrow> stailq m' h xs" for m h xs m'
    by (simp add: stailq_def agree_seg agree_head)
  show "alloc m (Head h) \<Longrightarrow> yields (init_op stailq_api h m) {Head h} m (\<lambda>m'. stailq m' h [])" for m h
    by (simp add: stailq_api_def yields_def stailq_def)
  show "stailq m h xs \<Longrightarrow> visit_op stailq_api h m = Some xs" for m h xs
    by (simp add: stailq_api_def stailq_visit_def STAILQ_FOREACH_visits)
qed (simp_all add: stailq_api_def stailq_insert_head stailq_insert_after stailq_remove stailq_concat stailq_swap)

interpretation stf: tail_queue stailq_api stailq STAILQ_NEXT stailq_fifo
proof unfold_locales
  show "stailq m h xs \<Longrightarrow> alloc m (Elem e) \<Longrightarrow> e \<notin> set xs \<Longrightarrow>
    yields (enqueue_op stailq_fifo h (Some e) m) (cells h (e # xs)) m (\<lambda>m'. stailq m' h (xs @ [e]))"
    for m h xs e
    by (simp add: stailq_fifo_def stailq_insert_tail)
  show "stailq m h (x # xs) \<Longrightarrow>
    yields (dequeue_op stailq_fifo h (Some x) m) (cells h (x # xs)) m (\<lambda>m'. stailq m' h xs)" for m h x xs
    by (simp add: stailq_fifo_def stailq_remove_head)
  show "front_op stailq_fifo h m = cell m (Head h)" for h m
    by (simp add: stailq_fifo_def)
qed

end
