(* ===== verification/Queue_List.thy ===== *)
theory Queue_List
  imports Queue_Interface
begin

text \<open>
  The doubly-linked lists of \<^verbatim>\<open>queue.h\<close> (\<^verbatim>\<open>LIST_*\<close>), one definition per macro, and their
  interpretation of \<open>chained_queue\<close>. The second field of an entry, \<^verbatim>\<open>le_prev\<close>, is \<open>addr\<close> of the
  element; the heads have no second field.
\<close>

section \<open>Macros\<close>

definition LIST_FIRST :: "nat \<Rightarrow> qmem \<Rightarrow> ptr option" where
  "LIST_FIRST head m = get_cell (Head head) m"

definition LIST_NEXT :: "ptr \<Rightarrow> qmem \<Rightarrow> ptr option" where
  "LIST_NEXT elm m = do { l \<leftarrow> entry elm; get_cell l m }"

definition set_LIST_NEXT :: "ptr \<Rightarrow> ptr \<Rightarrow> qmem \<Rightarrow> qmem option" where
  "set_LIST_NEXT elm p m = do { l \<leftarrow> entry elm; set_cell l p m }"

definition le_prev :: "ptr \<Rightarrow> qmem \<Rightarrow> loc option" where
  "le_prev elm m = do { l \<leftarrow> entry elm; get_addr l m }"

definition set_le_prev :: "ptr \<Rightarrow> loc \<Rightarrow> qmem \<Rightarrow> qmem option" where
  "set_le_prev elm a m = do { l \<leftarrow> entry elm; set_addr l a m }"

definition LIST_EMPTY :: "nat \<Rightarrow> qmem \<Rightarrow> bool option" where
  "LIST_EMPTY head m = do { p \<leftarrow> LIST_FIRST head m; Some (p = NULL) }"

definition LIST_INIT :: "nat \<Rightarrow> qmem \<Rightarrow> qmem option" where
  "LIST_INIT head m = set_cell (Head head) NULL m"

definition LIST_CONCAT :: "nat \<Rightarrow> nat \<Rightarrow> qmem \<Rightarrow> qmem option" where
  "LIST_CONCAT head1 head2 m = do {
     curelm \<leftarrow> LIST_FIRST head1 m;
     first2 \<leftarrow> LIST_FIRST head2 m;
     if curelm = NULL then do {
       m1 \<leftarrow> set_cell (Head head1) first2 m;
       if first2 \<noteq> NULL then do {
         f \<leftarrow> LIST_FIRST head2 m1;
         m2 \<leftarrow> set_le_prev f (Head head1) m1;
         LIST_INIT head2 m2
       }
       else Some m1
     }
     else if first2 \<noteq> NULL then do {
       last1 \<leftarrow> seek_prev LIST_NEXT NULL curelm m;
       m1 \<leftarrow> set_LIST_NEXT last1 first2 m;
       l \<leftarrow> entry last1;
       f \<leftarrow> LIST_FIRST head2 m1;
       m2 \<leftarrow> set_le_prev f l m1;
       LIST_INIT head2 m2
     }
     else Some m
   }"

definition LIST_INSERT_AFTER :: "ptr \<Rightarrow> ptr \<Rightarrow> qmem \<Rightarrow> qmem option" where
  "LIST_INSERT_AFTER listelm elm m = do {
     n \<leftarrow> LIST_NEXT listelm m;
     ll \<leftarrow> entry listelm;
     l \<leftarrow> entry elm;
     m1 \<leftarrow> set_LIST_NEXT elm n m;
     m2 \<leftarrow> (if n \<noteq> NULL then do { n1 \<leftarrow> LIST_NEXT listelm m1; set_le_prev n1 l m1 } else Some m1);
     m3 \<leftarrow> set_LIST_NEXT listelm elm m2;
     set_le_prev elm ll m3
   }"

definition LIST_INSERT_BEFORE :: "ptr \<Rightarrow> ptr \<Rightarrow> qmem \<Rightarrow> qmem option" where
  "LIST_INSERT_BEFORE listelm elm m = do {
     l \<leftarrow> entry elm;
     p \<leftarrow> le_prev listelm m;
     m1 \<leftarrow> set_le_prev elm p m;
     m2 \<leftarrow> set_LIST_NEXT elm listelm m1;
     p2 \<leftarrow> le_prev listelm m2;
     m3 \<leftarrow> set_cell p2 elm m2;
     set_le_prev listelm l m3
   }"

definition LIST_INSERT_HEAD :: "nat \<Rightarrow> ptr \<Rightarrow> qmem \<Rightarrow> qmem option" where
  "LIST_INSERT_HEAD head elm m = do {
     n \<leftarrow> LIST_FIRST head m;
     l \<leftarrow> entry elm;
     m1 \<leftarrow> set_LIST_NEXT elm n m;
     m2 \<leftarrow> (if n \<noteq> NULL then do { f \<leftarrow> LIST_FIRST head m1; set_le_prev f l m1 } else Some m1);
     m3 \<leftarrow> set_cell (Head head) elm m2;
     set_le_prev elm (Head head) m3
   }"

definition LIST_PREV :: "ptr \<Rightarrow> nat \<Rightarrow> qmem \<Rightarrow> ptr option" where
  "LIST_PREV elm head m = do {
     p \<leftarrow> le_prev elm m;
     if p = Head head then Some NULL else containerof p
   }"

definition LIST_REMOVE :: "ptr \<Rightarrow> qmem \<Rightarrow> qmem option" where
  "LIST_REMOVE elm m = do {
     n \<leftarrow> LIST_NEXT elm m;
     m1 \<leftarrow> (if n \<noteq> NULL then do { p \<leftarrow> le_prev elm m; set_le_prev n p m } else Some m);
     p1 \<leftarrow> le_prev elm m1;
     n1 \<leftarrow> LIST_NEXT elm m1;
     set_cell p1 n1 m1
   }"

definition LIST_SWAP :: "nat \<Rightarrow> nat \<Rightarrow> qmem \<Rightarrow> qmem option" where
  "LIST_SWAP head1 head2 m = do {
     swap_tmp \<leftarrow> LIST_FIRST head1 m;
     first2 \<leftarrow> LIST_FIRST head2 m;
     m1 \<leftarrow> set_cell (Head head1) first2 m;
     m2 \<leftarrow> set_cell (Head head2) swap_tmp m1;
     t1 \<leftarrow> LIST_FIRST head1 m2;
     m3 \<leftarrow> (if t1 \<noteq> NULL then set_le_prev t1 (Head head1) m2 else Some m2);
     t2 \<leftarrow> LIST_FIRST head2 m3;
     if t2 \<noteq> NULL then set_le_prev t2 (Head head2) m3 else Some m3
   }"

definition LIST_FOREACH :: "'s body \<Rightarrow> nat \<Rightarrow> qmem \<times> 's \<Rightarrow> (qmem \<times> 's) option" where
  "LIST_FOREACH body head s = do {
     var \<leftarrow> LIST_FIRST head (fst s);
     foreach LIST_NEXT body var s
   }"

definition LIST_FOREACH_FROM :: "'s body \<Rightarrow> ptr \<Rightarrow> nat \<Rightarrow> qmem \<times> 's \<Rightarrow> (qmem \<times> 's) option" where
  "LIST_FOREACH_FROM body var head s = do {
     var1 \<leftarrow> (if var \<noteq> NULL then Some var else LIST_FIRST head (fst s));
     foreach LIST_NEXT body var1 s
   }"

definition LIST_FOREACH_SAFE :: "'s body \<Rightarrow> nat \<Rightarrow> qmem \<times> 's \<Rightarrow> (qmem \<times> 's) option" where
  "LIST_FOREACH_SAFE body head s = do {
     var \<leftarrow> LIST_FIRST head (fst s);
     foreach_safe LIST_NEXT body var s
   }"

definition LIST_FOREACH_FROM_SAFE :: "'s body \<Rightarrow> ptr \<Rightarrow> nat \<Rightarrow> qmem \<times> 's \<Rightarrow> (qmem \<times> 's) option" where
  "LIST_FOREACH_FROM_SAFE body var head s = do {
     var1 \<leftarrow> (if var \<noteq> NULL then Some var else LIST_FIRST head (fst s));
     foreach_safe LIST_NEXT body var1 s
   }"

text \<open>The consistency checks of a kernel built with \<^verbatim>\<open>INVARIANTS\<close>, empty in other builds: whether
  the check passes, where the macro panics if it does not.\<close>

definition QMD_LIST_CHECK_HEAD :: "nat \<Rightarrow> qmem \<Rightarrow> bool option" where
  "QMD_LIST_CHECK_HEAD head m = do {
     f \<leftarrow> LIST_FIRST head m;
     if f \<noteq> NULL then do { p \<leftarrow> le_prev f m; Some (p = Head head) } else Some True
   }"

definition QMD_LIST_CHECK_NEXT :: "ptr \<Rightarrow> qmem \<Rightarrow> bool option" where
  "QMD_LIST_CHECK_NEXT elm m = do {
     n \<leftarrow> LIST_NEXT elm m;
     l \<leftarrow> entry elm;
     if n \<noteq> NULL then do { p \<leftarrow> le_prev n m; Some (p = l) } else Some True
   }"

definition QMD_LIST_CHECK_PREV :: "ptr \<Rightarrow> qmem \<Rightarrow> bool option" where
  "QMD_LIST_CHECK_PREV elm m = do {
     p \<leftarrow> le_prev elm m;
     e \<leftarrow> get_cell p m;
     Some (e = elm)
   }"

section \<open>Correctness\<close>

text \<open>The second field of each element holds the address of the first field that points to it.\<close>

definition dlist :: "qmem \<Rightarrow> nat \<Rightarrow> nat list \<Rightarrow> bool" where
  "dlist m h xs \<longleftrightarrow> seg m (Head h) xs NULL \<and> distinct xs \<and> backs m (Head h) xs"

lemma LIST_access [simp]:
  "LIST_FIRST h m = cell m (Head h)" "LIST_NEXT (Some e) m = cell m (Elem e)"
  "LIST_NEXT None m = None"
  "alloc m (Elem e) \<Longrightarrow> set_LIST_NEXT (Some e) p m = Some (upd_cell (Elem e) p m)"
  "alloc m (Elem e) \<Longrightarrow> le_prev (Some e) m = addr m (Elem e)"
  "alloc m (Elem e) \<Longrightarrow> set_le_prev (Some e) a m = Some (upd_addr (Elem e) a m)"
  by (simp_all add: LIST_FIRST_def LIST_NEXT_def set_LIST_NEXT_def le_prev_def set_le_prev_def)

lemma LIST_INIT_alloc [simp]: "alloc m (Head h) \<Longrightarrow> LIST_INIT h m = Some (upd_cell (Head h) NULL m)"
  by (simp add: LIST_INIT_def)

lemma dlist_alloc: "dlist m h xs \<Longrightarrow> alloc m (Head h)"
  by (auto simp: dlist_def dest: seg_alloc)

lemma dlist_insert_head:
  assumes "dlist m h xs" and "alloc m (Elem e)" and "e \<notin> set xs"
  shows "yields (LIST_INSERT_HEAD h (Some e) m) (cells h (e # xs)) m (\<lambda>m'. dlist m' h (e # xs))"
  using assms dlist_alloc [OF assms(1)] seg_first_alloc
  by (cases xs) (auto simp: LIST_INSERT_HEAD_def yields_def dlist_def cells_def)

lemma dlist_insert_after:
  assumes "dlist m h (xs @ a # ys)" and "alloc m (Elem e)" and "e \<notin> set (xs @ a # ys)"
  shows "yields (LIST_INSERT_AFTER (Some a) (Some e) m) (cells h (e # xs @ a # ys)) m
    (\<lambda>m'. dlist m' h (xs @ a # e # ys))"
  using assms dlist_alloc [OF assms(1)] seg_first_alloc
  by (cases ys) (auto simp: LIST_INSERT_AFTER_def yields_def dlist_def cells_def)

lemma dlist_remove:
  assumes "dlist m h (xs @ e # ys)"
  shows "yields (LIST_REMOVE (Some e) m) (cells h (xs @ e # ys)) m (\<lambda>m'. dlist m' h (xs @ ys))"
  using assms dlist_alloc [OF assms] seg_first_alloc
  by (cases ys; cases xs rule: rev_cases) (auto simp: LIST_REMOVE_def yields_def dlist_def cells_def)

lemma dlist_concat:
  assumes "dlist m h1 xs" and "dlist m h2 ys" and "h1 \<noteq> h2" and "set xs \<inter> set ys = {}"
  shows "yields (LIST_CONCAT h1 h2 m) (cells h1 xs \<union> cells h2 ys) m
    (\<lambda>m'. dlist m' h1 (xs @ ys) \<and> dlist m' h2 [])"
proof (cases ys)
  case Nil
  with assms show ?thesis by (cases xs) (auto simp: LIST_CONCAT_def yields_def dlist_def cells_def)
next
  case (Cons y zs)
  with assms(2) have y: "alloc m (Elem y)" by (auto simp: dlist_def intro: seg_first_alloc)
  show ?thesis
  proof (cases xs rule: rev_cases)
    case Nil
    with Cons y assms show ?thesis by (auto simp: LIST_CONCAT_def yields_def dlist_def cells_def)
  next
    case (snoc us l)
    with assms(1) have "seg m (Head h1) (us @ [l]) NULL" "NULL \<notin> Some ` set (us @ [l])"
      by (auto simp: dlist_def)
    then obtain c where c: "cell m (Head h1) = Some (Some c)"
      "seek_prev LIST_NEXT NULL (Some c) m = Some (Some l)"
      by (rule seek_from [of LIST_NEXT, rotated]) auto
    from assms snoc Cons c y have "LIST_CONCAT h1 h2 m =
      Some (upd_cell (Head h2) NULL (upd_addr (Elem y) (Elem l) (upd_cell (Elem l) (Some y) m)))"
      by (auto simp: LIST_CONCAT_def dlist_def)
    with assms snoc Cons show ?thesis by (auto simp: yields_def dlist_def cells_def)
  qed
qed

lemma dlist_swap:
  assumes "dlist m h1 xs" and "dlist m h2 ys" and "h1 \<noteq> h2" and "set xs \<inter> set ys = {}"
  shows "yields (LIST_SWAP h1 h2 m) (cells h1 xs \<union> cells h2 ys) m
    (\<lambda>m'. dlist m' h1 ys \<and> dlist m' h2 xs)"
  using assms seg_first_alloc
  by (cases xs; cases ys) (auto simp: LIST_SWAP_def yields_def dlist_def cells_def)

text \<open>Inserting before an element is inserting after the one before it, or at the head.\<close>

lemma LIST_INSERT_BEFORE_after:
  assumes "dlist m h (xs @ a # b # ys)" and "alloc m (Elem e)" and "e \<notin> set (xs @ a # b # ys)"
  shows "LIST_INSERT_BEFORE (Some b) (Some e) m = LIST_INSERT_AFTER (Some a) (Some e) m"
  using assms seg_first_alloc
  by (auto simp: LIST_INSERT_BEFORE_def LIST_INSERT_AFTER_def dlist_def fun_upd_twist intro!: qmem_eqI)

lemma LIST_INSERT_BEFORE_head:
  assumes "dlist m h (b # ys)" and "alloc m (Elem e)" and "e \<notin> set (b # ys)"
  shows "LIST_INSERT_BEFORE (Some b) (Some e) m = LIST_INSERT_HEAD h (Some e) m"
  using assms seg_first_alloc
  by (auto simp: LIST_INSERT_BEFORE_def LIST_INSERT_HEAD_def dlist_def fun_upd_twist intro!: qmem_eqI)

lemma dlist_insert_before:
  assumes "dlist m h (xs @ b # ys)" and "alloc m (Elem e)" and "e \<notin> set (xs @ b # ys)"
  shows "yields (LIST_INSERT_BEFORE (Some b) (Some e) m) (cells h (e # xs @ b # ys)) m
    (\<lambda>m'. dlist m' h (xs @ e # b # ys))"
proof (cases xs rule: rev_cases)
  case Nil
  with assms show ?thesis
    using LIST_INSERT_BEFORE_head [of m h b ys e] dlist_insert_head [of m h "b # ys" e] by simp
next
  case (snoc zs a)
  with assms show ?thesis
    using LIST_INSERT_BEFORE_after [of m h zs a b ys e] dlist_insert_after [of m h zs a "b # ys" e] by simp
qed

lemma LIST_PREV_correct:
  "dlist m h (x # xs) \<Longrightarrow> LIST_PREV (Some x) h m = Some NULL"
  "dlist m h (xs @ a # x # ys) \<Longrightarrow> LIST_PREV (Some x) h m = Some (Some a)"
  using seg_first_alloc by (auto simp: LIST_PREV_def dlist_def)

lemma LIST_FOREACH_visits:
  assumes "dlist m h xs"
  shows "LIST_FOREACH visit_body h (m, vs) = Some (m, vs @ xs)"
proof -
  from assms obtain p where "cell m (Head h) = Some p" by (cases xs) (auto simp: dlist_def)
  with assms foreach_visit [of LIST_NEXT m "Head h" xs p vs] show ?thesis
    by (simp add: LIST_FOREACH_def dlist_def)
qed

text \<open>The checks hold on every well-formed list.\<close>

lemma LIST_checks:
  assumes "dlist m h xs"
  shows "QMD_LIST_CHECK_HEAD h m = Some True"
    and "e \<in> set xs \<Longrightarrow> QMD_LIST_CHECK_NEXT (Some e) m = Some True"
    and "e \<in> set xs \<Longrightarrow> QMD_LIST_CHECK_PREV (Some e) m = Some True"
proof -
  show "QMD_LIST_CHECK_HEAD h m = Some True"
    using assms seg_first_alloc by (cases xs) (auto simp: QMD_LIST_CHECK_HEAD_def dlist_def)
  assume "e \<in> set xs"
  then obtain us ys where xs: "xs = us @ e # ys" by (meson split_list)
  show "QMD_LIST_CHECK_NEXT (Some e) m = Some True"
    using assms seg_first_alloc unfolding xs by (cases ys) (auto simp: QMD_LIST_CHECK_NEXT_def dlist_def)
  show "QMD_LIST_CHECK_PREV (Some e) m = Some True"
    using assms seg_first_alloc seg_tail_cell unfolding xs
    by (auto simp: QMD_LIST_CHECK_PREV_def dlist_def)
qed

section \<open>Interpretation\<close>

definition dlist_visit :: "nat \<Rightarrow> qmem \<Rightarrow> nat list option" where
  "dlist_visit h m = map_option snd (LIST_FOREACH visit_body h (m, []))"

definition dlist_api :: queue_api where
  "dlist_api = \<lparr>init_op = LIST_INIT, insert_head_op = LIST_INSERT_HEAD,
     insert_after_op = (\<lambda>h. LIST_INSERT_AFTER), remove_op = (\<lambda>h. LIST_REMOVE),
     concat_op = LIST_CONCAT, swap_op = LIST_SWAP, visit_op = dlist_visit\<rparr>"

interpretation dl: chained_queue dlist_api dlist LIST_NEXT
proof unfold_locales
  show "dlist m h xs \<Longrightarrow> distinct xs" "dlist m h xs \<Longrightarrow> alloc m (Head h)"
    "dlist m h xs \<Longrightarrow> seg m (Head h) xs NULL" for m h xs
    by (auto simp: dlist_def dest: seg_alloc)
  show "dlist m h xs \<Longrightarrow> agree (cells h xs) m m' \<Longrightarrow> dlist m' h xs" for m h xs m'
    by (simp add: dlist_def agree_seg agree_backs)
  show "alloc m (Head h) \<Longrightarrow> yields (init_op dlist_api h m) {Head h} m (\<lambda>m'. dlist m' h [])" for m h
    by (simp add: dlist_api_def yields_def dlist_def)
  show "dlist m h xs \<Longrightarrow> visit_op dlist_api h m = Some xs" for m h xs
    by (simp add: dlist_api_def dlist_visit_def LIST_FOREACH_visits)
qed (simp_all add: dlist_api_def dlist_insert_head dlist_insert_after dlist_remove dlist_concat dlist_swap)

end
