(* ===== verification/Queue_Tailq.thy ===== *)
theory Queue_Tailq
  imports Queue_Interface
begin

text \<open>
  The doubly-linked tail queues of \<^verbatim>\<open>queue.h\<close> (\<^verbatim>\<open>TAILQ_*\<close>), one definition per macro, and
  their interpretation of the queue interfaces. The second field, \<open>addr\<close>, is \<^verbatim>\<open>tqh_last\<close> in a
  head and \<^verbatim>\<open>tqe_prev\<close> in an entry. The casts of \<^verbatim>\<open>TAILQ_LAST\<close> and \<^verbatim>\<open>TAILQ_PREV\<close> read the
  location that a second field points to as a head, whose second field in turn points to the
  pointer to the element.
\<close>

section \<open>Macros\<close>

definition TAILQ_FIRST :: "nat \<Rightarrow> qmem \<Rightarrow> ptr option" where
  "TAILQ_FIRST head m = get_cell (Head head) m"

definition TAILQ_NEXT :: "ptr \<Rightarrow> qmem \<Rightarrow> ptr option" where
  "TAILQ_NEXT elm m = do { l \<leftarrow> entry elm; get_cell l m }"

definition set_TAILQ_NEXT :: "ptr \<Rightarrow> ptr \<Rightarrow> qmem \<Rightarrow> qmem option" where
  "set_TAILQ_NEXT elm p m = do { l \<leftarrow> entry elm; set_cell l p m }"

definition tqe_prev :: "ptr \<Rightarrow> qmem \<Rightarrow> loc option" where
  "tqe_prev elm m = do { l \<leftarrow> entry elm; get_addr l m }"

definition set_tqe_prev :: "ptr \<Rightarrow> loc \<Rightarrow> qmem \<Rightarrow> qmem option" where
  "set_tqe_prev elm a m = do { l \<leftarrow> entry elm; set_addr l a m }"

definition TAILQ_EMPTY :: "nat \<Rightarrow> qmem \<Rightarrow> bool option" where
  "TAILQ_EMPTY head m = do { p \<leftarrow> TAILQ_FIRST head m; Some (p = NULL) }"

definition TAILQ_INIT :: "nat \<Rightarrow> qmem \<Rightarrow> qmem option" where
  "TAILQ_INIT head m = do {
     m1 \<leftarrow> set_cell (Head head) NULL m;
     set_addr (Head head) (Head head) m1
   }"

definition TAILQ_CONCAT :: "nat \<Rightarrow> nat \<Rightarrow> qmem \<Rightarrow> qmem option" where
  "TAILQ_CONCAT head1 head2 m = do {
     empty2 \<leftarrow> TAILQ_EMPTY head2 m;
     if \<not> empty2 then do {
       last1 \<leftarrow> get_addr (Head head1) m;
       first2 \<leftarrow> TAILQ_FIRST head2 m;
       m1 \<leftarrow> set_cell last1 first2 m;
       f \<leftarrow> TAILQ_FIRST head2 m1;
       l \<leftarrow> get_addr (Head head1) m1;
       m2 \<leftarrow> set_tqe_prev f l m1;
       last2 \<leftarrow> get_addr (Head head2) m2;
       m3 \<leftarrow> set_addr (Head head1) last2 m2;
       TAILQ_INIT head2 m3
     }
     else Some m
   }"

definition TAILQ_INSERT_AFTER :: "nat \<Rightarrow> ptr \<Rightarrow> ptr \<Rightarrow> qmem \<Rightarrow> qmem option" where
  "TAILQ_INSERT_AFTER head listelm elm m = do {
     n \<leftarrow> TAILQ_NEXT listelm m;
     ll \<leftarrow> entry listelm;
     l \<leftarrow> entry elm;
     m1 \<leftarrow> set_TAILQ_NEXT elm n m;
     m2 \<leftarrow> (if n \<noteq> NULL then do { n1 \<leftarrow> TAILQ_NEXT elm m1; set_tqe_prev n1 l m1 }
            else set_addr (Head head) l m1);
     m3 \<leftarrow> set_TAILQ_NEXT listelm elm m2;
     set_tqe_prev elm ll m3
   }"

definition TAILQ_INSERT_BEFORE :: "ptr \<Rightarrow> ptr \<Rightarrow> qmem \<Rightarrow> qmem option" where
  "TAILQ_INSERT_BEFORE listelm elm m = do {
     l \<leftarrow> entry elm;
     p \<leftarrow> tqe_prev listelm m;
     m1 \<leftarrow> set_tqe_prev elm p m;
     m2 \<leftarrow> set_TAILQ_NEXT elm listelm m1;
     p2 \<leftarrow> tqe_prev listelm m2;
     m3 \<leftarrow> set_cell p2 elm m2;
     set_tqe_prev listelm l m3
   }"

definition TAILQ_INSERT_HEAD :: "nat \<Rightarrow> ptr \<Rightarrow> qmem \<Rightarrow> qmem option" where
  "TAILQ_INSERT_HEAD head elm m = do {
     n \<leftarrow> TAILQ_FIRST head m;
     l \<leftarrow> entry elm;
     m1 \<leftarrow> set_TAILQ_NEXT elm n m;
     m2 \<leftarrow> (if n \<noteq> NULL then do { f \<leftarrow> TAILQ_FIRST head m1; set_tqe_prev f l m1 }
            else set_addr (Head head) l m1);
     m3 \<leftarrow> set_cell (Head head) elm m2;
     set_tqe_prev elm (Head head) m3
   }"

definition TAILQ_INSERT_TAIL :: "nat \<Rightarrow> ptr \<Rightarrow> qmem \<Rightarrow> qmem option" where
  "TAILQ_INSERT_TAIL head elm m = do {
     l \<leftarrow> entry elm;
     m1 \<leftarrow> set_TAILQ_NEXT elm NULL m;
     last \<leftarrow> get_addr (Head head) m1;
     m2 \<leftarrow> set_tqe_prev elm last m1;
     last2 \<leftarrow> get_addr (Head head) m2;
     m3 \<leftarrow> set_cell last2 elm m2;
     set_addr (Head head) l m3
   }"

definition TAILQ_LAST :: "nat \<Rightarrow> qmem \<Rightarrow> ptr option" where
  "TAILQ_LAST head m = do {
     last \<leftarrow> get_addr (Head head) m;
     p \<leftarrow> get_addr last m;
     get_cell p m
   }"

definition TAILQ_PREV :: "ptr \<Rightarrow> qmem \<Rightarrow> ptr option" where
  "TAILQ_PREV elm m = do {
     prev \<leftarrow> tqe_prev elm m;
     p \<leftarrow> get_addr prev m;
     get_cell p m
   }"

definition TAILQ_REMOVE :: "nat \<Rightarrow> ptr \<Rightarrow> qmem \<Rightarrow> qmem option" where
  "TAILQ_REMOVE head elm m = do {
     n \<leftarrow> TAILQ_NEXT elm m;
     p \<leftarrow> tqe_prev elm m;
     m1 \<leftarrow> (if n \<noteq> NULL then set_tqe_prev n p m else set_addr (Head head) p m);
     p1 \<leftarrow> tqe_prev elm m1;
     n1 \<leftarrow> TAILQ_NEXT elm m1;
     set_cell p1 n1 m1
   }"

definition TAILQ_SWAP :: "nat \<Rightarrow> nat \<Rightarrow> qmem \<Rightarrow> qmem option" where
  "TAILQ_SWAP head1 head2 m = do {
     swap_first \<leftarrow> TAILQ_FIRST head1 m;
     swap_last \<leftarrow> get_addr (Head head1) m;
     first2 \<leftarrow> TAILQ_FIRST head2 m;
     m1 \<leftarrow> set_cell (Head head1) first2 m;
     last2 \<leftarrow> get_addr (Head head2) m1;
     m2 \<leftarrow> set_addr (Head head1) last2 m1;
     m3 \<leftarrow> set_cell (Head head2) swap_first m2;
     m4 \<leftarrow> set_addr (Head head2) swap_last m3;
     f1 \<leftarrow> TAILQ_FIRST head1 m4;
     m5 \<leftarrow> (if f1 \<noteq> NULL then set_tqe_prev f1 (Head head1) m4 else set_addr (Head head1) (Head head1) m4);
     f2 \<leftarrow> TAILQ_FIRST head2 m5;
     if f2 \<noteq> NULL then set_tqe_prev f2 (Head head2) m5 else set_addr (Head head2) (Head head2) m5
   }"

definition TAILQ_FOREACH :: "'s body \<Rightarrow> nat \<Rightarrow> qmem \<times> 's \<Rightarrow> (qmem \<times> 's) option" where
  "TAILQ_FOREACH body head s = do {
     var \<leftarrow> TAILQ_FIRST head (fst s);
     foreach TAILQ_NEXT body var s
   }"

definition TAILQ_FOREACH_FROM :: "'s body \<Rightarrow> ptr \<Rightarrow> nat \<Rightarrow> qmem \<times> 's \<Rightarrow> (qmem \<times> 's) option" where
  "TAILQ_FOREACH_FROM body var head s = do {
     var1 \<leftarrow> (if var \<noteq> NULL then Some var else TAILQ_FIRST head (fst s));
     foreach TAILQ_NEXT body var1 s
   }"

definition TAILQ_FOREACH_SAFE :: "'s body \<Rightarrow> nat \<Rightarrow> qmem \<times> 's \<Rightarrow> (qmem \<times> 's) option" where
  "TAILQ_FOREACH_SAFE body head s = do {
     var \<leftarrow> TAILQ_FIRST head (fst s);
     foreach_safe TAILQ_NEXT body var s
   }"

definition TAILQ_FOREACH_FROM_SAFE :: "'s body \<Rightarrow> ptr \<Rightarrow> nat \<Rightarrow> qmem \<times> 's \<Rightarrow> (qmem \<times> 's) option" where
  "TAILQ_FOREACH_FROM_SAFE body var head s = do {
     var1 \<leftarrow> (if var \<noteq> NULL then Some var else TAILQ_FIRST head (fst s));
     foreach_safe TAILQ_NEXT body var1 s
   }"

definition TAILQ_FOREACH_REVERSE :: "'s body \<Rightarrow> nat \<Rightarrow> qmem \<times> 's \<Rightarrow> (qmem \<times> 's) option" where
  "TAILQ_FOREACH_REVERSE body head s = do {
     var \<leftarrow> TAILQ_LAST head (fst s);
     foreach TAILQ_PREV body var s
   }"

definition TAILQ_FOREACH_REVERSE_FROM :: "'s body \<Rightarrow> ptr \<Rightarrow> nat \<Rightarrow> qmem \<times> 's \<Rightarrow> (qmem \<times> 's) option" where
  "TAILQ_FOREACH_REVERSE_FROM body var head s = do {
     var1 \<leftarrow> (if var \<noteq> NULL then Some var else TAILQ_LAST head (fst s));
     foreach TAILQ_PREV body var1 s
   }"

definition TAILQ_FOREACH_REVERSE_SAFE :: "'s body \<Rightarrow> nat \<Rightarrow> qmem \<times> 's \<Rightarrow> (qmem \<times> 's) option" where
  "TAILQ_FOREACH_REVERSE_SAFE body head s = do {
     var \<leftarrow> TAILQ_LAST head (fst s);
     foreach_safe TAILQ_PREV body var s
   }"

definition TAILQ_FOREACH_REVERSE_FROM_SAFE ::
    "'s body \<Rightarrow> ptr \<Rightarrow> nat \<Rightarrow> qmem \<times> 's \<Rightarrow> (qmem \<times> 's) option" where
  "TAILQ_FOREACH_REVERSE_FROM_SAFE body var head s = do {
     var1 \<leftarrow> (if var \<noteq> NULL then Some var else TAILQ_LAST head (fst s));
     foreach_safe TAILQ_PREV body var1 s
   }"

text \<open>The consistency checks of a kernel built with \<^verbatim>\<open>INVARIANTS\<close>, empty in other builds: whether
  the check passes, where the macro panics if it does not.\<close>

definition QMD_TAILQ_CHECK_HEAD :: "nat \<Rightarrow> qmem \<Rightarrow> bool option" where
  "QMD_TAILQ_CHECK_HEAD head m = do {
     f \<leftarrow> TAILQ_FIRST head m;
     if f \<noteq> NULL then do { p \<leftarrow> tqe_prev f m; Some (p = Head head) } else Some True
   }"

definition QMD_TAILQ_CHECK_TAIL :: "nat \<Rightarrow> qmem \<Rightarrow> bool option" where
  "QMD_TAILQ_CHECK_TAIL head m = do {
     last \<leftarrow> get_addr (Head head) m;
     p \<leftarrow> get_cell last m;
     Some (p = NULL)
   }"

definition QMD_TAILQ_CHECK_NEXT :: "ptr \<Rightarrow> qmem \<Rightarrow> bool option" where
  "QMD_TAILQ_CHECK_NEXT elm m = do {
     n \<leftarrow> TAILQ_NEXT elm m;
     l \<leftarrow> entry elm;
     if n \<noteq> NULL then do { p \<leftarrow> tqe_prev n m; Some (p = l) } else Some True
   }"

definition QMD_TAILQ_CHECK_PREV :: "ptr \<Rightarrow> qmem \<Rightarrow> bool option" where
  "QMD_TAILQ_CHECK_PREV elm m = do {
     p \<leftarrow> tqe_prev elm m;
     e \<leftarrow> get_cell p m;
     Some (e = elm)
   }"

section \<open>Correctness\<close>

definition tailq :: "qmem \<Rightarrow> nat \<Rightarrow> nat list \<Rightarrow> bool" where
  "tailq m h xs \<longleftrightarrow> seg m (Head h) xs NULL \<and> distinct xs \<and> backs m (Head h) xs \<and>
     addr m (Head h) = Some (tail_cell (Head h) xs)"

lemma TAILQ_access [simp]:
  "TAILQ_FIRST h m = cell m (Head h)" "TAILQ_NEXT (Some e) m = cell m (Elem e)"
  "TAILQ_NEXT None m = None"
  "alloc m (Elem e) \<Longrightarrow> set_TAILQ_NEXT (Some e) p m = Some (upd_cell (Elem e) p m)"
  "alloc m (Elem e) \<Longrightarrow> tqe_prev (Some e) m = addr m (Elem e)"
  "alloc m (Elem e) \<Longrightarrow> set_tqe_prev (Some e) a m = Some (upd_addr (Elem e) a m)"
  "cell m (Head h) = Some p \<Longrightarrow> TAILQ_EMPTY h m = Some (p = NULL)"
  by (simp_all add: TAILQ_FIRST_def TAILQ_NEXT_def set_TAILQ_NEXT_def tqe_prev_def set_tqe_prev_def
      TAILQ_EMPTY_def)

lemma TAILQ_INIT_alloc [simp]:
  "alloc m (Head h) \<Longrightarrow> TAILQ_INIT h m = Some (upd_addr (Head h) (Head h) (upd_cell (Head h) NULL m))"
  by (simp add: TAILQ_INIT_def)

lemma tailq_alloc: "tailq m h xs \<Longrightarrow> alloc m (Head h)"
  by (auto simp: tailq_def dest: seg_alloc)

lemma tailq_insert_head:
  assumes "tailq m h xs" and "alloc m (Elem e)" and "e \<notin> set xs"
  shows "yields (TAILQ_INSERT_HEAD h (Some e) m) (cells h (e # xs)) m (\<lambda>m'. tailq m' h (e # xs))"
  using assms tailq_alloc [OF assms(1)] seg_first_alloc
  by (cases xs) (auto simp: TAILQ_INSERT_HEAD_def yields_def tailq_def cells_def)

lemma tailq_insert_after:
  assumes "tailq m h (xs @ a # ys)" and "alloc m (Elem e)" and "e \<notin> set (xs @ a # ys)"
  shows "yields (TAILQ_INSERT_AFTER h (Some a) (Some e) m) (cells h (e # xs @ a # ys)) m
    (\<lambda>m'. tailq m' h (xs @ a # e # ys))"
  using assms tailq_alloc [OF assms(1)] seg_first_alloc
  by (cases ys) (auto simp: TAILQ_INSERT_AFTER_def yields_def tailq_def cells_def)

lemma tailq_insert_tail:
  assumes "tailq m h xs" and "alloc m (Elem e)" and "e \<notin> set xs"
  shows "yields (TAILQ_INSERT_TAIL h (Some e) m) (cells h (e # xs)) m (\<lambda>m'. tailq m' h (xs @ [e]))"
  using assms tailq_alloc [OF assms(1)]
  by (cases xs rule: rev_cases) (auto simp: TAILQ_INSERT_TAIL_def yields_def tailq_def cells_def)

lemma tailq_remove:
  assumes "tailq m h (xs @ e # ys)"
  shows "yields (TAILQ_REMOVE h (Some e) m) (cells h (xs @ e # ys)) m (\<lambda>m'. tailq m' h (xs @ ys))"
  using assms tailq_alloc [OF assms] seg_first_alloc
  by (cases ys; cases xs rule: rev_cases) (auto simp: TAILQ_REMOVE_def yields_def tailq_def cells_def)

lemma tailq_concat:
  assumes "tailq m h1 xs" and "tailq m h2 ys" and "h1 \<noteq> h2" and "set xs \<inter> set ys = {}"
  shows "yields (TAILQ_CONCAT h1 h2 m) (cells h1 xs \<union> cells h2 ys) m
    (\<lambda>m'. tailq m' h1 (xs @ ys) \<and> tailq m' h2 [])"
  using assms tailq_alloc [OF assms(1)] tailq_alloc [OF assms(2)] seg_first_alloc
  by (cases ys; cases xs rule: rev_cases) (auto simp: TAILQ_CONCAT_def yields_def tailq_def cells_def)

lemma tailq_swap:
  assumes "tailq m h1 xs" and "tailq m h2 ys" and "h1 \<noteq> h2" and "set xs \<inter> set ys = {}"
  shows "yields (TAILQ_SWAP h1 h2 m) (cells h1 xs \<union> cells h2 ys) m
    (\<lambda>m'. tailq m' h1 ys \<and> tailq m' h2 xs)"
  using assms tailq_alloc [OF assms(1)] tailq_alloc [OF assms(2)] seg_first_alloc
  by (cases xs; cases ys) (auto simp: TAILQ_SWAP_def yields_def tailq_def cells_def)

text \<open>Inserting before an element is inserting after the one before it, or at the head.\<close>

lemma TAILQ_INSERT_BEFORE_after:
  assumes "tailq m h (xs @ a # b # ys)" and "alloc m (Elem e)" and "e \<notin> set (xs @ a # b # ys)"
  shows "TAILQ_INSERT_BEFORE (Some b) (Some e) m = TAILQ_INSERT_AFTER h (Some a) (Some e) m"
  using assms seg_first_alloc
  by (auto simp: TAILQ_INSERT_BEFORE_def TAILQ_INSERT_AFTER_def tailq_def fun_upd_twist intro!: qmem_eqI)

lemma TAILQ_INSERT_BEFORE_head:
  assumes "tailq m h (b # ys)" and "alloc m (Elem e)" and "e \<notin> set (b # ys)"
  shows "TAILQ_INSERT_BEFORE (Some b) (Some e) m = TAILQ_INSERT_HEAD h (Some e) m"
  using assms seg_first_alloc
  by (auto simp: TAILQ_INSERT_BEFORE_def TAILQ_INSERT_HEAD_def tailq_def fun_upd_twist intro!: qmem_eqI)

lemma tailq_insert_before:
  assumes "tailq m h (xs @ b # ys)" and "alloc m (Elem e)" and "e \<notin> set (xs @ b # ys)"
  shows "yields (TAILQ_INSERT_BEFORE (Some b) (Some e) m) (cells h (e # xs @ b # ys)) m
    (\<lambda>m'. tailq m' h (xs @ e # b # ys))"
proof (cases xs rule: rev_cases)
  case Nil
  with assms show ?thesis
    using TAILQ_INSERT_BEFORE_head [of m h b ys e] tailq_insert_head [of m h "b # ys" e] by simp
next
  case (snoc zs a)
  with assms show ?thesis
    using TAILQ_INSERT_BEFORE_after [of m h zs a b ys e] tailq_insert_after [of m h zs a "b # ys" e] by simp
qed

text \<open>Inserting at the tail is inserting after the last element, or at the head of an empty queue.\<close>

lemma TAILQ_INSERT_TAIL_after:
  assumes "tailq m h (xs @ [a])" and "alloc m (Elem e)" and "e \<notin> set (xs @ [a])"
  shows "TAILQ_INSERT_TAIL h (Some e) m = TAILQ_INSERT_AFTER h (Some a) (Some e) m"
  using assms tailq_alloc [OF assms(1)]
  by (auto simp: TAILQ_INSERT_TAIL_def TAILQ_INSERT_AFTER_def tailq_def fun_upd_twist intro!: qmem_eqI)

lemma TAILQ_INSERT_TAIL_head:
  assumes "tailq m h []" and "alloc m (Elem e)"
  shows "TAILQ_INSERT_TAIL h (Some e) m = TAILQ_INSERT_HEAD h (Some e) m"
  using assms tailq_alloc [OF assms(1)]
  by (auto simp: TAILQ_INSERT_TAIL_def TAILQ_INSERT_HEAD_def tailq_def fun_upd_twist intro!: qmem_eqI)

text \<open>The two casts find the last element and the one before a given element.\<close>

definition last_ptr :: "nat list \<Rightarrow> ptr" where
  "last_ptr xs = (if xs = [] then NULL else Some (last xs))"

lemma last_ptr_simps [simp]: "last_ptr [] = NULL" "last_ptr (xs @ [x]) = Some x"
  by (simp_all add: last_ptr_def)

lemma TAILQ_LAST_correct:
  assumes "tailq m h xs"
  shows "TAILQ_LAST h m = Some (last_ptr xs)"
  using assms tailq_alloc [OF assms] seg_tail_cell
  by (cases xs rule: rev_cases) (auto simp: TAILQ_LAST_def tailq_def)

lemma TAILQ_PREV_correct:
  assumes "tailq m h (us @ x # ys)"
  shows "TAILQ_PREV (Some x) m = Some (last_ptr us)"
proof (cases us rule: rev_cases)
  case Nil
  with assms tailq_alloc [OF assms] show ?thesis
    using seg_first_alloc seg_tail_cell [of m "Elem x" ys NULL] by (auto simp: TAILQ_PREV_def tailq_def)
next
  case (snoc vs a)
  with assms show ?thesis using seg_first_alloc seg_tail_cell by (auto simp: TAILQ_PREV_def tailq_def)
qed

lemma foreach_reverse_visit:
  "tailq m h (us @ ys) \<Longrightarrow> foreach TAILQ_PREV visit_body (last_ptr us) (m, vs) = Some (m, vs @ rev us)"
proof (induction us arbitrary: ys vs rule: rev_induct)
  case Nil
  then show ?case by (simp add: foreach.simps [of TAILQ_PREV visit_body NULL])
next
  case (snoc u us)
  from snoc.prems have "tailq m h (us @ u # ys)" by simp
  with snoc.IH [of "u # ys" "vs @ [u]"] TAILQ_PREV_correct [of m h us u ys] show ?case
    by (simp add: foreach.simps [of TAILQ_PREV visit_body "Some u"])
qed

lemma foreach_safe_reverse_visit:
  "tailq m h (us @ ys) \<Longrightarrow> foreach_safe TAILQ_PREV visit_body (last_ptr us) (m, vs) = Some (m, vs @ rev us)"
proof (induction us arbitrary: ys vs rule: rev_induct)
  case Nil
  then show ?case by (simp add: foreach_safe.simps [of TAILQ_PREV visit_body NULL])
next
  case (snoc u us)
  from snoc.prems have "tailq m h (us @ u # ys)" by simp
  with snoc.IH [of "u # ys" "vs @ [u]"] TAILQ_PREV_correct [of m h us u ys] show ?case
    by (simp add: foreach_safe.simps [of TAILQ_PREV visit_body "Some u"])
qed

text \<open>The ten loops, all with a body that only collects.\<close>

lemma TAILQ_forward:
  assumes "tailq m h xs"
  shows "TAILQ_FOREACH visit_body h (m, vs) = Some (m, vs @ xs)"
    and "TAILQ_FOREACH_SAFE visit_body h (m, vs) = Some (m, vs @ xs)"
proof -
  from assms obtain p where "cell m (Head h) = Some p" by (cases xs) (auto simp: tailq_def)
  with assms foreach_visit [of TAILQ_NEXT m "Head h" xs p vs]
    foreach_safe_visit [of TAILQ_NEXT m "Head h" xs p vs]
  show "TAILQ_FOREACH visit_body h (m, vs) = Some (m, vs @ xs)"
    and "TAILQ_FOREACH_SAFE visit_body h (m, vs) = Some (m, vs @ xs)"
    by (simp_all add: TAILQ_FOREACH_def TAILQ_FOREACH_SAFE_def tailq_def)
qed

lemma TAILQ_backward:
  assumes "tailq m h xs"
  shows "TAILQ_FOREACH_REVERSE visit_body h (m, vs) = Some (m, vs @ rev xs)"
    and "TAILQ_FOREACH_REVERSE_SAFE visit_body h (m, vs) = Some (m, vs @ rev xs)"
  using TAILQ_LAST_correct [OF assms] foreach_reverse_visit [of m h xs "[]" vs]
    foreach_safe_reverse_visit [of m h xs "[]" vs] assms
  by (simp_all add: TAILQ_FOREACH_REVERSE_def TAILQ_FOREACH_REVERSE_SAFE_def)

lemma TAILQ_forward_from:
  assumes "tailq m h (xs @ a # ys)"
  shows "TAILQ_FOREACH_FROM visit_body (Some a) h (m, vs) = Some (m, vs @ a # ys)"
    and "TAILQ_FOREACH_FROM_SAFE visit_body (Some a) h (m, vs) = Some (m, vs @ a # ys)"
  using assms foreach_visit [of TAILQ_NEXT m "tail_cell (Head h) xs" "a # ys" "Some a" vs]
    foreach_safe_visit [of TAILQ_NEXT m "tail_cell (Head h) xs" "a # ys" "Some a" vs]
  by (auto simp: TAILQ_FOREACH_FROM_def TAILQ_FOREACH_FROM_SAFE_def tailq_def dest: seg_tail_cell)

lemma TAILQ_backward_from:
  assumes "tailq m h (xs @ a # ys)"
  shows "TAILQ_FOREACH_REVERSE_FROM visit_body (Some a) h (m, vs) = Some (m, vs @ a # rev xs)"
    and "TAILQ_FOREACH_REVERSE_FROM_SAFE visit_body (Some a) h (m, vs) = Some (m, vs @ a # rev xs)"
  using assms foreach_reverse_visit [of m h "xs @ [a]" ys vs]
    foreach_safe_reverse_visit [of m h "xs @ [a]" ys vs]
  by (simp_all add: TAILQ_FOREACH_REVERSE_FROM_def TAILQ_FOREACH_REVERSE_FROM_SAFE_def)

text \<open>The checks hold on every well-formed queue.\<close>

lemma TAILQ_checks:
  assumes "tailq m h xs"
  shows "QMD_TAILQ_CHECK_HEAD h m = Some True"
    and "QMD_TAILQ_CHECK_TAIL h m = Some True"
    and "e \<in> set xs \<Longrightarrow> QMD_TAILQ_CHECK_NEXT (Some e) m = Some True"
    and "e \<in> set xs \<Longrightarrow> QMD_TAILQ_CHECK_PREV (Some e) m = Some True"
proof -
  show "QMD_TAILQ_CHECK_HEAD h m = Some True"
    using assms seg_first_alloc by (cases xs) (auto simp: QMD_TAILQ_CHECK_HEAD_def tailq_def)
  show "QMD_TAILQ_CHECK_TAIL h m = Some True"
    using assms tailq_alloc [OF assms] seg_tail_cell by (auto simp: QMD_TAILQ_CHECK_TAIL_def tailq_def)
  assume "e \<in> set xs"
  then obtain us ys where xs: "xs = us @ e # ys" by (meson split_list)
  show "QMD_TAILQ_CHECK_NEXT (Some e) m = Some True"
    using assms seg_first_alloc unfolding xs by (cases ys) (auto simp: QMD_TAILQ_CHECK_NEXT_def tailq_def)
  show "QMD_TAILQ_CHECK_PREV (Some e) m = Some True"
    using assms seg_first_alloc seg_tail_cell unfolding xs
    by (auto simp: QMD_TAILQ_CHECK_PREV_def tailq_def)
qed

section \<open>Interpretation\<close>

definition tailq_visit :: "nat \<Rightarrow> qmem \<Rightarrow> nat list option" where
  "tailq_visit h m = map_option snd (TAILQ_FOREACH visit_body h (m, []))"

definition tailq_api :: queue_api where
  "tailq_api = \<lparr>init_op = TAILQ_INIT, insert_head_op = TAILQ_INSERT_HEAD,
     insert_after_op = TAILQ_INSERT_AFTER, remove_op = TAILQ_REMOVE,
     concat_op = TAILQ_CONCAT, swap_op = TAILQ_SWAP, visit_op = tailq_visit\<rparr>"

definition tailq_fifo :: fifo_api where
  "tailq_fifo = \<lparr>enqueue_op = TAILQ_INSERT_TAIL, front_op = TAILQ_FIRST, dequeue_op = TAILQ_REMOVE\<rparr>"

interpretation tq: chained_queue tailq_api tailq TAILQ_NEXT
proof unfold_locales
  show "tailq m h xs \<Longrightarrow> distinct xs" "tailq m h xs \<Longrightarrow> alloc m (Head h)"
    "tailq m h xs \<Longrightarrow> seg m (Head h) xs NULL" for m h xs
    by (auto simp: tailq_def dest: seg_alloc)
  show "tailq m h xs \<Longrightarrow> agree (cells h xs) m m' \<Longrightarrow> tailq m' h xs" for m h xs m'
    by (simp add: tailq_def agree_seg agree_backs agree_head)
  show "alloc m (Head h) \<Longrightarrow> yields (init_op tailq_api h m) {Head h} m (\<lambda>m'. tailq m' h [])" for m h
    by (simp add: tailq_api_def yields_def tailq_def)
  show "tailq m h xs \<Longrightarrow> visit_op tailq_api h m = Some xs" for m h xs
    by (simp add: tailq_api_def tailq_visit_def TAILQ_forward)
qed (simp_all add: tailq_api_def tailq_insert_head tailq_insert_after tailq_remove tailq_concat tailq_swap)

interpretation tqf: tail_queue tailq_api tailq TAILQ_NEXT tailq_fifo
proof unfold_locales
  show "tailq m h xs \<Longrightarrow> alloc m (Elem e) \<Longrightarrow> e \<notin> set xs \<Longrightarrow>
    yields (enqueue_op tailq_fifo h (Some e) m) (cells h (e # xs)) m (\<lambda>m'. tailq m' h (xs @ [e]))"
    for m h xs e
    by (simp add: tailq_fifo_def tailq_insert_tail)
  show "tailq m h (x # xs) \<Longrightarrow>
    yields (dequeue_op tailq_fifo h (Some x) m) (cells h (x # xs)) m (\<lambda>m'. tailq m' h xs)" for m h x xs
    using tailq_remove [of m h "[]" x xs] by (simp add: tailq_fifo_def)
  show "front_op tailq_fifo h m = cell m (Head h)" for h m
    by (simp add: tailq_fifo_def)
qed

end
