(* ===== verification/Queue_Correct.thy ===== *)
theory Queue_Correct
  imports Queue_Slist Queue_Stailq Queue_List Queue_Tailq
begin

text \<open>
  The properties of the queues of \<^verbatim>\<open>queue.h\<close>, over the four kinds: programs of queue
  operations, first in first out, insertion before an element, traversal in reverse, loops
  that free what they visit, and the consistency checks of the kernel builds.
\<close>

text \<open>
  C13: Programs of queue operations, for each of the four kinds. The heads \<open>hs\<close> are initialised
  with \<^verbatim>\<open>INIT\<close>, whatever the memory held; then any sequence of \<^verbatim>\<open>INIT\<close>, \<^verbatim>\<open>INSERT_HEAD\<close>,
  \<^verbatim>\<open>INSERT_AFTER\<close>, \<^verbatim>\<open>REMOVE\<close>, \<^verbatim>\<open>CONCAT\<close> and \<^verbatim>\<open>SWAP\<close> on these heads that uses allocated elements,
  each in at most one queue at a time, is defined (no null or dangling pointer is followed and
  every loop ends), and a \<^verbatim>\<open>FOREACH\<close> over each queue then visits exactly the list that the same
  operations on mathematical lists give.
\<close>

theorem queue_programs:
  assumes "q \<in> {slist_api, stailq_api, dlist_api, tailq_api}"
    and "\<forall>h \<in> set hs. alloc m (Head h)" and "\<forall>e \<in> set es. alloc m (Elem e)"
    and "cmds_spec hs es cs (\<lambda>h. []) = Some s"
  shows "\<exists>m'. exec_cmds q (map Init hs @ cs) m = Some m' \<and> (\<forall>h \<in> set hs. visit_op q h m' = Some (s h))"
  using assms(1) sl.programs_refine [OF assms(2-4)] st.programs_refine [OF assms(2-4)]
    dl.programs_refine [OF assms(2-4)] tq.programs_refine [OF assms(2-4)] by blast

theorem queue_programs_witness:
  "\<exists>m'. exec_cmds tailq_api (map Init [0, 1] @ [Insert_head 0 10, Insert_after 0 10 11, Insert_head 1 12,
      Concat 0 1, Remove 0 11, Swap 0 1]) (blank [0, 1] [10, 11, 12]) = Some m' \<and>
    (\<forall>h \<in> set [0, 1]. visit_op tailq_api h m' = Some (((\<lambda>h. [])(1 := [10, 12])) h))"
  by (rule queue_programs [where es = "[10, 11, 12]"]) (simp_all add: unused_def fun_eq_iff)

text \<open>
  The queues with a tail pointer are first in, first out. On a head initialised with
  \<^verbatim>\<open>STAILQ_INIT\<close> (\<^verbatim>\<open>TAILQ_INIT\<close>), any interleaving of \<^verbatim>\<open>INSERT_TAIL\<close> of different allocated
  elements with removals of the first element (\<^verbatim>\<open>STAILQ_REMOVE_HEAD\<close>, \<^verbatim>\<open>TAILQ_REMOVE\<close> of
  \<^verbatim>\<open>TAILQ_FIRST\<close>) that never meets an empty queue is defined, and the elements come out in the
  order in which they went in; a traversal afterwards visits those that remain.
\<close>

theorem tail_queues_fifo:
  assumes "(q, f) \<in> {(stailq_api, stailq_fifo), (tailq_api, tailq_fifo)}"
    and "alloc m (Head h)" and "\<forall>e \<in> set (enqueued cs). alloc m (Elem e)"
    and "distinct (enqueued cs)" and "balanced 0 cs"
  shows "\<exists>m1 m2. init_op q h m = Some m1 \<and>
    exec_fifo f h cs m1 = Some (m2, map Some (take (dequeues cs) (enqueued cs))) \<and>
    visit_op q h m2 = Some (drop (dequeues cs) (enqueued cs))"
  using assms(1)
proof (elim insertE emptyE; elim Pair_inject)
  assume e: "q = stailq_api" "f = stailq_fifo"
  from st.init_law [OF assms(2)] obtain m1
    where m1: "init_op q h m = Some m1" "frame {Head h} m m1" "stailq m1 h []"
    unfolding e by (rule yieldsE)
  from stf.fifo_order [OF m1(3)] assms frame_alloc [OF m1(2)] m1(1) st.visit_law
  show ?thesis unfolding e by fastforce
next
  assume e: "q = tailq_api" "f = tailq_fifo"
  from tq.init_law [OF assms(2)] obtain m1
    where m1: "init_op q h m = Some m1" "frame {Head h} m m1" "tailq m1 h []"
    unfolding e by (rule yieldsE)
  from tqf.fifo_order [OF m1(3)] assms frame_alloc [OF m1(2)] m1(1) tq.visit_law
  show ?thesis unfolding e by fastforce
qed

theorem tail_queues_fifo_witness:
  "\<exists>m1 m2. init_op stailq_api 0 (blank [0] [4, 5, 6]) = Some m1 \<and>
    exec_fifo stailq_fifo 0 [Enqueue 5, Enqueue 4, Dequeue, Enqueue 6, Dequeue] m1 = Some (m2, [Some 5, Some 4]) \<and>
    visit_op stailq_api 0 m2 = Some [6]"
  using tail_queues_fifo [of stailq_api stailq_fifo "blank [0] [4, 5, 6]" 0
      "[Enqueue 5, Enqueue 4, Dequeue, Enqueue 6, Dequeue]"] by simp

text \<open>
  C36: \<^verbatim>\<open>INSERT_BEFORE\<close>, which needs no head, leaves exactly the memory that \<^verbatim>\<open>INSERT_AFTER\<close> of the
  preceding element leaves, for lists and for tail queues, and at the front the memory that
  \<^verbatim>\<open>INSERT_HEAD\<close> leaves; \<^verbatim>\<open>TAILQ_INSERT_TAIL\<close> leaves the memory of \<^verbatim>\<open>TAILQ_INSERT_AFTER\<close> of the
  last element.
\<close>

theorem insert_before_equivalent:
  assumes "alloc m (Elem e)" and "e \<notin> set xs \<union> set ys" and "ys \<noteq> []"
  shows "(dlist m h (xs @ ys) \<longrightarrow> LIST_INSERT_BEFORE (Some (hd ys)) (Some e) m =
      (if xs = [] then LIST_INSERT_HEAD h (Some e) m else LIST_INSERT_AFTER (Some (last xs)) (Some e) m)) \<and>
    (tailq m h (xs @ ys) \<longrightarrow> TAILQ_INSERT_BEFORE (Some (hd ys)) (Some e) m =
      (if xs = [] then TAILQ_INSERT_HEAD h (Some e) m else TAILQ_INSERT_AFTER h (Some (last xs)) (Some e) m)) \<and>
    (tailq m h (xs @ ys) \<longrightarrow>
      TAILQ_INSERT_TAIL h (Some e) m = TAILQ_INSERT_AFTER h (Some (last ys)) (Some e) m)"
proof -
  obtain b zs where b: "ys = b # zs" using assms(3) by (cases ys) auto
  obtain us c where c: "ys = us @ [c]" using assms(3) by (cases ys rule: rev_cases) auto
  have "TAILQ_INSERT_TAIL h (Some e) m = TAILQ_INSERT_AFTER h (Some (last ys)) (Some e) m"
    if "tailq m h (xs @ ys)"
    using that assms TAILQ_INSERT_TAIL_after [of m h "xs @ us" c e] by (simp add: c)
  with assms LIST_INSERT_BEFORE_head [of m h b zs e] TAILQ_INSERT_BEFORE_head [of m h b zs e]
    LIST_INSERT_BEFORE_after [of m h _ _ b zs e] TAILQ_INSERT_BEFORE_after [of m h _ _ b zs e]
  show ?thesis by (cases xs rule: rev_cases) (simp_all add: b)
qed

text \<open>A tail queue of three elements, and a fourth that is in no queue.\<close>

definition sample_queue :: qmem where
  "sample_queue = \<lparr>
     cell = [Head 0 \<mapsto> Some 1, Elem 1 \<mapsto> Some 2, Elem 2 \<mapsto> Some 3, Elem 3 \<mapsto> NULL, Elem 4 \<mapsto> NULL],
     addr = [Head 0 \<mapsto> Elem 3, Elem 1 \<mapsto> Head 0, Elem 2 \<mapsto> Elem 1, Elem 3 \<mapsto> Elem 2]\<rparr>"

lemma sample_queue_ok:
  "tailq sample_queue 0 [1, 2, 3]" "dlist sample_queue 0 [1, 2, 3]" "stailq sample_queue 0 [1, 2, 3]"
  "slist sample_queue 0 [1, 2, 3]" "alloc sample_queue (Elem 4)"
  by (simp_all add: tailq_def dlist_def stailq_def slist_def sample_queue_def alloc_def)

theorem insert_before_equivalent_witness:
  "LIST_INSERT_BEFORE (Some 2) (Some 4) sample_queue = LIST_INSERT_AFTER (Some 1) (Some 4) sample_queue \<and>
   TAILQ_INSERT_BEFORE (Some 2) (Some 4) sample_queue = TAILQ_INSERT_AFTER 0 (Some 1) (Some 4) sample_queue \<and>
   TAILQ_INSERT_TAIL 0 (Some 4) sample_queue = TAILQ_INSERT_AFTER 0 (Some 3) (Some 4) sample_queue"
  using insert_before_equivalent [of sample_queue 4 "[1]" "[2, 3]" 0] sample_queue_ok by simp

text \<open>
  Traversal of a tail queue in reverse. After any program of queue operations, the casts of
  \<^verbatim>\<open>TAILQ_LAST\<close> and \<^verbatim>\<open>TAILQ_PREV\<close> find the last element and the one before each element, null
  where there is none; all four reverse loops visit the list that \<^verbatim>\<open>TAILQ_FOREACH\<close> visits
  backwards, from the end or from the given element.
\<close>

theorem tailq_reverse_traversal:
  assumes "\<forall>h \<in> set hs. alloc m (Head h)" and "\<forall>e \<in> set es. alloc m (Elem e)"
    and "cmds_spec hs es cs (\<lambda>h. []) = Some s" and "h \<in> set hs"
  shows "\<exists>m'. exec_cmds tailq_api (map Init hs @ cs) m = Some m' \<and>
    TAILQ_FOREACH visit_body h (m', []) = Some (m', s h) \<and>
    TAILQ_LAST h m' = Some (last_ptr (s h)) \<and>
    TAILQ_FOREACH_REVERSE visit_body h (m', []) = Some (m', rev (s h)) \<and>
    TAILQ_FOREACH_REVERSE_SAFE visit_body h (m', []) = Some (m', rev (s h)) \<and>
    (\<forall>xs a ys. s h = xs @ a # ys \<longrightarrow>
      TAILQ_PREV (Some a) m' = Some (last_ptr xs) \<and>
      TAILQ_FOREACH_REVERSE_FROM visit_body (Some a) h (m', []) = Some (m', a # rev xs) \<and>
      TAILQ_FOREACH_REVERSE_FROM_SAFE visit_body (Some a) h (m', []) = Some (m', a # rev xs))"
proof -
  from tq.programs_rep [OF assms(1-3)] assms(4) obtain m'
    where m': "exec_cmds tailq_api (map Init hs @ cs) m = Some m'" and t: "tailq m' h (s h)" by blast
  show ?thesis
    using TAILQ_forward [OF t] TAILQ_LAST_correct [OF t] TAILQ_backward [OF t] t
    by (intro exI [of _ m'] conjI m') (auto simp: TAILQ_PREV_correct TAILQ_backward_from)
qed

theorem tailq_reverse_traversal_witness:
  "\<exists>m'. exec_cmds tailq_api (map Init [0] @ [Insert_head 0 7, Insert_after 0 7 8]) (blank [0] [7, 8]) = Some m' \<and>
    TAILQ_FOREACH visit_body 0 (m', []) = Some (m', [7, 8]) \<and> TAILQ_LAST 0 m' = Some (Some 8) \<and>
    TAILQ_FOREACH_REVERSE visit_body 0 (m', []) = Some (m', [8, 7])"
  using tailq_reverse_traversal [of "[0]" "blank [0] [7, 8]" "[7, 8]"
      "[Insert_head 0 7, Insert_after 0 7 8]" _ 0]
  by (auto simp: unused_def last_ptr_def)

definition drained :: "(qmem \<Rightarrow> nat \<Rightarrow> nat list \<Rightarrow> bool) \<Rightarrow> nat \<Rightarrow> nat list \<Rightarrow> qmem \<Rightarrow> (qmem \<times> unit) option \<Rightarrow> bool"
  where
  "drained rep h xs m r \<longleftrightarrow> (\<exists>m'. r = Some (m', ()) \<and> rep m' h [] \<and>
     (\<forall>e. alloc m' (Elem e) \<longleftrightarrow> alloc m (Elem e) \<and> e \<notin> set xs))"

text \<open>
  C37: A loop that takes every visited element out of its queue and frees it. With
  \<^verbatim>\<open>FOREACH_SAFE\<close>, which reads the next element first, the loop is defined, empties the queue
  and frees exactly its elements, for each of the four kinds; with the plain \<^verbatim>\<open>FOREACH\<close> the
  loop reads the freed element already after the first round.
\<close>

theorem foreach_safe_frees:
  assumes "xs \<noteq> []"
  shows "(slist m h xs \<longrightarrow>
      drained slist h xs m (SLIST_FOREACH_SAFE (drop_body slist_api h) h (m, ())) \<and>
      SLIST_FOREACH (drop_body slist_api h) h (m, ()) = None) \<and>
    (stailq m h xs \<longrightarrow>
      drained stailq h xs m (STAILQ_FOREACH_SAFE (drop_body stailq_api h) h (m, ())) \<and>
      STAILQ_FOREACH (drop_body stailq_api h) h (m, ()) = None) \<and>
    (dlist m h xs \<longrightarrow>
      drained dlist h xs m (LIST_FOREACH_SAFE (drop_body dlist_api h) h (m, ())) \<and>
      LIST_FOREACH (drop_body dlist_api h) h (m, ()) = None) \<and>
    (tailq m h xs \<longrightarrow>
      drained tailq h xs m (TAILQ_FOREACH_SAFE (drop_body tailq_api h) h (m, ())) \<and>
      TAILQ_FOREACH (drop_body tailq_api h) h (m, ()) = None)"
proof -
  obtain x ys where xs: "xs = x # ys" using assms by (cases xs) auto
  have "drained slist h xs m (SLIST_FOREACH_SAFE (drop_body slist_api h) h (m, ())) \<and>
      SLIST_FOREACH (drop_body slist_api h) h (m, ()) = None" if r: "slist m h xs"
    using sl.foreach_safe_drains [OF r, of "Some x"] sl.foreach_use_after_free [OF r [unfolded xs]] r
    by (auto simp: xs drained_def SLIST_FOREACH_SAFE_def SLIST_FOREACH_def slist_def)
  moreover have "drained stailq h xs m (STAILQ_FOREACH_SAFE (drop_body stailq_api h) h (m, ())) \<and>
      STAILQ_FOREACH (drop_body stailq_api h) h (m, ()) = None" if r: "stailq m h xs"
    using st.foreach_safe_drains [OF r, of "Some x"] st.foreach_use_after_free [OF r [unfolded xs]] r
    by (auto simp: xs drained_def STAILQ_FOREACH_SAFE_def STAILQ_FOREACH_def stailq_def)
  moreover have "drained dlist h xs m (LIST_FOREACH_SAFE (drop_body dlist_api h) h (m, ())) \<and>
      LIST_FOREACH (drop_body dlist_api h) h (m, ()) = None" if r: "dlist m h xs"
    using dl.foreach_safe_drains [OF r, of "Some x"] dl.foreach_use_after_free [OF r [unfolded xs]] r
    by (auto simp: xs drained_def LIST_FOREACH_SAFE_def LIST_FOREACH_def dlist_def)
  moreover have "drained tailq h xs m (TAILQ_FOREACH_SAFE (drop_body tailq_api h) h (m, ())) \<and>
      TAILQ_FOREACH (drop_body tailq_api h) h (m, ()) = None" if r: "tailq m h xs"
    using tq.foreach_safe_drains [OF r, of "Some x"] tq.foreach_use_after_free [OF r [unfolded xs]] r
    by (auto simp: xs drained_def TAILQ_FOREACH_SAFE_def TAILQ_FOREACH_def tailq_def)
  ultimately show ?thesis by blast
qed

theorem foreach_safe_frees_witness:
  "drained slist 0 [1, 2, 3] sample_queue (SLIST_FOREACH_SAFE (drop_body slist_api 0) 0 (sample_queue, ())) \<and>
   LIST_FOREACH (drop_body dlist_api 0) 0 (sample_queue, ()) = None"
  using foreach_safe_frees [of "[1, 2, 3]" sample_queue 0] sample_queue_ok by simp

text \<open>
  The consistency checks of kernels built with \<^verbatim>\<open>INVARIANTS\<close>, which panic on a damaged
  queue, pass on every list and tail queue that programs of queue operations build: each
  element's neighbours point back to it, the head and the tail are in order.
\<close>

theorem invariant_checks_pass:
  assumes "\<forall>h \<in> set hs. alloc m (Head h)" and "\<forall>e \<in> set es. alloc m (Elem e)"
    and "cmds_spec hs es cs (\<lambda>h. []) = Some s" and "h \<in> set hs"
  shows "\<exists>ml mt. exec_cmds dlist_api (map Init hs @ cs) m = Some ml \<and>
    exec_cmds tailq_api (map Init hs @ cs) m = Some mt \<and>
    QMD_LIST_CHECK_HEAD h ml = Some True \<and> QMD_TAILQ_CHECK_HEAD h mt = Some True \<and>
    QMD_TAILQ_CHECK_TAIL h mt = Some True \<and>
    (\<forall>e \<in> set (s h). QMD_LIST_CHECK_NEXT (Some e) ml = Some True \<and>
      QMD_LIST_CHECK_PREV (Some e) ml = Some True \<and>
      QMD_TAILQ_CHECK_NEXT (Some e) mt = Some True \<and> QMD_TAILQ_CHECK_PREV (Some e) mt = Some True)"
proof -
  from dl.programs_rep [OF assms(1-3)] assms(4) obtain ml
    where ml: "exec_cmds dlist_api (map Init hs @ cs) m = Some ml" and l: "dlist ml h (s h)" by blast
  from tq.programs_rep [OF assms(1-3)] assms(4) obtain mt
    where mt: "exec_cmds tailq_api (map Init hs @ cs) m = Some mt" and t: "tailq mt h (s h)" by blast
  from ml mt LIST_checks [OF l] TAILQ_checks [OF t] show ?thesis by blast
qed

theorem invariant_checks_pass_witness:
  "\<exists>ml mt. exec_cmds dlist_api (map Init [0] @ [Insert_head 0 7]) (blank [0] [7]) = Some ml \<and>
    exec_cmds tailq_api (map Init [0] @ [Insert_head 0 7]) (blank [0] [7]) = Some mt \<and>
    QMD_LIST_CHECK_PREV (Some 7) ml = Some True \<and> QMD_TAILQ_CHECK_TAIL 0 mt = Some True"
  using invariant_checks_pass [of "[0]" "blank [0] [7]" "[7]" "[Insert_head 0 7]" _ 0]
  by (auto simp: unused_def)

end
