(* ===== verification/Slist_Server.thy ===== *)
theory Slist_Server
  imports Queue_Slist
begin

text \<open>
  The server of \<^verbatim>\<open>server/server_prototypes/server.prototype.0.0.2.c\<close>, which keeps its threads in a
  singly-linked list of \<^verbatim>\<open>queue.h\<close>: \<^verbatim>\<open>main\<close> inserts an element for each connection, the client
  thread removes and frees it, and the handler of \<^verbatim>\<open>SIGINT\<close> is to join and free what is left.
  All threads run interleaved; \<^verbatim>\<open>queue_mutex\<close> guards the list and the files.
\<close>

section \<open>State\<close>

text \<open>The element of a client; its address names it, and its list entry is in the queue memory.\<close>

record client_thread_s =
  client_socket :: nat
  detached :: bool

text \<open>
  Where \<^verbatim>\<open>main\<close>, a client thread and the date thread are, before the named action. A client
  whose file cannot be opened ends at \<open>C_Failed\<close>, with its element still in the list. \<open>M_Detach_Unset\<close>
  is the position before \<^verbatim>\<open>pthread_detach\<close> after a \<^verbatim>\<open>pthread_create\<close> that has failed and set no identifier.
\<close>

datatype main_pc =
  M_Accept | M_Lock nat | M_Insert nat | M_Unlock nat | M_Create nat | M_Detach nat | M_Detach_Unset nat

datatype client_pc =
    C_Open | C_Recv | C_Lock_Write "byte list" | C_Write "byte list" | C_Unlock_Write "byte list"
  | C_Send "byte list" | C_Lock_Remove | C_Remove | C_Unlock_Remove | C_Free | C_Done | C_Failed

datatype date_pc = D_Open | D_Lock | D_Write | D_Unlock | D_Done

datatype owner = Main_Thread | Client_Thread nat | Date_Thread

text \<open>
  \<open>elems\<close> are the allocated elements by address, \<open>client_at\<close> the client threads by the address of
  their argument, \<open>local_socket\<close> the variable \<^verbatim>\<open>client_socket\<close> of each; \<open>echoed\<close> is what was given
  to \<^verbatim>\<open>send\<close>.
\<close>

record slist_server =
  server_socket :: int
  mem :: qmem
  elems :: "nat \<rightharpoonup> client_thread_s"
  queue_mutex :: "owner option"
  main_at :: main_pc
  client_at :: "nat \<rightharpoonup> client_pc"
  local_socket :: "nat \<Rightarrow> nat"
  date_at :: date_pc
  client_file :: "byte list"
  date_file :: "byte list"
  echoed :: "(nat \<times> byte list) list"
  open_sockets :: "nat set"

definition thread_queue :: nat where "thread_queue = 0"

text \<open>
  A step of a thread: the next state, waiting for the mutex, undefined behaviour, or the end of the
  process with an exit status and the state at that moment.
\<close>

datatype outcome = Next slist_server | Waits | Undefined | Exits int slist_server

definition defined :: "slist_server option \<Rightarrow> outcome" where
  "defined r = (case r of None \<Rightarrow> Undefined | Some s \<Rightarrow> Next s)"

definition lock_queue :: "owner \<Rightarrow> slist_server \<Rightarrow> slist_server \<Rightarrow> outcome" where
  "lock_queue t s s' = (if queue_mutex s = None then Next (s'\<lparr>queue_mutex := Some t\<rparr>) else Waits)"

definition unlock_queue :: "owner \<Rightarrow> slist_server \<Rightarrow> slist_server option" where
  "unlock_queue t s = (if queue_mutex s = Some t then Some (s\<lparr>queue_mutex := None\<rparr>) else None)"

section \<open>\<^verbatim>\<open>main\<close>\<close>

text \<open>What \<^verbatim>\<open>accept\<close> gives: an error, a connection for which there is no memory, or a connection
  and the address of its element, whose entry holds any pointer.\<close>

datatype accept_result = A_Error | A_No_Memory nat | A_Element nat nat ptr

definition accept_connection :: "accept_result \<Rightarrow> slist_server \<Rightarrow> slist_server" where
  "accept_connection r s =
     (case r of
        A_Error \<Rightarrow> s
      | A_No_Memory sock \<Rightarrow> s
      | A_Element sock e p \<Rightarrow>
          s\<lparr>mem := (mem s)\<lparr>cell := (cell (mem s))(Elem e \<mapsto> p)\<rparr>,
            elems := (elems s)(e \<mapsto> \<lparr>client_socket = sock, detached = False\<rparr>),
            open_sockets := insert sock (open_sockets s), main_at := M_Lock e\<rparr>)"

text \<open>
  The loop of \<^verbatim>\<open>main\<close>; \<open>created\<close> is whether \<^verbatim>\<open>pthread_create\<close> succeeds. Its failure is not looked
  at: \<^verbatim>\<open>pthread_detach\<close> reads the identifier of the thread from the element, and when it was never set
  this is undefined.
\<close>

definition main_loop :: "accept_result \<Rightarrow> bool \<Rightarrow> slist_server \<Rightarrow> outcome" where
  "main_loop r created s =
     (case main_at s of
        M_Accept \<Rightarrow> Next (accept_connection r s)
      | M_Lock e \<Rightarrow> lock_queue Main_Thread s (s\<lparr>main_at := M_Insert e\<rparr>)
      | M_Insert e \<Rightarrow> defined (do {
          m \<leftarrow> SLIST_INSERT_HEAD thread_queue (Some e) (mem s);
          Some (s\<lparr>mem := m, main_at := M_Unlock e\<rparr>)
        })
      | M_Unlock e \<Rightarrow> defined (unlock_queue Main_Thread (s\<lparr>main_at := M_Create e\<rparr>))
      | M_Create e \<Rightarrow>
          if created then Next (s\<lparr>client_at := (client_at s)(e \<mapsto> C_Open), main_at := M_Detach e\<rparr>)
          else Next (s\<lparr>main_at := M_Detach_Unset e\<rparr>)
      | M_Detach e \<Rightarrow> defined (do {
          c \<leftarrow> elems s e;
          Some (s\<lparr>elems := (elems s)(e \<mapsto> c\<lparr>detached := True\<rparr>), main_at := M_Accept\<rparr>)
        })
      | M_Detach_Unset e \<Rightarrow> Undefined)"

text \<open>Starting: the exit status and the state at exit, or the state in which the loop begins.\<close>

record start_results =
  date_create_result :: int
  socket_result :: int
  bind_result :: int
  listen_result :: int

definition server_begin :: "start_results \<Rightarrow> slist_server \<Rightarrow> ((int \<times> slist_server) + slist_server) option" where
  "server_begin R s =
     (let s1 = (if date_create_result R = 0 then s\<lparr>date_at := D_Open\<rparr> else s)\<lparr>server_socket := socket_result R\<rparr>;
          s2 = s1\<lparr>open_sockets := insert (nat (server_socket s1)) (open_sockets s1)\<rparr>;
          s3 = s2\<lparr>open_sockets := open_sockets s2 - {nat (server_socket s2)}\<rparr>
      in if socket_result R < 0 then Some (Inl (1, s1))
         else if bind_result R < 0 then Some (Inl (1, s3))
         else if listen_result R < 0 then Some (Inl (1, s3))
         else do {
           m \<leftarrow> SLIST_INIT thread_queue (mem s2);
           Some (Inr (s2\<lparr>mem := m, main_at := M_Accept\<rparr>))
         })"

section \<open>Threads\<close>

text \<open>
  The results of the library calls of a client thread: whether the file can be opened, and what
  \<^verbatim>\<open>recv\<close> gives (\<open>None\<close> at the end of the connection or on an error).
\<close>

definition handle_client :: "bool \<Rightarrow> byte list option \<Rightarrow> nat \<Rightarrow> slist_server \<Rightarrow> outcome" where
  "handle_client fopen_ok rcv e s =
     (let go = (\<lambda>p s. s\<lparr>client_at := (client_at s)(e \<mapsto> p)\<rparr>)
      in case client_at s e of
           None \<Rightarrow> Waits
         | Some C_Open \<Rightarrow> defined (do {
             c \<leftarrow> elems s e;
             let s1 = s\<lparr>local_socket := (local_socket s)(e := client_socket c)\<rparr>;
             Some (if fopen_ok then go C_Recv s1
                   else go C_Failed (s1\<lparr>open_sockets := open_sockets s1 - {client_socket c}\<rparr>))
           })
         | Some C_Recv \<Rightarrow>
             (case rcv of
                Some bs \<Rightarrow> Next (go (C_Lock_Write bs) s)
              | None \<Rightarrow> Next (go C_Lock_Remove (s\<lparr>open_sockets := open_sockets s - {local_socket s e}\<rparr>)))
         | Some (C_Lock_Write bs) \<Rightarrow> lock_queue (Client_Thread e) s (go (C_Write bs) s)
         | Some (C_Write bs) \<Rightarrow>
             Next (go (C_Unlock_Write bs) (s\<lparr>client_file := client_file s @ takeWhile (\<lambda>x. x \<noteq> nul) bs\<rparr>))
         | Some (C_Unlock_Write bs) \<Rightarrow> defined (unlock_queue (Client_Thread e) (go (C_Send bs) s))
         | Some (C_Send bs) \<Rightarrow> Next (go C_Recv (s\<lparr>echoed := echoed s @ [(local_socket s e, bs)]\<rparr>))
         | Some C_Lock_Remove \<Rightarrow> lock_queue (Client_Thread e) s (go C_Remove s)
         | Some C_Remove \<Rightarrow> defined (do {
             m \<leftarrow> SLIST_REMOVE thread_queue (Some e) (mem s);
             Some (go C_Unlock_Remove (s\<lparr>mem := m\<rparr>))
           })
         | Some C_Unlock_Remove \<Rightarrow> defined (unlock_queue (Client_Thread e) (go C_Free s))
         | Some C_Free \<Rightarrow> defined (do {
             m \<leftarrow> free_elem e (mem s);
             Some (go C_Done (s\<lparr>mem := m, elems := (elems s)(e := None)\<rparr>))
           })
         | Some C_Done \<Rightarrow> Waits
         | Some C_Failed \<Rightarrow> Waits)"

definition write_date :: "bool \<Rightarrow> byte list \<Rightarrow> slist_server \<Rightarrow> outcome" where
  "write_date fopen_ok date_str s =
     (case date_at s of
        D_Open \<Rightarrow> Next (s\<lparr>date_at := (if fopen_ok then D_Lock else D_Done)\<rparr>)
      | D_Lock \<Rightarrow> lock_queue Date_Thread s (s\<lparr>date_at := D_Write\<rparr>)
      | D_Write \<Rightarrow> Next (s\<lparr>date_file := date_file s @ date_str, date_at := D_Unlock\<rparr>)
      | D_Unlock \<Rightarrow> defined (unlock_queue Date_Thread (s\<lparr>date_at := D_Lock\<rparr>))
      | D_Done \<Rightarrow> Waits)"

section \<open>The signal handler\<close>



section \<open>Runs\<close>

text \<open>\<^verbatim>\<open>malloc\<close> gives unused addresses, \<^verbatim>\<open>pthread_create\<close> succeeds or not, and \<^verbatim>\<open>recv\<close> gives at most
  \<^verbatim>\<open>BUFFER_SIZE - 1\<close> bytes.\<close>

definition fresh_accept :: "accept_result \<Rightarrow> slist_server \<Rightarrow> bool" where
  "fresh_accept r s = (case r of A_Element sock e p \<Rightarrow> \<not> alloc (mem s) (Elem e) | _ \<Rightarrow> True)"

definition recv_fits :: "byte list option \<Rightarrow> bool" where
  "recv_fits rcv = (case rcv of None \<Rightarrow> True | Some bs \<Rightarrow> bs \<noteq> [] \<and> length bs \<le> 1023)"

inductive slist_step :: "slist_server \<Rightarrow> slist_server \<Rightarrow> bool" where
  by_main: "fresh_accept r s \<Longrightarrow> main_loop r created s = Next s' \<Longrightarrow> slist_step s s'"
| by_client: "recv_fits rcv \<Longrightarrow> handle_client ok rcv e s = Next s' \<Longrightarrow> slist_step s s'"
| by_date: "write_date ok d s = Next s' \<Longrightarrow> slist_step s s'"

text \<open>A schedule: which thread moves, and what the library calls of its move give.\<close>

datatype turn = Turn_Main accept_result bool | Turn_Client nat bool "byte list option" | Turn_Date bool "byte list"

fun proceed :: "outcome \<Rightarrow> slist_server option" where
  "proceed (Next s) = Some s"
| "proceed r = None"

fun slist_turn :: "turn \<Rightarrow> slist_server \<Rightarrow> slist_server option" where
  "slist_turn (Turn_Main r created) s = (if fresh_accept r s then proceed (main_loop r created s) else None)"
| "slist_turn (Turn_Client e ok rcv) s = (if recv_fits rcv then proceed (handle_client ok rcv e s) else None)"
| "slist_turn (Turn_Date ok d) s = proceed (write_date ok d s)"

fun slist_exec :: "turn list \<Rightarrow> slist_server \<Rightarrow> slist_server option" where
  "slist_exec [] s = Some s"
| "slist_exec (t # ts) s = do { s1 \<leftarrow> slist_turn t s; slist_exec ts s1 }"

text \<open>The process before \<^verbatim>\<open>main\<close>: static storage is zero; the files are as they were.\<close>

definition slist_process :: "byte list \<Rightarrow> byte list \<Rightarrow> slist_server" where
  "slist_process client date = \<lparr>server_socket = 0, mem = \<lparr>cell = [Head thread_queue \<mapsto> NULL], addr = Map.empty\<rparr>,
     elems = Map.empty, queue_mutex = None, main_at = M_Accept, client_at = Map.empty,
     local_socket = (\<lambda>e. 0), date_at = D_Done, client_file = client, date_file = date, echoed = [],
     open_sockets = {}\<rparr>"

section \<open>The invariant\<close>

text \<open>Whether the element is allocated, and whether it is in the queue, by where its threads are.\<close>

definition main_elem :: "main_pc \<Rightarrow> nat option" where
  "main_elem m = (case m of M_Lock e \<Rightarrow> Some e | M_Insert e \<Rightarrow> Some e | M_Unlock e \<Rightarrow> Some e | M_Create e \<Rightarrow> Some e | M_Detach_Unset e \<Rightarrow> Some e | _ \<Rightarrow> None)"

definition main_queued :: "main_pc \<Rightarrow> nat option" where
  "main_queued m = (case m of M_Unlock e \<Rightarrow> Some e | M_Create e \<Rightarrow> Some e | M_Detach_Unset e \<Rightarrow> Some e | _ \<Rightarrow> None)"

fun client_live :: "client_pc option \<Rightarrow> bool" where
  "client_live None = False"
| "client_live (Some p) = (p \<noteq> C_Done)"

fun client_queued :: "client_pc option \<Rightarrow> bool" where
  "client_queued None = False"
| "client_queued (Some p) = (p \<notin> {C_Unlock_Remove, C_Free, C_Done})"

fun client_holds :: "client_pc option \<Rightarrow> bool" where
  "client_holds (Some (C_Write bs)) = True"
| "client_holds (Some (C_Unlock_Write bs)) = True"
| "client_holds (Some C_Remove) = True"
| "client_holds (Some C_Unlock_Remove) = True"
| "client_holds p = False"

definition main_holds :: "main_pc \<Rightarrow> bool" where
  "main_holds m = (case m of M_Insert e \<Rightarrow> True | M_Unlock e \<Rightarrow> True | _ \<Rightarrow> False)"

definition date_holds :: "date_pc \<Rightarrow> bool" where
  "date_holds d = (d \<in> {D_Write, D_Unlock})"

definition in_queue :: "main_pc \<Rightarrow> (nat \<rightharpoonup> client_pc) \<Rightarrow> nat \<Rightarrow> bool" where
  "in_queue a cs e \<longleftrightarrow> main_queued a = Some e \<or> client_queued (cs e)"

definition in_use :: "main_pc \<Rightarrow> (nat \<rightharpoonup> client_pc) \<Rightarrow> nat \<Rightarrow> bool" where
  "in_use a cs e \<longleftrightarrow> main_elem a = Some e \<or> client_live (cs e)"

definition queue_holds :: "qmem \<Rightarrow> nat set \<Rightarrow> bool" where
  "queue_holds m Q \<longleftrightarrow> (\<exists>xs. slist m thread_queue xs \<and> set xs = Q)"

text \<open>The mutex is held by the thread that is between its \<^verbatim>\<open>lock\<close> and \<^verbatim>\<open>unlock\<close>, and only then.\<close>

definition locks_ok :: "owner option \<Rightarrow> main_pc \<Rightarrow> (nat \<rightharpoonup> client_pc) \<Rightarrow> date_pc \<Rightarrow> bool" where
  "locks_ok mx a cs d \<longleftrightarrow>
     (\<forall>e. client_holds (cs e) \<longleftrightarrow> mx = Some (Client_Thread e)) \<and>
     (main_holds a \<longleftrightarrow> mx = Some Main_Thread) \<and> (date_holds d \<longleftrightarrow> mx = Some Date_Thread)"

text \<open>The queue has the elements it is to have, and an element is allocated while it is in use.
  Threads other than the newest are detached.\<close>

definition elems_ok :: "qmem \<Rightarrow> (nat \<rightharpoonup> client_thread_s) \<Rightarrow> main_pc \<Rightarrow> (nat \<rightharpoonup> client_pc) \<Rightarrow> bool" where
  "elems_ok m es a cs \<longleftrightarrow>
     queue_holds m {e. in_queue a cs e} \<and>
     (\<forall>e. alloc m (Elem e) \<longleftrightarrow> in_use a cs e) \<and> (\<forall>e. es e \<noteq> None \<longleftrightarrow> in_use a cs e) \<and>
     (\<forall>e. main_elem a = Some e \<longrightarrow> \<not> client_live (cs e)) \<and>
     (\<forall>e c. client_live (cs e) \<longrightarrow> a \<noteq> M_Detach e \<longrightarrow> es e = Some c \<longrightarrow> detached c) \<and>
     (\<forall>e. a = M_Detach e \<longrightarrow> cs e \<noteq> None)"

definition slist_inv :: "slist_server \<Rightarrow> bool" where
  "slist_inv s \<longleftrightarrow> locks_ok (queue_mutex s) (main_at s) (client_at s) (date_at s) \<and>
     elems_ok (mem s) (elems s) (main_at s) (client_at s)"

lemma client_queued_live: "client_queued p \<Longrightarrow> client_live p"
  by (cases p) auto

lemma main_queued_elem: "main_queued m = Some e \<Longrightarrow> main_elem m = Some e"
  by (cases m) (auto simp: main_queued_def main_elem_def)

lemma in_queue_use: "in_queue a cs e \<Longrightarrow> in_use a cs e"
  by (auto simp: in_queue_def in_use_def client_queued_live main_queued_elem)

section \<open>The queue under the operations\<close>

lemma queue_holds_new:
  assumes "queue_holds m Q" and "\<not> alloc m (Elem e)"
  shows "queue_holds (m\<lparr>cell := (cell m)(Elem e \<mapsto> p)\<rparr>) Q"
proof -
  from assms(1) obtain xs where xs: "slist m thread_queue xs" "set xs = Q" by (auto simp: queue_holds_def)
  from xs(1) assms(2) have "e \<notin> set xs" by (auto simp: slist_def dest: seg_alloc)
  then have "agree (cells thread_queue xs) m (m\<lparr>cell := (cell m)(Elem e \<mapsto> p)\<rparr>)"
    by (auto simp: agree_def cells_def)
  with xs show ?thesis by (auto simp: queue_holds_def intro: sl.rep_agree)
qed

lemma queue_holds_insert:
  assumes "queue_holds m Q" and "alloc m (Elem e)" and "e \<notin> Q"
  obtains m' where "SLIST_INSERT_HEAD thread_queue (Some e) m = Some m'"
    "queue_holds m' (insert e Q)" "\<And>l. alloc m' l = alloc m l"
proof -
  from assms(1) obtain xs where xs: "slist m thread_queue xs" "set xs = Q" by (auto simp: queue_holds_def)
  from slist_insert_head [OF xs(1) assms(2)] assms(3) xs(2) obtain m'
    where m': "SLIST_INSERT_HEAD thread_queue (Some e) m = Some m'" "frame (cells thread_queue (e # xs)) m m'"
      "slist m' thread_queue (e # xs)" by (auto elim: yieldsE)
  show ?thesis
  proof (rule that [OF m'(1)])
    show "queue_holds m' (insert e Q)"
      using m'(3) xs(2) unfolding queue_holds_def by (intro exI [of _ "e # xs"]) simp
  qed (rule frame_alloc [OF m'(2)])
qed

lemma queue_holds_remove:
  assumes "queue_holds m Q" and "e \<in> Q"
  obtains m' where "SLIST_REMOVE thread_queue (Some e) m = Some m'"
    "queue_holds m' (Q - {e})" "\<And>l. alloc m' l = alloc m l"
proof -
  from assms obtain xs ys where xs: "slist m thread_queue (xs @ e # ys)" "set (xs @ e # ys) = Q"
    by (metis queue_holds_def split_list)
  from slist_remove [OF xs(1)] obtain m'
    where m': "SLIST_REMOVE thread_queue (Some e) m = Some m'" "frame (cells thread_queue (xs @ e # ys)) m m'"
      "slist m' thread_queue (xs @ ys)" by (auto elim: yieldsE)
  have "distinct (xs @ e # ys)" using xs(1) by (simp add: slist_def)
  with xs(2) have "set (xs @ ys) = Q - {e}" by auto
  with m'(3) have "queue_holds m' (Q - {e})" by (auto simp: queue_holds_def)
  then show ?thesis using that m'(1) frame_alloc [OF m'(2)] by blast
qed

lemma queue_holds_free:
  assumes "queue_holds m Q" and "alloc m (Elem e)" and "e \<notin> Q"
  obtains m' where "free_elem e m = Some m'" "queue_holds m' Q"
    "\<And>l. alloc m' l \<longleftrightarrow> l \<noteq> Elem e \<and> alloc m l"
proof -
  from assms(1) obtain xs where xs: "slist m thread_queue xs" "set xs = Q" by (auto simp: queue_holds_def)
  let ?m = "m\<lparr>cell := (cell m)(Elem e := None), addr := (addr m)(Elem e := None)\<rparr>"
  have "agree (cells thread_queue xs) m ?m" using assms(3) xs(2) by (auto simp: agree_def cells_def)
  then have "queue_holds ?m Q" using xs unfolding queue_holds_def by (blast intro: sl.rep_agree)
  then show ?thesis using that [of ?m] assms(2) by (auto simp: free_elem_def alloc_def)
qed

section \<open>The invariant holds in every run\<close>

lemmas pc_defs = main_elem_def main_queued_def main_holds_def date_holds_def

lemma outcome_simps [simp]:
  "defined None = Undefined" "defined (Some s) = Next s"
  "lock_queue t s s' = Next s'' \<longleftrightarrow> queue_mutex s = None \<and> s'' = s'\<lparr>queue_mutex := Some t\<rparr>"
  "lock_queue t s s' \<noteq> Undefined"
  by (auto simp: defined_def lock_queue_def)

lemma defined_Next [simp]: "defined r = Next s \<longleftrightarrow> r = Some s" "defined r = Undefined \<longleftrightarrow> r = None"
  by (auto simp: defined_def split: option.splits)

lemma unlock_queue_Some [simp]:
  "unlock_queue t s = Some s' \<longleftrightarrow> queue_mutex s = Some t \<and> s' = s\<lparr>queue_mutex := None\<rparr>"
  "unlock_queue t s = None \<longleftrightarrow> queue_mutex s \<noteq> Some t"
  by (auto simp: unlock_queue_def)

text \<open>The moves of a client thread: within a region, and across its ends.\<close>

lemma locks_client:
  assumes "locks_ok mx a cs d"
  shows "client_holds (Some p) = client_holds (cs e) \<Longrightarrow> locks_ok mx a (cs(e \<mapsto> p)) d"
    and "mx = None \<Longrightarrow> client_holds (Some p) \<Longrightarrow> locks_ok (Some (Client_Thread e)) a (cs(e \<mapsto> p)) d"
    and "client_holds (cs e) \<Longrightarrow> \<not> client_holds (Some p) \<Longrightarrow> locks_ok None a (cs(e \<mapsto> p)) d"
  using assms unfolding locks_ok_def by (cases mx; auto)+

lemma elems_detached:
  "elems_ok m es a cs \<Longrightarrow> client_live (cs e) \<Longrightarrow> a \<noteq> M_Detach e \<Longrightarrow> es e = Some c \<Longrightarrow> detached c"
  unfolding elems_ok_def by blast

lemma elems_client:
  assumes "elems_ok m es a cs" and "client_queued (Some p) = client_queued (cs e)"
    and "client_live (Some p) = client_live (cs e)"
  shows "elems_ok m es a (cs(e \<mapsto> p))"
proof -
  have "in_queue a (cs(e \<mapsto> p)) = in_queue a cs" "in_use a (cs(e \<mapsto> p)) = in_use a cs"
    using assms(2,3) by (auto simp: in_queue_def in_use_def fun_eq_iff)
  moreover have "client_live ((cs(e \<mapsto> p)) e') = client_live (cs e')" for e' using assms(3) by auto
  ultimately show ?thesis using assms(1) unfolding elems_ok_def by auto
qed

lemma elems_client_remove:
  assumes "elems_ok m es a cs" and "cs e = Some C_Remove"
  obtains m' where "SLIST_REMOVE thread_queue (Some e) m = Some m'" "elems_ok m' es a (cs(e \<mapsto> C_Unlock_Remove))"
proof -
  have e: "in_queue a cs e" "main_elem a \<noteq> Some e" using assms by (auto simp: in_queue_def elems_ok_def)
  from assms(1) have "queue_holds m {e. in_queue a cs e}" by (simp add: elems_ok_def)
  then obtain m' where m': "SLIST_REMOVE thread_queue (Some e) m = Some m'"
      "queue_holds m' ({e. in_queue a cs e} - {e})" "\<And>l. alloc m' l = alloc m l"
    by (rule queue_holds_remove [of _ _ e]) (use e(1) in auto)
  have "{e'. in_queue a (cs(e \<mapsto> C_Unlock_Remove)) e'} = {e. in_queue a cs e} - {e}"
    using e(2) main_queued_elem by (auto simp: in_queue_def)
  moreover have "in_use a (cs(e \<mapsto> C_Unlock_Remove)) = in_use a cs"
    using assms(2) by (auto simp: in_use_def fun_eq_iff)
  moreover have "detached c" if "a \<noteq> M_Detach e" "es e = Some c" for c
    using elems_detached [OF assms(1), of e c] that assms(2) by simp
  ultimately have "elems_ok m' es a (cs(e \<mapsto> C_Unlock_Remove))"
    using m' assms by (auto simp: elems_ok_def)
  then show ?thesis using that m'(1) by blast
qed

lemma elems_client_free:
  assumes "elems_ok m es a cs" and "cs e = Some C_Free"
  obtains m' where "free_elem e m = Some m'" "elems_ok m' (es(e := None)) a (cs(e \<mapsto> C_Done))"
proof -
  have e: "in_use a cs e" "main_elem a \<noteq> Some e" using assms by (auto simp: in_use_def elems_ok_def)
  then have "\<not> in_queue a cs e" using assms(2) main_queued_elem by (auto simp: in_queue_def)
  moreover from assms(1) e(1) have "queue_holds m {e. in_queue a cs e}" "alloc m (Elem e)"
    by (auto simp: elems_ok_def)
  ultimately obtain m' where m': "free_elem e m = Some m'"
      "queue_holds m' {e. in_queue a cs e}" "\<And>l. alloc m' l \<longleftrightarrow> l \<noteq> Elem e \<and> alloc m l"
    by (auto elim: queue_holds_free [of _ _ e])
  have "in_queue a (cs(e \<mapsto> C_Done)) = in_queue a cs"
    using assms(2) by (auto simp: in_queue_def fun_eq_iff)
  moreover have "in_use a (cs(e \<mapsto> C_Done)) e' \<longleftrightarrow> e' \<noteq> e \<and> in_use a cs e'" for e'
    using e(2) by (auto simp: in_use_def)
  ultimately have "elems_ok m' (es(e := None)) a (cs(e \<mapsto> C_Done))"
    using m' assms by (auto simp: elems_ok_def)
  then show ?thesis using that m'(1) by blast
qed

lemma client_inv:
  assumes "slist_inv s"
  shows "handle_client ok rcv e s \<noteq> Undefined"
    and "handle_client ok rcv e s = Next s' \<Longrightarrow> slist_inv s'"
proof -
  from assms have l: "locks_ok (queue_mutex s) (main_at s) (client_at s) (date_at s)"
    and q: "elems_ok (mem s) (elems s) (main_at s) (client_at s)" by (auto simp: slist_inv_def)
  have h: "client_holds (client_at s e) \<longleftrightarrow> queue_mutex s = Some (Client_Thread e)"
    using l by (simp add: locks_ok_def)
  have u: "elems s e \<noteq> None" if "client_live (client_at s e)" using q that by (auto simp: elems_ok_def in_use_def)
  note moves = locks_client [OF l, where e = e] elems_client [OF q, where e = e]
  note facts = handle_client_def Let_def slist_inv_def bind_eq_Some_conv bind_eq_None_conv
  have "handle_client ok rcv e s \<noteq> Undefined \<and> (\<forall>s'. handle_client ok rcv e s = Next s' \<longrightarrow> slist_inv s')"
  proof (cases "client_at s e")
    case (Some p)
    show ?thesis
    proof (cases p)
      case C_Remove
      with q Some obtain m' where "SLIST_REMOVE thread_queue (Some e) (mem s) = Some m'"
        "elems_ok m' (elems s) (main_at s) ((client_at s)(e \<mapsto> C_Unlock_Remove))"
        by (auto elim: elems_client_remove)
      with C_Remove Some show ?thesis using locks_client(1) [OF l, of C_Unlock_Remove e] by (simp add: facts)
    next
      case C_Free
      with q Some obtain m' where "free_elem e (mem s) = Some m'"
        "elems_ok m' ((elems s)(e := None)) (main_at s) ((client_at s)(e \<mapsto> C_Done))"
        by (auto elim: elems_client_free)
      with C_Free Some show ?thesis using locks_client(1) [OF l, of C_Done e] by (simp add: facts)
    next
      case (C_Write bs)
      with Some show ?thesis using moves(1) [of "C_Unlock_Write bs"] by (simp add: facts moves)
    qed (use Some h u in \<open>auto simp: facts moves split: option.splits if_splits\<close>)
  qed (simp add: handle_client_def)
  then show "handle_client ok rcv e s \<noteq> Undefined" "handle_client ok rcv e s = Next s' \<Longrightarrow> slist_inv s'"
    by auto
qed

lemma date_inv:
  assumes "slist_inv s"
  shows "write_date ok d s \<noteq> Undefined" and "write_date ok d s = Next s' \<Longrightarrow> slist_inv s'"
  using assms
  by (cases "date_at s"; auto simp: write_date_def slist_inv_def locks_ok_def date_holds_def split: if_splits)+

text \<open>The moves of \<^verbatim>\<open>main\<close>.\<close>

lemma locks_main:
  assumes "locks_ok mx a cs d"
  shows "main_holds a' = main_holds a \<Longrightarrow> locks_ok mx a' cs d"
    and "mx = None \<Longrightarrow> main_holds a' \<Longrightarrow> locks_ok (Some Main_Thread) a' cs d"
    and "main_holds a \<Longrightarrow> \<not> main_holds a' \<Longrightarrow> locks_ok None a' cs d"
  using assms unfolding locks_ok_def by (cases mx; auto)+

lemma elems_main:
  assumes "elems_ok m es a cs" and "main_queued a' = main_queued a" "main_elem a' = main_elem a"
    and "\<And>e. a \<noteq> M_Detach e" "\<And>e. a' \<noteq> M_Detach e"
  shows "elems_ok m es a' cs"
proof -
  have "in_queue a' cs = in_queue a cs" "in_use a' cs = in_use a cs"
    using assms(2,3) by (auto simp: in_queue_def in_use_def fun_eq_iff)
  then show ?thesis using assms unfolding elems_ok_def by simp
qed

lemma elems_main_accept:
  assumes "elems_ok m es M_Accept cs" and "\<not> alloc m (Elem e)"
  shows "elems_ok (m\<lparr>cell := (cell m)(Elem e \<mapsto> p)\<rparr>) (es(e \<mapsto> c)) (M_Lock e) cs"
proof -
  have e: "\<not> client_live (cs e)" using assms by (auto simp: elems_ok_def in_use_def)
  have "in_queue (M_Lock e) cs = in_queue M_Accept cs" by (simp add: in_queue_def fun_eq_iff pc_defs)
  moreover have "in_use (M_Lock e) cs e' \<longleftrightarrow> e' = e \<or> in_use M_Accept cs e'" for e'
    by (auto simp: in_use_def pc_defs)
  moreover have "main_elem (M_Lock e) = Some e'' \<longleftrightarrow> e'' = e" for e'' by (auto simp: pc_defs)
  moreover have "queue_holds (m\<lparr>cell := (cell m)(Elem e \<mapsto> p)\<rparr>) {e. in_queue M_Accept cs e}"
    using assms by (simp add: elems_ok_def queue_holds_new)
  ultimately show ?thesis using assms(1) e by (auto simp: elems_ok_def alloc_def)
qed

lemma elems_main_insert:
  assumes "elems_ok m es (M_Insert e) cs"
  obtains m' where "SLIST_INSERT_HEAD thread_queue (Some e) m = Some m'" "elems_ok m' es (M_Unlock e) cs"
proof -
  have "\<not> client_live (cs e)" using assms by (simp add: elems_ok_def pc_defs)
  then have "\<not> in_queue (M_Insert e) cs e" by (auto simp: in_queue_def pc_defs dest: client_queued_live)
  moreover have "alloc m (Elem e)" "queue_holds m {e'. in_queue (M_Insert e) cs e'}"
    using assms by (auto simp: elems_ok_def in_use_def pc_defs)
  ultimately obtain m' where m': "SLIST_INSERT_HEAD thread_queue (Some e) m = Some m'"
      "queue_holds m' (insert e {e'. in_queue (M_Insert e) cs e'})" "\<And>l. alloc m' l = alloc m l"
    by (auto elim: queue_holds_insert [of _ _ e])
  have "{e'. in_queue (M_Unlock e) cs e'} = insert e {e'. in_queue (M_Insert e) cs e'}"
    by (auto simp: in_queue_def pc_defs)
  moreover have "in_use (M_Unlock e) cs = in_use (M_Insert e) cs" by (simp add: in_use_def fun_eq_iff pc_defs)
  moreover have "main_elem (M_Unlock e) = main_elem (M_Insert e)" by (simp add: pc_defs)
  ultimately have "elems_ok m' es (M_Unlock e) cs" using m' assms by (simp add: elems_ok_def)
  then show ?thesis using that m'(1) by blast
qed

lemma elems_main_create:
  assumes "elems_ok m es (M_Create e) cs"
  shows "elems_ok m es (M_Detach e) (cs(e \<mapsto> C_Open))"
proof -
  have "in_queue (M_Detach e) (cs(e \<mapsto> C_Open)) = in_queue (M_Create e) cs"
    "in_use (M_Detach e) (cs(e \<mapsto> C_Open)) = in_use (M_Create e) cs"
    by (auto simp: in_queue_def in_use_def fun_eq_iff pc_defs)
  moreover have "main_elem (M_Detach e) = None" by (simp add: pc_defs)
  ultimately show ?thesis using assms by (auto simp: elems_ok_def)
qed

lemma elems_main_detach:
  assumes "elems_ok m es (M_Detach e) cs" and "es e = Some c"
  shows "elems_ok m (es(e \<mapsto> c\<lparr>detached := True\<rparr>)) M_Accept cs"
proof -
  have "in_queue M_Accept cs = in_queue (M_Detach e) cs" "in_use M_Accept cs = in_use (M_Detach e) cs"
    "main_elem M_Accept = None" by (simp_all add: in_queue_def in_use_def fun_eq_iff pc_defs)
  moreover have "in_use (M_Detach e) cs e" using assms by (auto simp: elems_ok_def)
  ultimately show ?thesis using assms by (auto simp: elems_ok_def)
qed

text \<open>The two undefined calls of \<^verbatim>\<open>pthread_detach\<close>.\<close>

definition detach_undefined :: "slist_server \<Rightarrow> bool" where
  "detach_undefined s \<longleftrightarrow>
     (\<exists>e. main_at s = M_Detach e \<and> client_at s e = Some C_Done) \<or> (\<exists>e. main_at s = M_Detach_Unset e)"

lemma main_inv:
  assumes "slist_inv s"
  shows "main_loop r created s = Undefined \<longleftrightarrow> detach_undefined s"
    and "fresh_accept r s \<Longrightarrow> main_loop r created s = Next s' \<Longrightarrow> slist_inv s'"
proof -
  from assms have l: "locks_ok (queue_mutex s) (main_at s) (client_at s) (date_at s)"
    and q: "elems_ok (mem s) (elems s) (main_at s) (client_at s)" by (auto simp: slist_inv_def)
  have h: "main_holds (main_at s) \<longleftrightarrow> queue_mutex s = Some Main_Thread" using l by (simp add: locks_ok_def)
  note moves = locks_main [OF l] elems_main [OF q]
  note facts = main_loop_def slist_inv_def bind_eq_Some_conv bind_eq_None_conv detach_undefined_def
  have "(main_loop r created s = Undefined \<longleftrightarrow> detach_undefined s) \<and>
    (fresh_accept r s \<longrightarrow> (\<forall>s'. main_loop r created s = Next s' \<longrightarrow> slist_inv s'))"
  proof (cases "main_at s")
    case M_Accept
    with q l moves(1) show ?thesis
      by (cases r) (auto simp: facts accept_connection_def fresh_accept_def pc_defs elems_main_accept)
  next
    case (M_Insert e)
    with q obtain m' where "SLIST_INSERT_HEAD thread_queue (Some e) (mem s) = Some m'"
      "elems_ok m' (elems s) (M_Unlock e) (client_at s)" by (auto elim: elems_main_insert)
    with M_Insert moves(1) [of "M_Unlock e"] show ?thesis by (simp add: facts pc_defs)
  next
    case (M_Create e)
    then have "\<not> client_live (client_at s e)" using q by (simp add: elems_ok_def pc_defs)
    then have "\<not> client_holds (client_at s e)" by (cases "client_at s e") auto
    with l M_Create have "locks_ok (queue_mutex s) (M_Detach e) ((client_at s)(e \<mapsto> C_Open)) (date_at s)"
      by (auto simp: locks_ok_def pc_defs)
    moreover have "elems_ok (mem s) (elems s) (M_Detach_Unset e) (client_at s)"
      "locks_ok (queue_mutex s) (M_Detach_Unset e) (client_at s) (date_at s)"
      using M_Create by (auto intro!: moves simp: pc_defs)
    ultimately show ?thesis using M_Create q by (auto simp: facts elems_main_create)
  next
    case (M_Detach e)
    then have "client_at s e \<noteq> None" "elems s e \<noteq> None \<longleftrightarrow> client_live (client_at s e)"
      using q by (auto simp: elems_ok_def in_use_def pc_defs)
    then have "elems s e = None \<longleftrightarrow> client_at s e = Some C_Done" by auto
    with M_Detach q moves(1) show ?thesis by (auto simp: facts pc_defs elems_main_detach)
  qed (use h in \<open>auto simp: facts moves pc_defs\<close>)
  then show "main_loop r created s = Undefined \<longleftrightarrow> detach_undefined s"
    "fresh_accept r s \<Longrightarrow> main_loop r created s = Next s' \<Longrightarrow> slist_inv s'" by auto
qed

lemma begin_inv:
  assumes "server_begin R (slist_process client date) = Some (Inr s)"
  shows "slist_inv s"
proof -
  let ?p = "slist_process client date"
  have "slist_inv (?p\<lparr>server_socket := n, mem := upd_cell (Head thread_queue) NULL (mem ?p),
      main_at := M_Accept, date_at := d, open_sockets := S\<rparr>)" if "d = D_Open \<or> d = D_Done" for d S n
    using that
    by (auto simp: slist_inv_def slist_process_def locks_ok_def elems_ok_def queue_holds_def in_queue_def
        in_use_def pc_defs slist_def alloc_def upd_cell_def)
  moreover have "alloc (mem (slist_process client date)) (Head thread_queue)"
    by (simp add: slist_process_def alloc_def)
  ultimately show ?thesis using assms
    by (auto simp: server_begin_def Let_def slist_process_def split: if_splits)
qed

lemma slist_step_inv: "slist_step s s' \<Longrightarrow> slist_inv s \<Longrightarrow> slist_inv s'"
  by (cases rule: slist_step.cases) (auto dest: main_inv client_inv date_inv)

lemma slist_reachable_inv:
  assumes "server_begin R (slist_process client date) = Some (Inr s0)" and "slist_step\<^sup>*\<^sup>* s0 s"
  shows "slist_inv s"
  using assms(2) by induction (use begin_inv [OF assms(1)] slist_step_inv in auto)

text \<open>A client that could not open its file stays where it is, and the socket of the server does not change.\<close>

lemma slist_step_failed:
  assumes "slist_step s s'" and "slist_inv s" and "client_at s e = Some C_Failed"
  shows "client_at s' e = Some C_Failed"
  using assms(1)
proof cases
  case (by_main r created)
  have "main_elem (main_at s) \<noteq> Some e" using assms(2,3) by (auto simp: slist_inv_def elems_ok_def)
  with by_main assms(3) show ?thesis
    by (auto simp: main_loop_def accept_connection_def defined_def lock_queue_def unlock_queue_def main_elem_def
        split: main_pc.splits accept_result.splits if_splits Option.bind_splits option.splits)
next
  case (by_client rcv ok e')
  with assms(3) show ?thesis
    by (cases "e' = e") (auto simp: handle_client_def Let_def defined_def lock_queue_def unlock_queue_def
        split: client_pc.splits if_splits Option.bind_splits option.splits)
next
  case (by_date ok d)
  with assms(3) show ?thesis
    by (auto simp: write_date_def defined_def lock_queue_def unlock_queue_def
        split: date_pc.splits if_splits option.splits)
qed

lemma slist_run_failed:
  assumes "slist_step\<^sup>*\<^sup>* s s'" and "slist_inv s" and "client_at s e = Some C_Failed"
  shows "client_at s' e = Some C_Failed"
proof -
  from assms(1) have "slist_inv s' \<and> client_at s' e = Some C_Failed"
    by induction (use assms(2,3) slist_step_inv slist_step_failed in blast)+
  then show ?thesis by simp
qed



lemma slist_turn_step: "slist_turn t s = Some s' \<Longrightarrow> slist_step s s'"
  by (cases t; cases s) (auto intro: slist_step.intros elim!: proceed.elims split: if_splits)

lemma slist_exec_run: "slist_exec ts s = Some s' \<Longrightarrow> slist_step\<^sup>*\<^sup>* s s'"
proof (induction ts arbitrary: s)
  case (Cons t ts)
  then show ?case by (auto simp: bind_eq_Some_conv intro: slist_turn_step converse_rtranclp_into_rtranclp)
qed simp

text \<open>A thread that holds the mutex can always go on.\<close>

lemma client_waits:
  assumes "client_holds (client_at s e)"
  shows "handle_client ok rcv e s \<noteq> Waits"
  using assms by (cases "client_at s e" rule: client_holds.cases)
    (auto simp: handle_client_def Let_def defined_def split: option.splits)

text \<open>Only the signal handler ends the process.\<close>

lemma threads_go_on:
  "handle_client ok rcv e s \<noteq> Exits n s'" "write_date ok d s \<noteq> Exits n s'" "main_loop r created s \<noteq> Exits n s'"
  by (auto simp: handle_client_def write_date_def main_loop_def Let_def defined_def lock_queue_def
      split: main_pc.splits client_pc.splits date_pc.splits option.splits)

lemma not_stuck: "r \<noteq> Undefined \<Longrightarrow> r \<noteq> Waits \<Longrightarrow> (\<And>n s'. r \<noteq> Exits n s') \<Longrightarrow> \<exists>s'. r = Next s'"
  by (cases r) auto

lemma mutex_holder_proceeds:
  assumes "slist_inv s" and "queue_mutex s = Some t"
  shows "case t of Main_Thread \<Rightarrow> \<exists>s'. main_loop r created s = Next s'
    | Client_Thread e \<Rightarrow> \<exists>s'. handle_client ok rcv e s = Next s' | Date_Thread \<Rightarrow> \<exists>s'. write_date ok d s = Next s'"
proof (cases t)
  case Main_Thread
  with assms obtain e where "main_at s = M_Insert e \<or> main_at s = M_Unlock e"
    by (auto simp: slist_inv_def locks_ok_def main_holds_def split: main_pc.splits)
  with main_inv(1) [OF assms(1), of r created] Main_Thread show ?thesis
    by (auto simp: main_loop_def defined_def detach_undefined_def split: option.splits)
next
  case (Client_Thread e)
  with assms have "client_holds (client_at s e)" by (simp add: slist_inv_def locks_ok_def)
  with client_inv(1) [OF assms(1)] client_waits Client_Thread show ?thesis by (simp add: not_stuck threads_go_on)
next
  case Date_Thread
  with assms have "date_at s = D_Write \<or> date_at s = D_Unlock"
    by (auto simp: slist_inv_def locks_ok_def date_holds_def)
  with date_inv(1) [OF assms(1), of ok d] Date_Thread show ?thesis
    by (auto simp: write_date_def defined_def split: option.splits)
qed

section \<open>Concrete runs\<close>

definition demo_start :: start_results where
  "demo_start = \<lparr>date_create_result = 0, socket_result = 3, bind_result = 0, listen_result = 0\<rparr>"

text \<open>A connection is accepted; its thread runs to its end before \<^verbatim>\<open>main\<close> detaches it, or later.\<close>

definition demo_accept :: "turn list" where
  "demo_accept = [Turn_Main (A_Element 4 7 NULL) True, Turn_Main A_Error True, Turn_Main A_Error True,
     Turn_Main A_Error True, Turn_Main A_Error True]"

definition demo_client :: "turn list" where
  "demo_client = [Turn_Client 7 True None, Turn_Client 7 True (Some ''hi''), Turn_Client 7 True None,
     Turn_Client 7 True None, Turn_Client 7 True None, Turn_Client 7 True None, Turn_Client 7 True None,
     Turn_Client 7 True None, Turn_Client 7 True None, Turn_Client 7 True None, Turn_Client 7 True None]"

lemmas demo_defs = demo_start_def demo_accept_def demo_client_def server_begin_def slist_process_def
  main_loop_def handle_client_def accept_connection_def lock_queue_def unlock_queue_def fresh_accept_def
  recv_fits_def thread_queue_def Let_def

lemma demo_race:
  "\<exists>s0 s. server_begin demo_start (slist_process [] []) = Some (Inr s0) \<and>
    slist_exec (demo_accept @ demo_client) s0 = Some s \<and> main_at s = M_Detach 7 \<and> client_at s 7 = Some C_Done \<and>
    client_file s = ''hi'' \<and> echoed s = [(4, ''hi'')]"
  by (simp add: demo_defs SLIST_INIT_def set_cell_def SLIST_INSERT_HEAD_def SLIST_REMOVE_def
      SLIST_REMOVE_HEAD_def set_SLIST_NEXT_def free_elem_def alloc_def)


section \<open>Properties\<close>

text \<open>
  C15: The list of threads under every interleaving of \<^verbatim>\<open>main\<close>, the clients and the date thread,
  whether \<^verbatim>\<open>pthread_create\<close> succeeds or not.
  A traversal of the list always ends and visits exactly the elements that were inserted and not
  removed, and an element is allocated from its \<^verbatim>\<open>malloc\<close> to its \<^verbatim>\<open>free\<close>. No step of a client or of
  the date thread is undefined and the thread that holds the mutex can go on. \<^verbatim>\<open>main\<close> has two
  undefined steps, both its \<^verbatim>\<open>pthread_detach\<close>: when the thread has freed its element already, from which
  the identifier is read, and when the thread could not be created, so that the identifier was never
  set. A client that cannot open its file never removes its element: it stays in the list and
  allocated for ever.
\<close>

theorem slist_server_safe:
  assumes "server_begin R (slist_process client date) = Some (Inr s0)" and "slist_step\<^sup>*\<^sup>* s0 s"
  shows "(\<exists>xs. slist_visit thread_queue (mem s) = Some xs \<and> distinct xs \<and>
      (\<forall>e. e \<in> set xs \<longleftrightarrow> in_queue (main_at s) (client_at s) e)) \<and>
    (\<forall>e. alloc (mem s) (Elem e) \<longleftrightarrow> in_use (main_at s) (client_at s) e) \<and>
    (\<forall>ok rcv e. handle_client ok rcv e s \<noteq> Undefined) \<and> (\<forall>ok d. write_date ok d s \<noteq> Undefined) \<and>
    (\<forall>r created. main_loop r created s = Undefined \<longleftrightarrow>
      (\<exists>e. main_at s = M_Detach e \<and> client_at s e = Some C_Done) \<or> (\<exists>e. main_at s = M_Detach_Unset e)) \<and>
    (\<forall>t r created ok rcv d. queue_mutex s = Some t \<longrightarrow>
      (case t of Main_Thread \<Rightarrow> \<exists>s'. main_loop r created s = Next s'
       | Client_Thread e \<Rightarrow> \<exists>s'. handle_client ok rcv e s = Next s'
       | Date_Thread \<Rightarrow> \<exists>s'. write_date ok d s = Next s')) \<and>
    (\<forall>e s'. client_at s e = Some C_Failed \<longrightarrow> slist_step\<^sup>*\<^sup>* s s' \<longrightarrow>
      in_queue (main_at s') (client_at s') e \<and> alloc (mem s') (Elem e))"
proof -
  note inv = slist_reachable_inv [OF assms]
  then obtain xs where xs: "slist (mem s) thread_queue xs" "set xs = {e. in_queue (main_at s) (client_at s) e}"
    by (auto simp: slist_inv_def elems_ok_def queue_holds_def)
  from sl.visit_law [OF xs(1)] sl.rep_distinct [OF xs(1)] xs(2)
  have "\<exists>xs. slist_visit thread_queue (mem s) = Some xs \<and> distinct xs \<and>
      (\<forall>e. e \<in> set xs \<longleftrightarrow> in_queue (main_at s) (client_at s) e)" by (auto simp: slist_api_def)
  moreover have "\<forall>e. alloc (mem s) (Elem e) \<longleftrightarrow> in_use (main_at s) (client_at s) e"
    using inv by (simp add: slist_inv_def elems_ok_def)
  moreover have "in_queue (main_at s') (client_at s') e \<and> alloc (mem s') (Elem e)"
    if "client_at s e = Some C_Failed" "slist_step\<^sup>*\<^sup>* s s'" for e s'
    using slist_run_failed [OF that(2) inv that(1)] slist_reachable_inv [OF assms(1) rtranclp_trans [OF assms(2) that(2)]]
    by (auto simp: slist_inv_def elems_ok_def in_queue_def in_use_def)
  ultimately show ?thesis
    using client_inv(1) [OF inv] date_inv(1) [OF inv] main_inv(1) [OF inv, unfolded detach_undefined_def] mutex_holder_proceeds [OF inv]
    by blast
qed

theorem slist_server_safe_witness:
  "\<exists>s0 s. server_begin demo_start (slist_process [] []) = Some (Inr s0) \<and> slist_step\<^sup>*\<^sup>* s0 s \<and>
    main_at s = M_Detach 7 \<and> \<not> alloc (mem s) (Elem 7) \<and> (\<forall>r created. main_loop r created s = Undefined)"
proof -
  from demo_race obtain s0 s where s: "server_begin demo_start (slist_process [] []) = Some (Inr s0)"
    "slist_exec (demo_accept @ demo_client) s0 = Some s" "main_at s = M_Detach 7" "client_at s 7 = Some C_Done"
    by blast
  note safe = slist_server_safe [OF s(1) slist_exec_run [OF s(2)]]
  have "\<not> in_use (main_at s) (client_at s) 7" using s(3,4) by (simp add: in_use_def main_elem_def)
  with safe s(3,4) have "\<not> alloc (mem s) (Elem 7)" "\<forall>r created. main_loop r created s = Undefined" by auto
  with s(1,3) slist_exec_run [OF s(2)] show ?thesis by blast
qed



end
