(* ===== verification/Sequential_Server.thy ===== *)
theory Sequential_Server
  imports Aesd_Prelude
begin

text \<open>
  The server of \<^verbatim>\<open>server/server_prototypes/server.prototype.0.0.5.c\<close>, which serves one
  connection after the other: it appends a packet to the data file, and sends the whole file
  back. The results of the library calls are parameters. \<open>None\<close> is undefined behaviour or a
  loop that does not end.
\<close>

section \<open>State and environment\<close>

text \<open>How a process ends before the end of \<^verbatim>\<open>main\<close>: with a status, or in \<^verbatim>\<open>assert\<close>.\<close>

datatype ending = Exits int | Aborts

text \<open>
  \<open>fwrite_res\<close> and \<open>write_res\<close> say how many of the given bytes the \<open>n\<close>-th call takes (\<open>None\<close>
  for an error of \<^verbatim>\<open>write\<close>), \<open>spilled\<close> how many bytes of a stream that is never flushed
  nevertheless reach the file.
\<close>

record seq_env =
  sigaction_ok :: "bool \<times> bool"
  getaddrinfo_ok :: bool
  setsockopt_ok :: bool
  bind_ok :: bool
  daemon_ok :: bool
  fwrite_res :: "nat \<Rightarrow> nat \<Rightarrow> nat"
  write_res :: "nat \<Rightarrow> nat \<Rightarrow> nat option"
  spilled :: "nat \<Rightarrow> nat"

text \<open>
  \<open>content\<close> is the data file, \<open>stream\<close> what has been written to the open stream and not been
  flushed; \<open>out\<close> what the current client has been sent, \<open>replies\<close> what each client got whose
  connection was closed; \<open>fds\<close> the open sockets.
\<close>

record seq_state =
  content :: "byte list"
  file_exists :: bool
  stream :: "byte list"
  out :: "byte list"
  replies :: "(nat \<times> byte list) list"
  fds :: "nat set"
  calls :: nat

abbreviation count_call :: "seq_state \<Rightarrow> seq_state" where
  "count_call s \<equiv> s\<lparr>calls := Suc (calls s)\<rparr>"

definition flush :: "seq_state \<Rightarrow> seq_state" where
  "flush s = s\<lparr>content := content s @ stream s, stream := []\<rparr>"

text \<open>Leaving \<^verbatim>\<open>main\<close> or \<^verbatim>\<open>exit\<close> flushes the stream; \<^verbatim>\<open>abort\<close> does not.\<close>

definition leave :: "seq_env \<Rightarrow> ending \<Rightarrow> seq_state \<Rightarrow> ending \<times> seq_state" where
  "leave E e s = (e, case e of
     Exits n \<Rightarrow> flush s
   | Aborts \<Rightarrow> s\<lparr>content := content s @ take (spilled E (length (stream s))) (stream s), stream := []\<rparr>)"

section \<open>A connection\<close>

definition BUFFER_SIZE :: nat where "BUFFER_SIZE = 64"

text \<open>
  What \<^verbatim>\<open>read\<close> gives: between 1 and \<open>BUFFER_SIZE\<close> bytes, or an error. When the sequence is at
  its end the client has closed the connection, and every further \<^verbatim>\<open>read\<close> gives 0 bytes.
\<close>

datatype read_result = Chunk "byte list" | Read_Error

text \<open>
  The loop \<^verbatim>\<open>do { ... } while (memchr(buffer, '\n', bytes_received) == NULL)\<close>, with the last
  chunk as its result. Of the buffer only the bytes just received are looked at. \<open>opened\<close> is
  whether \<^verbatim>\<open>fopen\<close> gave a stream; writing to a null stream is undefined.
\<close>

partial_function (option) receive_packet ::
    "seq_env \<Rightarrow> bool \<Rightarrow> read_result list \<Rightarrow> seq_state \<Rightarrow> ((ending + byte list) \<times> seq_state) option" where
  "receive_packet E opened rs s =
     (case rs of
        [] \<Rightarrow> if opened then receive_packet E opened [] (count_call s) else None
      | Read_Error # rs' \<Rightarrow> Some (Inl (Exits (- 1)), s)
      | Chunk bs # rs' \<Rightarrow>
          if \<not> opened then None
          else
            let n = fwrite_res E (calls s) (length bs);
                s1 = (count_call s)\<lparr>stream := stream s @ take n bs\<rparr>
            in if n < length bs then Some (Inl (Exits (- 1)), s1)
               else if newline \<in> set bs then Some (Inr bs, s1)
               else receive_packet E opened rs' s1)"

text \<open>The inner loop that sends what is in the buffer.\<close>

partial_function (option) send_all ::
    "seq_env \<Rightarrow> byte list \<Rightarrow> seq_state \<Rightarrow> ((ending + unit) \<times> seq_state) option" where
  "send_all E bs s =
     (if bs = [] then Some (Inr (), s)
      else (case write_res E (calls s) (length bs) of
              None \<Rightarrow> Some (Inl (Exits (- 1)), count_call s)
            | Some n \<Rightarrow> send_all E (drop n bs) ((count_call s)\<lparr>out := out s @ take n bs\<rparr>)))"

text \<open>
  The loop over the file, from position \<open>pos\<close>; the end-of-file indicator is set by a read
  that gets less than it asked for.
\<close>

partial_function (option) echo_file ::
    "seq_env \<Rightarrow> nat \<Rightarrow> seq_state \<Rightarrow> ((ending + unit) \<times> seq_state) option" where
  "echo_file E pos s = do {
     let bs = take BUFFER_SIZE (drop pos (content s));
     (r, s1) \<leftarrow> send_all E bs s;
     case r of
       Inl e \<Rightarrow> Some (Inl e, s1)
     | Inr _ \<Rightarrow> if length bs < BUFFER_SIZE then Some (Inr (), s1) else echo_file E (pos + length bs) s1
   }"

declare receive_packet.simps [code] send_all.simps [code] echo_file.simps [code]

text \<open>One round of the main loop: \<^verbatim>\<open>listen\<close> or \<^verbatim>\<open>accept\<close> fails, or there is a connection.\<close>

datatype connection =
    Listen_Error
  | Accept_Error
  | Connection nat bool bool "read_result list"

definition serve :: "seq_env \<Rightarrow> connection \<Rightarrow> seq_state \<Rightarrow> ((ending + unit) \<times> seq_state) option" where
  "serve E c s =
     (case c of
        Listen_Error \<Rightarrow> Some (Inl (Exits (- 1)), s)
      | Accept_Error \<Rightarrow> Some (Inr (), s)
      | Connection server_fd ntop_ok fopen_ok rs \<Rightarrow>
          let s1 = s\<lparr>fds := insert server_fd (fds s), out := []\<rparr>
          in if \<not> ntop_ok then Some (Inl (Exits (- 1)), s1)
             else do {
               let s2 = (if fopen_ok then s1\<lparr>file_exists := True\<rparr> else s1);
               (r, s3) \<leftarrow> receive_packet E fopen_ok rs s2;
               case r of
                 Inl e \<Rightarrow> Some (Inl e, s3)
               | Inr buffer \<Rightarrow>
                   if last buffer \<noteq> newline then Some (Inl Aborts, s3)
                   else do {
                     (r', s4) \<leftarrow> echo_file E 0 (flush s3);
                     case r' of
                       Inl e \<Rightarrow> Some (Inl e, s4)
                     | Inr _ \<Rightarrow> Some (Inr (), s4\<lparr>fds := fds s4 - {server_fd}, replies := replies s4 @ [(server_fd, out s4)]\<rparr>)
                   }
             })"

section \<open>The program\<close>

definition seq_signal_handler :: "nat \<Rightarrow> bool \<Rightarrow> bool" where
  "seq_signal_handler signal_number shutdown_signal = True"

text \<open>The main loop over the connections that come before a signal sets \<^verbatim>\<open>shutdown_signal\<close>.\<close>

fun serve_all :: "seq_env \<Rightarrow> connection list \<Rightarrow> seq_state \<Rightarrow> ((ending + unit) \<times> seq_state) option" where
  "serve_all E [] s = Some (Inr (), s)"
| "serve_all E (c # cs) s = do {
     (r, s1) \<leftarrow> serve E c s;
     case r of Inl e \<Rightarrow> Some (Inl e, s1) | Inr _ \<Rightarrow> serve_all E cs s1
   }"

text \<open>The arguments: \<open>Inr\<close> is \<^verbatim>\<open>is_daemon\<close>.\<close>

definition seq_args :: "string list \<Rightarrow> ending + bool" where
  "seq_args argv =
     (if length argv > 2 then Inl (Exits (- 1))
      else if length argv = 2 then
        (if argv ! 1 = ''-d'' then Inr True else Inl (Exits (- 1)))
      else Inr False)"

text \<open>\<open>fd\<close> is the descriptor that \<^verbatim>\<open>socket\<close> gives; its error is only noticed by \<^verbatim>\<open>setsockopt\<close>.\<close>

definition seq_start :: "seq_env \<Rightarrow> string list \<Rightarrow> nat \<Rightarrow> seq_state \<Rightarrow> (ending + unit) \<times> seq_state" where
  "seq_start E argv fd s =
     (case seq_args argv of
        Inl e \<Rightarrow> (Inl e, s)
      | Inr is_daemon \<Rightarrow>
          if \<not> (fst (sigaction_ok E) \<and> snd (sigaction_ok E)) then (Inl (Exits (- 1)), s)
          else
            let s1 = s\<lparr>fds := insert fd (fds s)\<rparr>
            in if \<not> getaddrinfo_ok E then (Inl (Exits (- 1)), s1)
               else if \<not> setsockopt_ok E then (Inl (Exits (- 1)), s1)
               else if \<not> bind_ok E then (Inl (Exits (- 1)), s1)
               else if is_daemon \<and> \<not> daemon_ok E then (Inl (Exits (- 1)), s1)
               else (Inr (), s1))"

definition seq_main :: "seq_env \<Rightarrow> string list \<Rightarrow> nat \<Rightarrow> connection list \<Rightarrow> seq_state \<Rightarrow> (ending \<times> seq_state) option" where
  "seq_main E argv fd cs s =
     (case seq_start E argv fd s of
        (Inl e, s1) \<Rightarrow> Some (leave E e s1)
      | (Inr _, s1) \<Rightarrow> do {
          (r, s2) \<leftarrow> serve_all E cs s1;
          case r of
            Inl e \<Rightarrow> Some (leave E e s2)
          | Inr _ \<Rightarrow> Some (leave E (Exits 0) (s2\<lparr>fds := fds s2 - {fd}, file_exists := False\<rparr>))
        })"

section \<open>Receiving\<close>

text \<open>Files take all that is written to them, and clients some of it at each call.\<close>

definition reliable :: "seq_env \<Rightarrow> bool" where
  "reliable E \<longleftrightarrow> (\<forall>k n. fwrite_res E k n = n) \<and>
     (\<forall>k n. 0 < n \<longrightarrow> (\<exists>m. write_res E k n = Some m \<and> 0 < m \<and> m \<le> n))"

text \<open>The packet of a sequence of chunks, up to the first chunk with a newline, which has to end it.\<close>

fun packet :: "read_result list \<Rightarrow> byte list option" where
  "packet [] = None"
| "packet (Read_Error # rs) = None"
| "packet (Chunk bs # rs) =
     (if newline \<in> set bs then (if last bs = newline then Some bs else None)
      else map_option ((@) bs) (packet rs))"

text \<open>The client stops sending before it has sent a newline.\<close>

fun unfinished :: "read_result list \<Rightarrow> bool" where
  "unfinished [] = True"
| "unfinished (Read_Error # rs) = False"
| "unfinished (Chunk bs # rs) = (newline \<notin> set bs \<and> unfinished rs)"

text \<open>The chunk with the first newline goes on behind it.\<close>

fun overlong :: "read_result list \<Rightarrow> bool" where
  "overlong [] = False"
| "overlong (Read_Error # rs) = False"
| "overlong (Chunk bs # rs) = (if newline \<in> set bs then last bs \<noteq> newline else overlong rs)"

lemma receive_packet_whole:
  assumes "reliable E"
  shows "packet rs = Some p \<Longrightarrow> \<exists>b k. last b = newline \<and>
    receive_packet E True rs s = Some (Inr b, s\<lparr>stream := stream s @ p, calls := k\<rparr>)"
proof (induction rs arbitrary: s p rule: packet.induct)
  case (3 bs rs)
  have n: "fwrite_res E k n = n" for k n using assms by (simp add: reliable_def)
  show ?case
  proof (cases "newline \<in> set bs")
    case True
    with 3(2) n show ?thesis
      by (intro exI [of _ bs] exI [of _ "Suc (calls s)"])
        (auto simp: receive_packet.simps [of E True "Chunk bs # rs"] split: if_splits)
  next
    case False
    with 3(2) obtain p' where p': "packet rs = Some p'" "p = bs @ p'" by auto
    from 3(1) [OF False p'(1), of "(count_call s)\<lparr>stream := stream s @ bs\<rparr>"] False n p'(2) show ?thesis
      by (simp add: receive_packet.simps [of E True "Chunk bs # rs"])
  qed
qed simp_all

lemma receive_packet_overlong:
  assumes "reliable E"
  shows "overlong rs \<Longrightarrow> \<exists>b s'. last b \<noteq> newline \<and> receive_packet E True rs s = Some (Inr b, s')"
proof (induction rs arbitrary: s rule: overlong.induct)
  case (3 bs rs)
  have n: "fwrite_res E k n = n" for k n using assms by (simp add: reliable_def)
  from 3 n show ?case
    by (cases "newline \<in> set bs") (auto simp: receive_packet.simps [of E True "Chunk bs # rs"])
qed simp_all

text \<open>At the end of the connection \<^verbatim>\<open>read\<close> gives nothing, again and again.\<close>

lemma receive_packet_returns:
  "receive_packet E opened rs s = Some y \<Longrightarrow> opened \<longrightarrow> reliable E \<longrightarrow> \<not> unfinished rs"
proof (induction rule: receive_packet.raw_induct [rotated, consumes 1])
  case (1 f E opened rs s y)
  show ?case
  proof (intro impI notI)
    assume o: "opened" and r: "reliable E" and u: "unfinished rs"
    have n: "fwrite_res E k n = n" for k n using r by (simp add: reliable_def)
    show False
    proof (cases rs)
      case Nil
      with 1(2) o have "f E opened [] (count_call s) = Some y" by simp
      from 1(1) [OF this] o r show False by simp
    next
      case (Cons c rs')
      with u obtain bs where bs: "c = Chunk bs" "newline \<notin> set bs" "unfinished rs'" by (cases c) auto
      with 1(2) o n Cons have "f E opened rs' ((count_call s)\<lparr>stream := stream s @ bs\<rparr>) = Some y" by simp
      from 1(1) [OF this] o r bs(3) show False by simp
    qed
  qed
qed

lemma receive_packet_hangs: "reliable E \<Longrightarrow> unfinished rs \<Longrightarrow> receive_packet E True rs s = None"
  using receive_packet_returns [of E True rs s] by (cases "receive_packet E True rs s") auto

section \<open>Sending\<close>

lemma send_all_reliable:
  assumes "reliable E"
  shows "\<exists>k. send_all E bs s = Some (Inr (), s\<lparr>out := out s @ bs, calls := k\<rparr>)"
proof (induction bs arbitrary: s rule: length_induct)
  case (1 bs)
  show ?case
  proof (cases bs)
    case Nil
    then show ?thesis by (intro exI [of _ "calls s"]) (simp add: send_all.simps [of E "[]"])
  next
    case (Cons b bs')
    with assms obtain m where m: "write_res E (calls s) (length bs) = Some m" "0 < m" "m \<le> length bs"
      unfolding reliable_def by (metis length_greater_0_conv list.discI)
    let ?s = "(count_call s)\<lparr>out := out s @ take m bs\<rparr>"
    have "length (drop m bs) < length bs" using m(2,3) by simp
    with 1 obtain k where "send_all E (drop m bs) ?s = Some (Inr (), ?s\<lparr>out := out ?s @ drop m bs, calls := k\<rparr>)"
      by blast
    moreover have "bs \<noteq> []" using Cons by simp
    ultimately show ?thesis using m(1) by (intro exI [of _ k]) (simp add: send_all.simps [of E bs s])
  qed
qed

lemma echo_file_reliable:
  assumes "reliable E"
  shows "pos \<le> length (content s) \<Longrightarrow>
    \<exists>k. echo_file E pos s = Some (Inr (), s\<lparr>out := out s @ drop pos (content s), calls := k\<rparr>)"
proof (induction "length (content s) - pos" arbitrary: pos s rule: less_induct)
  case less
  define bs where "bs = take BUFFER_SIZE (drop pos (content s))"
  from send_all_reliable [OF assms] obtain k
    where k: "send_all E bs s = Some (Inr (), s\<lparr>out := out s @ bs, calls := k\<rparr>)" by blast
  have step: "echo_file E pos s = (if length bs < BUFFER_SIZE then Some (Inr (), s\<lparr>out := out s @ bs, calls := k\<rparr>)
      else echo_file E (pos + length bs) (s\<lparr>out := out s @ bs, calls := k\<rparr>))"
    using k by (simp add: echo_file.simps [of E pos s] bs_def Let_def)
  have split: "drop pos (content s) = bs @ drop (pos + length bs) (content s)"
  proof -
    have "bs = take (length bs) (drop pos (content s))"
      unfolding bs_def by (cases "BUFFER_SIZE \<le> length (content s) - pos") simp_all
    then show ?thesis by (metis append_take_drop_id drop_drop add.commute)
  qed
  show ?case
  proof (cases "length bs < BUFFER_SIZE")
    case True
    then have "bs = drop pos (content s)" by (auto simp: bs_def)
    with True step show ?thesis by auto
  next
    case False
    let ?s = "s\<lparr>out := out s @ bs, calls := k\<rparr>"
    have len: "length bs = 64" "pos + 64 \<le> length (content s)"
      using False less.prems by (auto simp: bs_def BUFFER_SIZE_def min_def split: if_splits)
    then have "length (content s) - (pos + 64) < length (content s) - pos" by linarith
    with len obtain k' where "echo_file E (pos + length bs) ?s =
        Some (Inr (), ?s\<lparr>out := out ?s @ drop (pos + length bs) (content s), calls := k'\<rparr>)"
      using less.hyps [of ?s "pos + length bs"] by auto
    with step False split show ?thesis by (intro exI [of _ k']) simp
  qed
qed

section \<open>Serving\<close>

text \<open>Connections that succeed: every library call works and the client sends one packet.\<close>

fun well_behaved :: "connection \<Rightarrow> bool" where
  "well_behaved Listen_Error = False"
| "well_behaved Accept_Error = True"
| "well_behaved (Connection fd ntop_ok fopen_ok rs) = (ntop_ok \<and> fopen_ok \<and> packet rs \<noteq> None)"

fun packets :: "connection list \<Rightarrow> (nat \<times> byte list) list" where
  "packets [] = []"
| "packets (Connection fd ntop_ok fopen_ok rs # cs) = (fd, the (packet rs)) # packets cs"
| "packets (c # cs) = packets cs"

text \<open>The replies: each client is sent the file with its own packet at the end.\<close>

fun grown :: "byte list \<Rightarrow> (nat \<times> byte list) list \<Rightarrow> (nat \<times> byte list) list" where
  "grown file [] = []"
| "grown file ((fd, p) # ps) = (fd, file @ p) # grown (file @ p) ps"

lemma serve_connection:
  assumes "reliable E" and "stream s = []" and "packet rs = Some p"
  shows "\<exists>s'. serve E (Connection fd True True rs) s = Some (Inr (), s') \<and> content s' = content s @ p \<and>
    replies s' = replies s @ [(fd, content s @ p)] \<and> stream s' = [] \<and> fds s' = fds s - {fd}"
proof -
  let ?s = "s\<lparr>fds := insert fd (fds s), out := [], file_exists := True\<rparr>"
  from receive_packet_whole [OF assms(1,3), of ?s] assms(2) obtain b k
    where b: "last b = newline" "receive_packet E True rs ?s = Some (Inr b, ?s\<lparr>stream := p, calls := k\<rparr>)"
    by auto
  let ?f = "flush (?s\<lparr>stream := p, calls := k\<rparr>)"
  from echo_file_reliable [OF assms(1), of 0 ?f] obtain k'
    where "echo_file E 0 ?f = Some (Inr (), ?f\<lparr>out := content s @ p, calls := k'\<rparr>)"
    by (auto simp: flush_def)
  with b show ?thesis by (auto simp: serve_def flush_def)
qed

lemma serve_all_well_behaved:
  assumes "reliable E"
  shows "\<forall>c \<in> set cs. well_behaved c \<Longrightarrow> stream s = [] \<Longrightarrow>
    \<exists>s'. serve_all E cs s = Some (Inr (), s') \<and> content s' = content s @ concat (map snd (packets cs)) \<and>
      replies s' = replies s @ grown (content s) (packets cs) \<and> stream s' = [] \<and> fds s' \<subseteq> fds s"
proof (induction cs arbitrary: s)
  case Nil
  then show ?case by simp
next
  case (Cons c cs)
  show ?case
  proof (cases c)
    case Listen_Error
    with Cons.prems show ?thesis by simp
  next
    case Accept_Error
    with Cons.IH [of s] Cons.prems show ?thesis by (simp add: serve_def)
  next
    case (Connection fd ntop_ok fopen_ok rs)
    with Cons.prems obtain p where p: "ntop_ok" "fopen_ok" "packet rs = Some p" by auto
    from serve_connection [OF assms Cons.prems(2) p(3), of fd] obtain s1
      where s1: "serve E (Connection fd True True rs) s = Some (Inr (), s1)" "content s1 = content s @ p"
        "replies s1 = replies s @ [(fd, content s @ p)]" "stream s1 = []" "fds s1 = fds s - {fd}" by blast
    from Cons.IH [OF _ s1(4)] Cons.prems obtain s'
      where s': "serve_all E cs s1 = Some (Inr (), s')" "content s' = content s1 @ concat (map snd (packets cs))"
        "replies s' = replies s1 @ grown (content s1) (packets cs)" "stream s' = []" "fds s' \<subseteq> fds s1" by auto
    have "serve_all E (c # cs) s = Some (Inr (), s')" using s1(1) s'(1) p Connection by simp
    with s1 s' p Connection show ?thesis by (intro exI [of _ s']) auto
  qed
qed

lemma serve_all_append:
  "serve_all E cs s = Some (Inr (), s1) \<Longrightarrow> serve_all E (cs @ ds) s = serve_all E ds s1"
proof (induction cs arbitrary: s)
  case (Cons c cs)
  from Cons.prems obtain r s2 where "serve E c s = Some (r, s2)" by (auto simp: bind_eq_Some_conv)
  with Cons show ?case by (cases r) auto
qed simp

section \<open>Properties\<close>

definition starts :: "seq_env \<Rightarrow> string list \<Rightarrow> bool" where
  "starts E argv \<longleftrightarrow> sigaction_ok E = (True, True) \<and> getaddrinfo_ok E \<and> setsockopt_ok E \<and> bind_ok E \<and>
     daemon_ok E \<and> (length argv = 1 \<or> length argv = 2 \<and> argv ! 1 = ''-d'')"

lemma seq_start_ok: "starts E argv \<Longrightarrow> seq_start E argv fd s = (Inr (), s\<lparr>fds := insert fd (fds s)\<rparr>)"
  by (auto simp: starts_def seq_start_def seq_args_def)

definition demo_seq_env :: seq_env where
  "demo_seq_env = \<lparr>sigaction_ok = (True, True), getaddrinfo_ok = True, setsockopt_ok = True, bind_ok = True,
     daemon_ok = True, fwrite_res = (\<lambda>k n. n), write_res = (\<lambda>k n. Some (min n 3)), spilled = (\<lambda>n. 0)\<rparr>"

definition demo_seq_state :: seq_state where
  "demo_seq_state = \<lparr>content = [], file_exists = False, stream = [], out = [], replies = [], fds = {}, calls = 0\<rparr>"

lemma demo_seq: "reliable demo_seq_env" "starts demo_seq_env [''server'']"
  by (auto simp: reliable_def starts_def demo_seq_env_def)

text \<open>
  C33: The sequential server echoes the file. When it starts, and each connection brings one
  packet, in any number of chunks, whose only newline is in its last chunk and ends it, then
  the server ends with status 0 after the signal; each client has been sent the whole file up
  to and including its own packet, however \<^verbatim>\<open>write\<close> cut it, failed \<^verbatim>\<open>accept\<close>s made no
  difference, every descriptor is closed and the file is removed.
\<close>

theorem seq_server_echoes:
  assumes "reliable E" and "starts E argv" and "\<forall>c \<in> set cs. well_behaved c"
    and "stream s = []" and "fds s = {}"
  shows "\<exists>s'. seq_main E argv fd cs s = Some (Exits 0, s') \<and>
    replies s' = replies s @ grown (content s) (packets cs) \<and>
    content s' = content s @ concat (map snd (packets cs)) \<and> fds s' = {} \<and> \<not> file_exists s'"
proof -
  from serve_all_well_behaved [OF assms(1,3), of "s\<lparr>fds := {fd}\<rparr>"] assms(4) obtain s1
    where s1: "serve_all E cs (s\<lparr>fds := {fd}\<rparr>) = Some (Inr (), s1)"
      "content s1 = content s @ concat (map snd (packets cs))"
      "replies s1 = replies s @ grown (content s) (packets cs)" "stream s1 = []" "fds s1 \<subseteq> {fd}" by auto
  then show ?thesis
    using assms(5) by (auto simp: seq_main_def seq_start_ok [OF assms(2)] leave_def flush_def)
qed

theorem seq_server_echoes_witness:
  "\<exists>s'. seq_main demo_seq_env [''server''] 3
      [Connection 4 True True [Chunk ''a'', Chunk [newline]], Accept_Error,
       Connection 4 True True [Chunk (''bcde'' @ [newline])]] demo_seq_state = Some (Exits 0, s') \<and>
    replies s' = [(4, ''a'' @ [newline]), (4, ''a'' @ [newline] @ ''bcde'' @ [newline])] \<and> fds s' = {}"
proof -
  let ?cs = "[Connection 4 True True [Chunk ''a'', Chunk [newline]], Accept_Error,
       Connection 4 True True [Chunk (''bcde'' @ [newline])]]"
  have "\<exists>s'. seq_main demo_seq_env [''server''] 3 ?cs demo_seq_state = Some (Exits 0, s') \<and>
      replies s' = replies demo_seq_state @ grown (content demo_seq_state) (packets ?cs) \<and>
      content s' = content demo_seq_state @ concat (map snd (packets ?cs)) \<and> fds s' = {} \<and> \<not> file_exists s'"
    by (rule seq_server_echoes [OF demo_seq]) (simp_all add: demo_seq_state_def)
  then show ?thesis by (elim exE conjE, intro exI conjI) (simp_all add: demo_seq_state_def)
qed

text \<open>
  What a single client can do to the sequential server, after any number of well-behaved
  ones. If bytes follow the first newline in the same chunk, the assertion about the last
  byte fails and the whole server aborts. If the client closes its connection before it has
  sent a newline, the receiving loop never ends: \<^verbatim>\<open>read\<close> gives no bytes, which is not looked
  at.
\<close>

theorem seq_server_bad_client:
  assumes "reliable E" and "starts E argv" and "\<forall>c \<in> set cs. well_behaved c" and "stream s = []"
  shows "(overlong rs \<longrightarrow> (\<exists>s'. seq_main E argv fd (cs @ Connection cfd True True rs # ds) s = Some (Aborts, s'))) \<and>
    (unfinished rs \<longrightarrow> seq_main E argv fd (cs @ Connection cfd True True rs # ds) s = None)"
proof -
  from serve_all_well_behaved [OF assms(1,3), of "s\<lparr>fds := insert fd (fds s)\<rparr>"] assms(4) obtain s1
    where "serve_all E cs (s\<lparr>fds := insert fd (fds s)\<rparr>) = Some (Inr (), s1)" by auto
  then have main: "seq_main E argv fd (cs @ Connection cfd True True rs # ds) s = do {
      (r, s2) \<leftarrow> serve_all E (Connection cfd True True rs # ds) s1;
      case r of Inl e \<Rightarrow> Some (leave E e s2)
      | Inr _ \<Rightarrow> Some (leave E (Exits 0) (s2\<lparr>fds := fds s2 - {fd}, file_exists := False\<rparr>))}"
    by (simp add: seq_main_def seq_start_ok [OF assms(2)] serve_all_append)
  have "\<exists>s'. seq_main E argv fd (cs @ Connection cfd True True rs # ds) s = Some (Aborts, s')" if "overlong rs"
  proof -
    from receive_packet_overlong [OF assms(1) that] obtain b s2 where
      "last b \<noteq> newline"
      "receive_packet E True rs (s1\<lparr>fds := insert cfd (fds s1), out := [], file_exists := True\<rparr>) = Some (Inr b, s2)"
      by blast
    then show ?thesis unfolding main by (simp add: serve_def leave_def)
  qed
  moreover have "seq_main E argv fd (cs @ Connection cfd True True rs # ds) s = None" if "unfinished rs"
    unfolding main using receive_packet_hangs [OF assms(1) that] by (simp add: serve_def)
  ultimately show ?thesis by blast
qed

theorem seq_server_bad_client_witness:
  "(\<exists>s'. seq_main demo_seq_env [''server''] 3 [Connection 4 True True [Chunk ([newline] @ ''x'')]] demo_seq_state =
      Some (Aborts, s')) \<and>
   seq_main demo_seq_env [''server''] 3 [Connection 4 True True [Chunk ''x'']] demo_seq_state = None"
  using seq_server_bad_client [OF demo_seq, of "[]" demo_seq_state "[Chunk ([newline] @ ''x'')]" 3 4 "[]"]
    seq_server_bad_client [OF demo_seq, of "[]" demo_seq_state "[Chunk ''x'']" 3 4 "[]"]
  by (simp add: demo_seq_state_def)

end
