(* ===== verification/Shared_Counter.thy ===== *)
theory Shared_Counter
  imports Aesd_Prelude
begin

text \<open>
  \<^verbatim>\<open>prototypes/threads/thread.prototype.0.0.5.c\<close>: two threads that increment a shared counter
  under a mutex. The program is a step relation, in which each load, store and library call of
  \<^verbatim>\<open>main\<close> and of the threads is a step and every interleaving is a run.
\<close>

section \<open>State\<close>

text \<open>Where a thread is, before the named action; \<^verbatim>\<open>counter++\<close> is a load and a store.\<close>

datatype thread_pc = At_Lock | At_Load | At_Store int | At_Print | At_Time | At_Unlock | Returned

datatype main_pc =
  At_Init | At_Create1 | At_Create2 | At_Join1 | At_Join2 | At_Destroy | At_Final | Main_Returned | Exited

datatype console = Thread_Line nat int | Final_Line int

text \<open>
  \<open>threads\<close> are the created threads; \<open>counter_mutex\<close> is \<open>None\<close> while the mutex is not initialised
  and else its holder; \<open>undefined_behaviour\<close> is set by an action the C standard does not define.
\<close>

record counter_state =
  main_at :: main_pc
  threads :: "nat \<rightharpoonup> thread_pc"
  counter :: int
  counter_mutex :: "nat option option"
  printed :: "console list"
  time_file :: "byte list option"
  undefined_behaviour :: bool

text \<open>Results of library calls; \<open>stamp t\<close> is the text of \<^verbatim>\<open>strftime\<close> in thread \<open>t\<close>.\<close>

record counter_env =
  mutex_init_ok :: bool
  create_ok :: "nat \<Rightarrow> bool"
  time_fopen_ok :: "nat \<Rightarrow> bool"
  stamp :: "nat \<Rightarrow> byte list"

definition counter_start :: counter_state where
  "counter_start = \<lparr>main_at = At_Init, threads = Map.empty, counter = 0, counter_mutex = None,
     printed = [], time_file = None, undefined_behaviour = False\<rparr>"

section \<open>Steps\<close>

text \<open>\<^verbatim>\<open>fprintf\<close> on the null stream of a failed \<^verbatim>\<open>fopen\<close> is undefined.\<close>

definition myTime :: "counter_env \<Rightarrow> nat \<Rightarrow> counter_state \<Rightarrow> counter_state" where
  "myTime E t s =
     (if time_fopen_ok E t then s\<lparr>time_file := Some (stamp E t @ [newline])\<rparr>
      else s\<lparr>undefined_behaviour := True\<rparr>)"

abbreviation thread_at :: "nat \<Rightarrow> thread_pc \<Rightarrow> counter_state \<Rightarrow> counter_state" where
  "thread_at t p s \<equiv> s\<lparr>threads := (threads s)(t \<mapsto> p)\<rparr>"

text \<open>The next action of a thread; \<open>None\<close> when it waits for the mutex or has returned.\<close>

definition thread_function :: "counter_env \<Rightarrow> nat \<Rightarrow> counter_state \<Rightarrow> counter_state option" where
  "thread_function E t s =
     (case threads s t of
        None \<Rightarrow> None
      | Some At_Lock \<Rightarrow>
          (case counter_mutex s of
             None \<Rightarrow> Some (s\<lparr>undefined_behaviour := True\<rparr>)
           | Some None \<Rightarrow> Some (thread_at t At_Load (s\<lparr>counter_mutex := Some (Some t)\<rparr>))
           | Some (Some t') \<Rightarrow> None)
      | Some At_Load \<Rightarrow> Some (thread_at t (At_Store (counter s + 1)) s)
      | Some (At_Store v) \<Rightarrow> Some (thread_at t At_Print (s\<lparr>counter := v\<rparr>))
      | Some At_Print \<Rightarrow> Some (thread_at t At_Time (s\<lparr>printed := printed s @ [Thread_Line t (counter s)]\<rparr>))
      | Some At_Time \<Rightarrow> Some (thread_at t At_Unlock (myTime E t s))
      | Some At_Unlock \<Rightarrow>
          (if counter_mutex s = Some (Some t) then Some (thread_at t Returned (s\<lparr>counter_mutex := Some None\<rparr>))
           else Some (s\<lparr>undefined_behaviour := True\<rparr>))
      | Some Returned \<Rightarrow> None)"

definition create_thread :: "counter_env \<Rightarrow> nat \<Rightarrow> main_pc \<Rightarrow> counter_state \<Rightarrow> counter_state" where
  "create_thread E t p s =
     (if create_ok E t then thread_at t At_Lock (s\<lparr>main_at := p\<rparr>) else s\<lparr>main_at := Exited\<rparr>)"

definition join_thread :: "nat \<Rightarrow> main_pc \<Rightarrow> counter_state \<Rightarrow> counter_state option" where
  "join_thread t p s = (if threads s t = Some Returned then Some (s\<lparr>main_at := p\<rparr>) else None)"

definition counter_main :: "counter_env \<Rightarrow> counter_state \<Rightarrow> counter_state option" where
  "counter_main E s =
     (case main_at s of
        At_Init \<Rightarrow>
          Some (if mutex_init_ok E then s\<lparr>counter_mutex := Some None, main_at := At_Create1\<rparr>
                else s\<lparr>main_at := Exited\<rparr>)
      | At_Create1 \<Rightarrow> Some (create_thread E 1 At_Create2 s)
      | At_Create2 \<Rightarrow> Some (create_thread E 2 At_Join1 s)
      | At_Join1 \<Rightarrow> join_thread 1 At_Join2 s
      | At_Join2 \<Rightarrow> join_thread 2 At_Destroy s
      | At_Destroy \<Rightarrow>
          Some (if counter_mutex s = Some None then s\<lparr>counter_mutex := None, main_at := At_Final\<rparr>
                else s\<lparr>undefined_behaviour := True\<rparr>)
      | At_Final \<Rightarrow> Some (s\<lparr>printed := printed s @ [Final_Line (counter s)], main_at := Main_Returned\<rparr>)
      | Main_Returned \<Rightarrow> None
      | Exited \<Rightarrow> None)"

definition running :: "counter_state \<Rightarrow> bool" where
  "running s \<longleftrightarrow> main_at s \<notin> {Main_Returned, Exited} \<and> \<not> undefined_behaviour s"

text \<open>The process goes on until \<^verbatim>\<open>main\<close> has returned or exited.\<close>

inductive counter_step :: "counter_env \<Rightarrow> counter_state \<Rightarrow> counter_state \<Rightarrow> bool" for E where
  step_thread: "running s \<Longrightarrow> thread_function E t s = Some s' \<Longrightarrow> counter_step E s s'"
| step_main: "running s \<Longrightarrow> counter_main E s = Some s' \<Longrightarrow> counter_step E s s'"

inductive_cases counter_stepE: "counter_step E s s'"

section \<open>The invariant\<close>

fun critical :: "thread_pc option \<Rightarrow> bool" where
  "critical None = False"
| "critical (Some p) = (p \<notin> {At_Lock, Returned})"

text \<open>Whether a thread has stored its increment, and has printed it.\<close>

fun stored :: "thread_pc option \<Rightarrow> bool" where
  "stored None = False"
| "stored (Some p) = (p \<in> {At_Print, At_Time, At_Unlock, Returned})"

fun reported :: "thread_pc option \<Rightarrow> bool" where
  "reported None = False"
| "reported (Some p) = (p \<in> {At_Time, At_Unlock, Returned})"

fun pending :: "thread_pc option \<Rightarrow> int option" where
  "pending (Some (At_Store v)) = Some v"
| "pending p = None"

text \<open>The lines that threads \<open>t\<close> and \<open>u\<close> have printed, by whether each has.\<close>

fun thread_lines :: "nat \<Rightarrow> nat \<Rightarrow> bool \<Rightarrow> bool \<Rightarrow> console list set" where
  "thread_lines t u False False = {[]}"
| "thread_lines t u True False = {[Thread_Line t 1]}"
| "thread_lines t u False True = {[Thread_Line u 1]}"
| "thread_lines t u True True = {[Thread_Line t 1, Thread_Line u 2], [Thread_Line u 1, Thread_Line t 2]}"

text \<open>
  The threads \<open>t\<close> at \<open>p\<close> and \<open>u\<close> at \<open>q\<close>, the counter, the mutex and the output: the counter
  is the number of stored increments, a thread is in its critical section exactly when it
  holds the mutex, and what it is about to store is still the successor of the counter.
\<close>

definition guarded :: "nat \<Rightarrow> nat \<Rightarrow> thread_pc option \<Rightarrow> thread_pc option \<Rightarrow> int \<Rightarrow> nat option option \<Rightarrow>
    console list \<Rightarrow> bool" where
  "guarded t u p q c mx pr \<longleftrightarrow>
     c = of_bool (stored p) + of_bool (stored q) \<and>
     (critical p \<longleftrightarrow> mx = Some (Some t)) \<and> (critical q \<longleftrightarrow> mx = Some (Some u)) \<and>
     mx \<in> {None, Some None, Some (Some t), Some (Some u)} \<and>
     (\<forall>v. pending p = Some v \<longrightarrow> v = c + 1) \<and> (\<forall>v. pending q = Some v \<longrightarrow> v = c + 1) \<and>
     pr \<in> thread_lines t u (reported p) (reported q)"

lemma guarded_sym: "guarded t u p q c mx pr = guarded u t q p c mx pr"
proof -
  have "thread_lines t u a b = thread_lines u t b a" for a b by (cases a; cases b) auto
  then show ?thesis by (auto simp: guarded_def)
qed

text \<open>The position of a thread after its step, with the counter, the mutex and the output.\<close>

lemma guarded_steps:
  assumes "t \<noteq> u" and "guarded t u (Some p) q c mx pr"
  shows "p = At_Lock \<Longrightarrow> mx = Some None \<Longrightarrow> guarded t u (Some At_Load) q c (Some (Some t)) pr"
    and "p = At_Load \<Longrightarrow> guarded t u (Some (At_Store (c + 1))) q c mx pr"
    and "p = At_Store v \<Longrightarrow> guarded t u (Some At_Print) q v mx pr"
    and "p = At_Print \<Longrightarrow> guarded t u (Some At_Time) q c mx (pr @ [Thread_Line t c])"
    and "p = At_Time \<Longrightarrow> guarded t u (Some At_Unlock) q c mx pr"
    and "p = At_Unlock \<Longrightarrow> mx = Some (Some t) \<and> guarded t u (Some Returned) q c (Some None) pr"
proof -
  show "p = At_Lock \<Longrightarrow> mx = Some None \<Longrightarrow> guarded t u (Some At_Load) q c (Some (Some t)) pr"
    using assms by (auto simp: guarded_def)
  have q: "\<not> critical q" if "critical (Some p)" using assms that by (auto simp: guarded_def)
  then have q': "stored q = reported q" if "critical (Some p)"
    using that by (cases q) auto
  show "p = At_Load \<Longrightarrow> guarded t u (Some (At_Store (c + 1))) q c mx pr"
    using assms by (auto simp: guarded_def)
  show "p = At_Store v \<Longrightarrow> guarded t u (Some At_Print) q v mx pr"
    using assms q by (cases q) (auto simp: guarded_def)
  show "p = At_Print \<Longrightarrow> guarded t u (Some At_Time) q c mx (pr @ [Thread_Line t c])"
    using assms q q' by (cases "reported q") (auto simp: guarded_def)
  show "p = At_Time \<Longrightarrow> guarded t u (Some At_Unlock) q c mx pr"
    using assms by (auto simp: guarded_def)
  show "p = At_Unlock \<Longrightarrow> mx = Some (Some t) \<and> guarded t u (Some Returned) q c (Some None) pr"
    using assms q by (auto simp: guarded_def)
qed

text \<open>What \<^verbatim>\<open>main\<close> has done, for each of its positions.\<close>

definition main_inv :: "main_pc \<Rightarrow> thread_pc option \<Rightarrow> thread_pc option \<Rightarrow> nat option option \<Rightarrow> bool" where
  "main_inv m p q mx \<longleftrightarrow>
     (case m of
        At_Init \<Rightarrow> p = None \<and> q = None \<and> mx = None
      | At_Create1 \<Rightarrow> p = None \<and> q = None \<and> mx \<noteq> None
      | At_Create2 \<Rightarrow> p \<noteq> None \<and> q = None \<and> mx \<noteq> None
      | At_Join1 \<Rightarrow> p \<noteq> None \<and> q \<noteq> None \<and> mx \<noteq> None
      | At_Join2 \<Rightarrow> p = Some Returned \<and> q \<noteq> None \<and> mx \<noteq> None
      | At_Destroy \<Rightarrow> p = Some Returned \<and> q = Some Returned \<and> mx \<noteq> None
      | At_Final \<Rightarrow> p = Some Returned \<and> q = Some Returned \<and> mx = None
      | _ \<Rightarrow> True)"

definition counter_inv :: "counter_state \<Rightarrow> bool" where
  "counter_inv s \<longleftrightarrow> (\<forall>t. t \<noteq> 1 \<longrightarrow> t \<noteq> 2 \<longrightarrow> threads s t = None) \<and>
     (if main_at s = Main_Returned then \<exists>ls \<in> thread_lines 1 2 True True. printed s = ls @ [Final_Line 2]
      else main_inv (main_at s) (threads s 1) (threads s 2) (counter_mutex s) \<and>
        guarded 1 2 (threads s 1) (threads s 2) (counter s) (counter_mutex s) (printed s))"

text \<open>
  Undefined behaviour has happened exactly when a thread whose \<^verbatim>\<open>fopen\<close> failed has gone on to
  \<^verbatim>\<open>fprintf\<close>, and then nothing has happened since.
\<close>

definition stream_inv :: "counter_env \<Rightarrow> counter_state \<Rightarrow> bool" where
  "stream_inv E s \<longleftrightarrow>
     (undefined_behaviour s \<longleftrightarrow> (\<exists>t. \<not> time_fopen_ok E t \<and> threads s t = Some At_Unlock)) \<and>
     (\<forall>t. \<not> time_fopen_ok E t \<longrightarrow> threads s t \<noteq> Some Returned)"

lemma stream_inv_start: "stream_inv E counter_start"
  by (simp add: stream_inv_def counter_start_def)

lemma counter_inv_start: "counter_inv counter_start"
  by (simp add: counter_inv_def counter_start_def main_inv_def guarded_def)

text \<open>How many steps a thread and \<^verbatim>\<open>main\<close> have made.\<close>

fun thread_progress :: "thread_pc option \<Rightarrow> nat" where
  "thread_progress None = 0"
| "thread_progress (Some At_Lock) = 0"
| "thread_progress (Some At_Load) = 1"
| "thread_progress (Some (At_Store v)) = 2"
| "thread_progress (Some At_Print) = 3"
| "thread_progress (Some At_Time) = 4"
| "thread_progress (Some At_Unlock) = 5"
| "thread_progress (Some Returned) = 6"

fun main_progress :: "main_pc \<Rightarrow> nat" where
  "main_progress At_Init = 0"
| "main_progress At_Create1 = 1"
| "main_progress At_Create2 = 2"
| "main_progress At_Join1 = 3"
| "main_progress At_Join2 = 4"
| "main_progress At_Destroy = 5"
| "main_progress At_Final = 6"
| "main_progress Main_Returned = 7"
| "main_progress Exited = 7"

definition progress :: "counter_state \<Rightarrow> nat" where
  "progress s = main_progress (main_at s) + thread_progress (threads s 1) + thread_progress (threads s 2)"

text \<open>One step of thread \<open>t\<close>, the other being \<open>u\<close>.\<close>

lemma thread_function_guarded:
  assumes "t \<noteq> u" and c: "guarded t u (threads s t) (threads s u) (counter s) (counter_mutex s) (printed s)"
    and m: "counter_mutex s \<noteq> None"
    and step: "thread_function E t s = Some s'"
  shows "guarded t u (threads s' t) (threads s u) (counter s') (counter_mutex s') (printed s') \<and>
    undefined_behaviour s' = (undefined_behaviour s \<or> threads s t = Some At_Time \<and> \<not> time_fopen_ok E t) \<and>
    main_at s' = main_at s \<and> counter_mutex s' \<noteq> None \<and>
    (\<exists>p'. threads s' = (threads s)(t \<mapsto> p') \<and> thread_progress (Some p') = Suc (thread_progress (threads s t)) \<and>
      (p' = At_Unlock \<longleftrightarrow> threads s t = Some At_Time) \<and> (p' = Returned \<longrightarrow> threads s t = Some At_Unlock)) \<and>
    threads s t \<noteq> None \<and> threads s t \<noteq> Some Returned"
proof -
  from step obtain p where p: "threads s t = Some p" by (auto simp: thread_function_def split: option.splits)
  note steps = guarded_steps [OF assms(1) c [unfolded p]]
  show ?thesis
    using step p m steps
    by (cases p) (auto simp: thread_function_def myTime_def split: option.splits)
qed

lemma thread_step_streams:
  assumes "stream_inv E s" and "\<not> undefined_behaviour s" and "threads s' = (threads s)(t \<mapsto> p')"
    and "undefined_behaviour s' = (undefined_behaviour s \<or> threads s t = Some At_Time \<and> \<not> time_fopen_ok E t)"
    and "p' = At_Unlock \<longleftrightarrow> threads s t = Some At_Time" and "p' = Returned \<longrightarrow> threads s t = Some At_Unlock"
  shows "stream_inv E s'"
  using assms by (auto simp: stream_inv_def)

lemma thread_function_inv:
  assumes inv: "counter_inv s" and str: "stream_inv E s" and run: "running s"
    and step: "thread_function E t s = Some s'"
  shows "counter_inv s' \<and> stream_inv E s' \<and> progress s < progress s'"
proof -
  from step have "threads s t \<noteq> None" by (auto simp: thread_function_def split: option.splits)
  with inv have t: "t = 1 \<or> t = 2" by (auto simp: counter_inv_def)
  from inv run have guarded: "guarded 1 2 (threads s 1) (threads s 2) (counter s) (counter_mutex s) (printed s)"
    and main: "main_inv (main_at s) (threads s 1) (threads s 2) (counter_mutex s)"
    by (auto simp: counter_inv_def running_def)
  have m: "counter_mutex s \<noteq> None"
    using main \<open>threads s t \<noteq> None\<close> t step run
    by (auto simp: main_inv_def running_def thread_function_def split: main_pc.splits)
  have ub: "\<not> undefined_behaviour s" using run by (simp add: running_def)
  show ?thesis
    using t
  proof
    assume t: "t = 1"
    note g = thread_function_guarded [of 1 2, OF _ guarded m step [unfolded t]]
    then obtain p' where "threads s' = (threads s)(1 \<mapsto> p')"
      "thread_progress (Some p') = Suc (thread_progress (threads s 1))"
      "p' = At_Unlock \<longleftrightarrow> threads s 1 = Some At_Time" "p' = Returned \<longrightarrow> threads s 1 = Some At_Unlock" by auto
    note p' = this
    have "stream_inv E s'" by (rule thread_step_streams [OF str ub p'(1) _ p'(3,4)]) (use g in simp)
    moreover from g p' inv run main have "counter_inv s'"
      by (auto simp: counter_inv_def main_inv_def running_def split: main_pc.splits)
    ultimately show ?thesis using g p'(1,2) by (simp add: progress_def)
  next
    assume t: "t = 2"
    note g = thread_function_guarded [of 2 1, OF _ guarded [unfolded guarded_sym [of 1 2]] m step [unfolded t],
        unfolded guarded_sym [of 2 1]]
    then obtain p' where "threads s' = (threads s)(2 \<mapsto> p')"
      "thread_progress (Some p') = Suc (thread_progress (threads s 2))"
      "p' = At_Unlock \<longleftrightarrow> threads s 2 = Some At_Time" "p' = Returned \<longrightarrow> threads s 2 = Some At_Unlock" by auto
    note p' = this
    have "stream_inv E s'" by (rule thread_step_streams [OF str ub p'(1) _ p'(3,4)]) (use g in simp)
    moreover from g p' inv run main have "counter_inv s'"
      by (auto simp: counter_inv_def main_inv_def running_def split: main_pc.splits)
    ultimately show ?thesis using g p'(1,2) by (simp add: progress_def)
  qed
qed

text \<open>The steps of \<^verbatim>\<open>main\<close>.\<close>

lemma guarded_main:
  shows "guarded t u None None c None pr \<Longrightarrow> guarded t u None None c (Some None) pr"
    and "guarded t u None q c mx pr \<Longrightarrow> guarded t u (Some At_Lock) q c mx pr"
    and "guarded t u p None c mx pr \<Longrightarrow> guarded t u p (Some At_Lock) c mx pr"
    and "guarded t u (Some Returned) (Some Returned) c mx pr \<Longrightarrow> mx \<noteq> None \<Longrightarrow>
      mx = Some None \<and> guarded t u (Some Returned) (Some Returned) c None pr"
    and "guarded t u (Some Returned) (Some Returned) c mx pr \<Longrightarrow> c = 2 \<and> pr \<in> thread_lines t u True True"
  by (auto simp: guarded_def)

lemma counter_main_inv:
  assumes inv: "counter_inv s" and run: "running s" and step: "counter_main E s = Some s'"
  shows "counter_inv s'"
proof -
  from inv run have guarded: "guarded 1 2 (threads s 1) (threads s 2) (counter s) (counter_mutex s) (printed s)"
    and main: "main_inv (main_at s) (threads s 1) (threads s 2) (counter_mutex s)"
    and other: "\<forall>t. t \<noteq> 1 \<longrightarrow> t \<noteq> 2 \<longrightarrow> threads s t = None"
    by (auto simp: counter_inv_def running_def)
  show ?thesis
  proof (cases "main_at s")
    case At_Init
    with guarded main other step guarded_main(1) [of 1 2] show ?thesis
      by (auto simp: counter_inv_def main_inv_def counter_main_def split: if_splits)
  next
    case At_Create1
    with guarded main other step guarded_main(2) [of 1 2] show ?thesis
      by (auto simp: counter_inv_def main_inv_def counter_main_def create_thread_def split: if_splits)
  next
    case At_Create2
    with guarded main other step guarded_main(3) [of 1 2] show ?thesis
      by (auto simp: counter_inv_def main_inv_def counter_main_def create_thread_def split: if_splits)
  next
    case At_Destroy
    with main have r: "threads s 1 = Some Returned" "threads s 2 = Some Returned" "counter_mutex s \<noteq> None"
      by (simp_all add: main_inv_def)
    from guarded_main(4) [OF guarded [unfolded r(1,2)] r(3)] At_Destroy other step r show ?thesis
      by (auto simp: counter_inv_def main_inv_def counter_main_def)
  next
    case At_Final
    with main have r: "threads s 1 = Some Returned" "threads s 2 = Some Returned" by (simp_all add: main_inv_def)
    from guarded_main(5) [OF guarded [unfolded r]] At_Final other step show ?thesis
      by (auto simp: counter_inv_def counter_main_def)
  qed (use guarded main other step in
      \<open>auto simp: counter_inv_def main_inv_def counter_main_def join_thread_def split: if_splits\<close>)
qed

lemma counter_main_streams:
  assumes inv: "counter_inv s" and str: "stream_inv E s" and run: "running s" and step: "counter_main E s = Some s'"
  shows "stream_inv E s' \<and> progress s < progress s'"
proof -
  from inv run have guarded: "guarded 1 2 (threads s 1) (threads s 2) (counter s) (counter_mutex s) (printed s)"
    and main: "main_inv (main_at s) (threads s 1) (threads s 2) (counter_mutex s)"
    by (auto simp: counter_inv_def running_def)
  show ?thesis
  proof (cases "main_at s")
    case At_Destroy
    with main have r: "threads s 1 = Some Returned" "threads s 2 = Some Returned" "counter_mutex s \<noteq> None"
      by (simp_all add: main_inv_def)
    from guarded_main(4) [OF guarded [unfolded r(1,2)] r(3)] At_Destroy str step show ?thesis
      by (auto simp: stream_inv_def counter_main_def progress_def)
  qed (use str main run step in
      \<open>auto simp: stream_inv_def counter_main_def main_inv_def create_thread_def join_thread_def progress_def running_def
        split: if_splits\<close>)
qed

lemma counter_step_inv:
  assumes "counter_step E s s'" and inv: "counter_inv s" and str: "stream_inv E s"
  shows "counter_inv s' \<and> stream_inv E s' \<and> progress s < progress s'"
  using assms(1)
proof (rule counter_stepE)
  fix t assume "running s" "thread_function E t s = Some s'"
  then show ?thesis by (rule thread_function_inv [OF inv str])
next
  assume "running s" "counter_main E s = Some s'"
  then show ?thesis using counter_main_inv [OF inv] counter_main_streams [OF inv str] by simp
qed

section \<open>Progress\<close>

lemma progress_bound: "progress s \<le> 19"
proof -
  have "thread_progress p \<le> 6" for p by (cases p rule: thread_progress.cases) simp_all
  from this [of "threads s 1"] this [of "threads s 2"] show ?thesis
    unfolding progress_def by (cases "main_at s") simp_all
qed

lemma thread_function_enabled:
  "threads s t = Some p \<Longrightarrow> critical (Some p) \<or> p = At_Lock \<and> counter_mutex s = Some None \<Longrightarrow>
   \<exists>s'. thread_function E t s = Some s'"
  by (cases p) (auto simp: thread_function_def)

text \<open>While \<^verbatim>\<open>main\<close> waits for a thread, one of the threads can go on.\<close>

lemma counter_step_possible:
  assumes inv: "counter_inv s" and run: "running s"
  shows "\<exists>s'. counter_step E s s'"
proof -
  have main: "main_inv (main_at s) (threads s 1) (threads s 2) (counter_mutex s)"
    and guarded: "guarded 1 2 (threads s 1) (threads s 2) (counter s) (counter_mutex s) (printed s)"
    using inv run by (auto simp: counter_inv_def running_def)
  have thread: "\<exists>t s'. thread_function E t s = Some s'"
    if "threads s t = Some p" "p \<noteq> Returned" "counter_mutex s \<noteq> None" for t p
  proof (cases "critical (Some p) \<or> counter_mutex s = Some None")
    case True
    with that show ?thesis using thread_function_enabled [of s t p E] by auto
  next
    case False
    with guarded that(3) obtain u where "critical (threads s u)" by (auto simp: guarded_def)
    then show ?thesis using thread_function_enabled [of s u _ E] by (cases "threads s u") auto
  qed
  have "(\<exists>s'. counter_main E s = Some s') \<or> (\<exists>t s'. thread_function E t s = Some s')"
  proof (cases "main_at s")
    case At_Join1
    with main obtain p where "threads s 1 = Some p" "counter_mutex s \<noteq> None" by (auto simp: main_inv_def)
    with thread [of 1 p] At_Join1 show ?thesis
      by (cases "p = Returned") (auto simp: counter_main_def join_thread_def)
  next
    case At_Join2
    with main obtain p where "threads s 2 = Some p" "counter_mutex s \<noteq> None" by (auto simp: main_inv_def)
    with thread [of 2 p] At_Join2 show ?thesis
      by (cases "p = Returned") (auto simp: counter_main_def join_thread_def)
  qed (use run in \<open>auto simp: counter_main_def running_def\<close>)
  then show ?thesis using run step_thread step_main by blast
qed

lemma counter_reachable:
  "(counter_step E ^^ n) counter_start s \<Longrightarrow> counter_inv s \<and> stream_inv E s \<and> n \<le> progress s"
proof (induction n arbitrary: s)
  case 0
  then show ?case by (simp add: counter_inv_start stream_inv_start)
next
  case (Suc n)
  from Suc.prems obtain s1 where "(counter_step E ^^ n) counter_start s1" and step: "counter_step E s1 s" by auto
  with Suc.IH have "counter_inv s1" "stream_inv E s1" "n \<le> progress s1" by auto
  with counter_step_inv [OF step] show ?case by simp
qed

text \<open>A run given by its schedule: the thread of each step, \<open>None\<close> for \<^verbatim>\<open>main\<close>.\<close>

fun run_schedule :: "counter_env \<Rightarrow> nat option list \<Rightarrow> counter_state \<Rightarrow> counter_state option" where
  "run_schedule E [] s = Some s"
| "run_schedule E (x # xs) s =
     (if running s then
        (case (case x of None \<Rightarrow> counter_main E s | Some t \<Rightarrow> thread_function E t s) of
           None \<Rightarrow> None | Some s1 \<Rightarrow> run_schedule E xs s1)
      else None)"

lemma run_schedule_steps: "run_schedule E xs s = Some s' \<Longrightarrow> (counter_step E ^^ length xs) s s'"
proof (induction xs arbitrary: s)
  case (Cons x xs)
  then obtain s1 where s1: "counter_step E s s1" "run_schedule E xs s1 = Some s'"
    by (cases x) (auto split: if_splits option.splits intro: step_thread step_main)
  from relpowp_Suc_I2 [OF s1(1) Cons.IH [OF s1(2)]] show ?case by simp
qed simp

section \<open>Properties\<close>

definition demo_counter_env :: counter_env where
  "demo_counter_env = \<lparr>mutex_init_ok = True, create_ok = (\<lambda>t. True), time_fopen_ok = (\<lambda>t. True), stamp = (\<lambda>t. ''Mon'')\<rparr>"

text \<open>The second thread overtakes the first, which waits for the mutex.\<close>

definition demo_schedule :: "nat option list" where
  "demo_schedule = [None, None, None, Some 2, Some 2, Some 2, Some 2, Some 2, Some 2,
     Some 1, Some 1, Some 1, Some 1, Some 1, Some 1, None, None, None, None]"

definition demo_final :: counter_state where
  "demo_final = the (run_schedule demo_counter_env demo_schedule counter_start)"

lemma demo_run:
  "(counter_step demo_counter_env ^^ 19) counter_start demo_final" "main_at demo_final = Main_Returned"
proof -
  have r: "\<exists>s. run_schedule demo_counter_env demo_schedule counter_start = Some s \<and> main_at s = Main_Returned"
    by (simp add: demo_schedule_def demo_counter_env_def counter_start_def running_def counter_main_def
        thread_function_def create_thread_def join_thread_def myTime_def)
  then have this_run: "run_schedule demo_counter_env demo_schedule counter_start = Some demo_final"
    by (auto simp: demo_final_def)
  have "length demo_schedule = 19" by (simp add: demo_schedule_def)
  with run_schedule_steps [OF this_run] show "(counter_step demo_counter_env ^^ 19) counter_start demo_final"
    by (simp only:)
  show "main_at demo_final = Main_Returned" using r by (auto simp: demo_final_def)
qed

text \<open>
  C14: The counter is protected. However the two threads and \<^verbatim>\<open>main\<close> interleave, a run has
  undefined behaviour exactly when a thread that could not open its file has gone on to
  \<^verbatim>\<open>fprintf\<close> on the null stream, still inside the mutex (and the run ends there); never by the
  mutex, the counter or the threads. In every state of every run the two threads are not both between
  lock and unlock, no increment is lost (the counter is the number of increments stored, and
  what a thread is about to store is still its successor), and when \<^verbatim>\<open>main\<close> has returned the
  output is the two threads' lines with the counters 1 and 2 and the final value 2.
\<close>

theorem counter_protected:
  assumes "(counter_step E ^^ n) counter_start s"
  shows "(undefined_behaviour s \<longleftrightarrow> (\<exists>t. \<not> time_fopen_ok E t \<and> threads s t = Some At_Unlock)) \<and>
    (undefined_behaviour s \<longrightarrow> (\<nexists>s'. counter_step E s s')) \<and>
    (main_at s \<noteq> Main_Returned \<longrightarrow>
      \<not> (critical (threads s 1) \<and> critical (threads s 2)) \<and>
      counter s = of_bool (stored (threads s 1)) + of_bool (stored (threads s 2)) \<and>
      (\<forall>t v. threads s t = Some (At_Store v) \<longrightarrow> v = counter s + 1)) \<and>
    (main_at s = Main_Returned \<longrightarrow>
      printed s \<in> {[Thread_Line 1 1, Thread_Line 2 2, Final_Line 2], [Thread_Line 2 1, Thread_Line 1 2, Final_Line 2]})"
proof -
  have inv: "counter_inv s" and str: "stream_inv E s" using counter_reachable [OF assms] by simp_all
  have "\<nexists>s'. counter_step E s s'" if "undefined_behaviour s"
    using that by (auto simp: running_def elim: counter_stepE)
  moreover have "v = counter s + 1" if "threads s t = Some (At_Store v)" "main_at s \<noteq> Main_Returned" for t v
  proof -
    from inv that(1) have "t = 1 \<or> t = 2" by (auto simp: counter_inv_def)
    with inv that show ?thesis by (auto simp: counter_inv_def guarded_def)
  qed
  moreover have "undefined_behaviour s \<longleftrightarrow> (\<exists>t. \<not> time_fopen_ok E t \<and> threads s t = Some At_Unlock)"
    using str by (simp add: stream_inv_def)
  ultimately show ?thesis using inv by (auto simp: counter_inv_def guarded_def)
qed

theorem counter_protected_witness:
  "\<not> undefined_behaviour demo_final \<and>
   printed demo_final \<in> {[Thread_Line 1 1, Thread_Line 2 2, Final_Line 2], [Thread_Line 2 1, Thread_Line 1 2, Final_Line 2]}"
  using counter_protected [OF demo_run(1)] demo_run(2) by (simp add: demo_counter_env_def)

text \<open>
  The program neither deadlocks nor runs on. Every
  run has at most 19 steps, and a run that cannot go on has ended: \<^verbatim>\<open>main\<close> has returned, or has
  exited because the mutex or a thread could not be created, or the behaviour is undefined because a
  thread could not open its file.
\<close>

theorem counter_terminates:
  assumes "(counter_step E ^^ n) counter_start s"
  shows "n \<le> 19 \<and> ((\<nexists>s'. counter_step E s s') \<longrightarrow> main_at s \<in> {Main_Returned, Exited} \<or>
    undefined_behaviour s \<and> (\<exists>t. \<not> time_fopen_ok E t))"
proof -
  from counter_reachable [OF assms] have inv: "counter_inv s" "stream_inv E s" and n: "n \<le> progress s" by auto
  have "running s" if "main_at s \<notin> {Main_Returned, Exited}" "\<not> undefined_behaviour s"
    using that by (simp add: running_def)
  moreover have "undefined_behaviour s \<longrightarrow> (\<exists>t. \<not> time_fopen_ok E t)" using inv(2) by (auto simp: stream_inv_def)
  ultimately show ?thesis
    using counter_step_possible [OF inv(1)] n progress_bound [of s] by (metis le_trans)
qed

theorem counter_terminates_witness: "(\<nexists>s'. counter_step demo_counter_env demo_final s') \<and> main_at demo_final \<in> {Main_Returned, Exited}"
proof -
  have "\<nexists>s'. counter_step demo_counter_env demo_final s'"
    using demo_run(2) by (auto simp: running_def elim: counter_stepE)
  with counter_terminates [OF demo_run(1)] show ?thesis by (simp add: demo_counter_env_def)
qed

end
