(* ===== verification/Scaled_Threads.thy ===== *)
theory Scaled_Threads
  imports Aesd_Prelude
begin

text \<open>
  \<^verbatim>\<open>prototypes/threads/threading_scaled.c\<close>: one thread for each command line argument, which
  returns a copy of its argument in upper case, and \<^verbatim>\<open>main\<close>, which joins them in order. A
  thread only touches its own \<^verbatim>\<open>struct thread_info\<close> and its copy, so that its result does not
  depend on the interleaving. The results of library calls, \<^verbatim>\<open>getopt\<close> among them, are
  parameters.
\<close>

section \<open>The thread\<close>

text \<open>\<^verbatim>\<open>toupper\<close> in the C locale; negative values of \<^verbatim>\<open>char\<close> are not in its domain.\<close>

definition upper_char :: "byte \<Rightarrow> byte" where
  "upper_char c = (if 97 \<le> (of_char c :: nat) \<and> (of_char c :: nat) \<le> 122 then char_of (of_char c - (32 :: nat)) else c)"

definition toupper :: "byte \<Rightarrow> byte option" where
  "toupper c = (if (of_char c :: nat) < 128 then Some (upper_char c) else None)"

text \<open>\<^verbatim>\<open>for (p = uargv; *p != '\0'; p++) *p = toupper(*p);\<close> on the block \<open>b\<close>, from index \<open>p\<close> on.\<close>

function upper_loop :: "nat \<Rightarrow> byte list \<Rightarrow> byte list option" where
  "upper_loop p b =
     (if p < length b then
        if b ! p = nul then Some b
        else (case toupper (b ! p) of None \<Rightarrow> None | Some c \<Rightarrow> upper_loop (Suc p) (b[p := c]))
      else None)"
  by auto
termination
  by (relation "measure (\<lambda>(p, b). length b - p)") auto

declare upper_loop.simps [simp del]

record thread_info =
  thread_id :: nat
  thread_num :: int
  argv_string :: "byte list"

text \<open>How a thread ends: with the block it returns, or, when \<^verbatim>\<open>strdup\<close> fails, by ending the process.\<close>

definition thread_start :: "bool \<Rightarrow> thread_info \<Rightarrow> byte list option option" where
  "thread_start strdup_ok tinfo =
     (if strdup_ok then map_option Some (upper_loop 0 (argv_string tinfo @ [nul])) else Some None)"

section \<open>The program\<close>

text \<open>
  What \<^verbatim>\<open>getopt\<close> returns: the option with its converted argument, or an unknown one. \<open>new_id n\<close> is
  the identifier of the thread that the \<open>n\<close>-th \<^verbatim>\<open>pthread_create\<close> makes.
\<close>

datatype getopt_result = Opt_S int | Opt_Unknown

record scaled_env =
  attr_init_result :: int
  setstacksize_result :: "int \<Rightarrow> int"
  calloc_ok :: bool
  create_result :: "nat \<Rightarrow> int"
  new_id :: "nat \<Rightarrow> nat"
  attr_destroy_result :: int
  join_result :: "nat \<Rightarrow> int"
  strdup_ok :: "nat \<Rightarrow> bool"

text \<open>\<open>joined\<close> are the lines printed for joined threads, \<open>blocks\<close> the results not yet freed (by the
  thread that made them), \<open>tinfo_live\<close> whether the array is allocated.\<close>

record scaled_state =
  joined :: "(int \<times> byte list) list"
  blocks :: "nat \<rightharpoonup> byte list"
  tinfo_live :: bool

definition EXIT_SUCCESS :: nat where "EXIT_SUCCESS = 0"
definition EXIT_FAILURE :: nat where "EXIT_FAILURE = 1"

text \<open>The option loop: the stack size, or \<open>None\<close> when the process exits.\<close>

fun option_loop :: "getopt_result list \<Rightarrow> int \<Rightarrow> int option" where
  "option_loop [] stack_size = Some stack_size"
| "option_loop (Opt_S n # os) stack_size = option_loop os n"
| "option_loop (Opt_Unknown # os) stack_size = None"

text \<open>
  The creating loop, from thread \<open>tnum\<close> on; a thread runs between its creation and its join,
  and its copy of the argument is there at the join. \<open>Inl\<close> is the status of a process that
  ended.
\<close>

fun create_loop :: "scaled_env \<Rightarrow> nat \<Rightarrow> byte list list \<Rightarrow> scaled_state \<Rightarrow> ((nat + thread_info list) \<times> scaled_state) option" where
  "create_loop E tnum [] s = Some (Inr [], s)"
| "create_loop E tnum (arg # args) s =
     (let tinfo = \<lparr>thread_id = new_id E tnum, thread_num = int tnum + 1, argv_string = arg\<rparr>
      in if create_result E tnum \<noteq> 0 then Some (Inl EXIT_FAILURE, s)
         else do {
           res \<leftarrow> thread_start (strdup_ok E tnum) tinfo;
           case res of
             None \<Rightarrow> Some (Inl EXIT_FAILURE, s)
           | Some b \<Rightarrow> do {
               (r, s1) \<leftarrow> create_loop E (Suc tnum) args (s\<lparr>blocks := (blocks s)(thread_id tinfo \<mapsto> b)\<rparr>);
               Some (case r of Inl e \<Rightarrow> Inl e | Inr ts \<Rightarrow> Inr (tinfo # ts), s1)
             }
         })"

text \<open>The joining loop prints the C string in each result and frees it.\<close>

fun join_loop :: "scaled_env \<Rightarrow> nat \<Rightarrow> thread_info list \<Rightarrow> scaled_state \<Rightarrow> (nat option \<times> scaled_state) option" where
  "join_loop E tnum [] s = Some (None, s)"
| "join_loop E tnum (tinfo # ts) s =
     (if join_result E tnum \<noteq> 0 then Some (Some EXIT_FAILURE, s)
      else do {
        res \<leftarrow> blocks s (thread_id tinfo);
        line \<leftarrow> (if nul \<in> set res then Some (takeWhile (\<lambda>c. c \<noteq> nul) res) else None);
        join_loop E (Suc tnum) ts
          (s\<lparr>joined := joined s @ [(thread_num tinfo, line)], blocks := (blocks s)(thread_id tinfo := None)\<rparr>)
      })"

definition scaled_main :: "scaled_env \<Rightarrow> getopt_result list \<Rightarrow> byte list list \<Rightarrow> scaled_state \<Rightarrow> (nat \<times> scaled_state) option" where
  "scaled_main E options operands s =
     (case option_loop options (- 1) of
        None \<Rightarrow> Some (EXIT_FAILURE, s)
      | Some stack_size \<Rightarrow>
          if attr_init_result E \<noteq> 0 then Some (EXIT_FAILURE, s)
          else if stack_size > 0 \<and> setstacksize_result E stack_size \<noteq> 0 then Some (EXIT_FAILURE, s)
          else if \<not> calloc_ok E then Some (EXIT_FAILURE, s)
          else do {
            (r, s1) \<leftarrow> create_loop E 0 operands (s\<lparr>tinfo_live := True\<rparr>);
            case r of
              Inl status \<Rightarrow> Some (status, s1)
            | Inr tinfo \<Rightarrow>
                if attr_destroy_result E \<noteq> 0 then Some (EXIT_FAILURE, s1)
                else do {
                  (e, s2) \<leftarrow> join_loop E 0 tinfo s1;
                  Some (case e of Some status \<Rightarrow> (status, s2) | None \<Rightarrow> (EXIT_SUCCESS, s2\<lparr>tinfo_live := False\<rparr>))
                }
          })"

section \<open>The loop over the string\<close>

definition c_text :: "byte list \<Rightarrow> bool" where
  "c_text s \<longleftrightarrow> (\<forall>c \<in> set s. c \<noteq> nul \<and> (of_char c :: nat) < 128)"

lemma upper_char_not_nul: "(of_char c :: nat) < 128 \<Longrightarrow> c \<noteq> nul \<Longrightarrow> upper_char c \<noteq> nul"
proof
  assume "upper_char c = nul" "c \<noteq> nul"
  then have u: "97 \<le> (of_char c :: nat)" "(of_char c :: nat) \<le> 122" "char_of (of_char c - (32 :: nat)) = nul"
    by (auto simp: upper_char_def split: if_splits)
  from arg_cong [OF u(3), of "of_char :: byte \<Rightarrow> nat"] u(1,2) show False by simp
qed

lemma upper_loop_correct:
  "c_text s \<Longrightarrow> upper_loop (length pre) (pre @ s @ [nul]) = Some (pre @ map upper_char s @ [nul])"
proof (induction s arbitrary: pre)
  case Nil
  then show ?case by (simp add: upper_loop.simps)
next
  case (Cons c s)
  then have c: "c \<noteq> nul" "(of_char c :: nat) < 128" "c_text s" by (auto simp: c_text_def)
  with Cons.IH [of "pre @ [upper_char c]"] show ?case
    by (simp add: upper_loop.simps [of "length pre"] toupper_def nth_append list_update_append)
qed

lemma thread_start_correct:
  "c_text (argv_string t) \<Longrightarrow> thread_start True t = Some (Some (map upper_char (argv_string t) @ [nul]))"
  using upper_loop_correct [of "argv_string t" "[]"] by (simp add: thread_start_def)

lemma upper_line: "c_text s \<Longrightarrow> takeWhile (\<lambda>c. c \<noteq> nul) (map upper_char s @ [nul]) = map upper_char s"
  by (induction s) (simp_all add: c_text_def upper_char_not_nul)

section \<open>The program\<close>

text \<open>All library calls succeed, and different threads have different identifiers.\<close>

definition scaled_quiet :: "scaled_env \<Rightarrow> bool" where
  "scaled_quiet E \<longleftrightarrow> attr_init_result E = 0 \<and> (\<forall>n. setstacksize_result E n = 0) \<and> calloc_ok E \<and>
     (\<forall>n. create_result E n = 0) \<and> attr_destroy_result E = 0 \<and> (\<forall>n. join_result E n = 0) \<and>
     (\<forall>n. strdup_ok E n) \<and> inj (new_id E)"

fun infos :: "scaled_env \<Rightarrow> nat \<Rightarrow> byte list list \<Rightarrow> thread_info list" where
  "infos E k [] = []"
| "infos E k (a # as) = \<lparr>thread_id = new_id E k, thread_num = int k + 1, argv_string = a\<rparr> # infos E (Suc k) as"

fun results :: "scaled_env \<Rightarrow> nat \<Rightarrow> byte list list \<Rightarrow> nat \<rightharpoonup> byte list" where
  "results E k [] = Map.empty"
| "results E k (a # as) = (results E (Suc k) as)(new_id E k \<mapsto> map upper_char a @ [nul])"

lemma results_other: "inj (new_id E) \<Longrightarrow> i < k \<Longrightarrow> results E k as (new_id E i) = None"
  by (induction as arbitrary: k) (auto simp: inj_eq)

lemma create_loop_correct:
  assumes "scaled_quiet E"
  shows "\<forall>a \<in> set as. c_text a \<Longrightarrow>
    create_loop E k as s = Some (Inr (infos E k as), s\<lparr>blocks := blocks s ++ results E k as\<rparr>)"
proof (induction as arbitrary: k s)
  case Nil
  then show ?case by simp
next
  case (Cons a as)
  have "results E (Suc k) as (new_id E k) = None"
    using assms by (intro results_other) (simp_all add: scaled_quiet_def)
  then have "(blocks s)(new_id E k \<mapsto> map upper_char a @ [nul]) ++ results E (Suc k) as =
      blocks s ++ results E k (a # as)"
    by (intro ext) (simp add: map_add_def split: option.splits)
  with Cons assms show ?case by (simp add: scaled_quiet_def thread_start_correct Let_def del: results.simps)
qed

definition info_line :: "thread_info \<Rightarrow> int \<times> byte list" where
  "info_line t = (thread_num t, map upper_char (argv_string t))"

lemma join_loop_correct:
  assumes "scaled_quiet E"
  shows "\<forall>a \<in> set as. c_text a \<Longrightarrow> blocks s = results E k as \<Longrightarrow>
    join_loop E k (infos E k as) s =
      Some (None, s\<lparr>blocks := Map.empty, joined := joined s @ map info_line (infos E k as)\<rparr>)"
proof (induction as arbitrary: k s)
  case Nil
  then show ?case by simp
next
  case (Cons a as)
  have "results E (Suc k) as (new_id E k) = None"
    using assms by (intro results_other) (simp_all add: scaled_quiet_def)
  then have b: "blocks s (new_id E k) = Some (map upper_char a @ [nul])"
    "(blocks s)(new_id E k := None) = results E (Suc k) as"
    using Cons.prems(2) by (simp_all add: fun_eq_iff)
  from Cons.prems(1) have "\<forall>a \<in> set as. c_text a" "c_text a" by auto
  with Cons.IH [of "s\<lparr>joined := joined s @ [(int k + 1, map upper_char a)], blocks := results E (Suc k) as\<rparr>" "Suc k"]
    assms b show ?case
    by (simp add: scaled_quiet_def upper_line info_line_def)
qed

lemma info_lines:
  "map info_line (infos E k as) = map2 (\<lambda>i a. (int i, map upper_char a)) [Suc k..<Suc k + length as] as"
proof (induction as arbitrary: k)
  case (Cons a as)
  have "[Suc k..<Suc k + length (a # as)] = Suc k # [Suc (Suc k)..<Suc (Suc k) + length as]"
    by (simp add: upt_conv_Cons del: upt_Suc)
  with Cons show ?case by (simp add: info_line_def del: upt_Suc)
qed simp

text \<open>
  C39: One thread per argument. When the library calls succeed, the program ends with status 0
  for every list of arguments of ASCII text, its output for the joined threads is the
  arguments in their order, numbered from one and in upper case (the loop over each copy stops
  at its terminating NUL and stays in the block), and every result and the array of
  \<^verbatim>\<open>struct thread_info\<close> have been freed.
\<close>

theorem scaled_threads_upper_case:
  assumes "scaled_quiet E" and "option_loop options (- 1) = Some stack_size"
    and "\<forall>a \<in> set operands. c_text a" and "blocks s = Map.empty" and "joined s = []"
  shows "\<exists>s'. scaled_main E options operands s = Some (EXIT_SUCCESS, s') \<and>
    joined s' = map2 (\<lambda>i a. (int i, map upper_char a)) [1..<Suc (length operands)] operands \<and>
    blocks s' = Map.empty \<and> \<not> tinfo_live s'"
proof -
  have "blocks (s\<lparr>tinfo_live := True, blocks := results E 0 operands\<rparr>) = results E 0 operands" by simp
  note j = join_loop_correct [OF assms(1,3) this]
  show ?thesis
    using assms create_loop_correct [OF assms(1,3), of 0 "s\<lparr>tinfo_live := True\<rparr>"] j
    by (simp add: scaled_main_def scaled_quiet_def info_lines del: upt_Suc)
qed

definition demo_scaled_env :: scaled_env where
  "demo_scaled_env = \<lparr>attr_init_result = 0, setstacksize_result = (\<lambda>n. 0), calloc_ok = True,
     create_result = (\<lambda>n. 0), new_id = (\<lambda>n. n + 100), attr_destroy_result = 0, join_result = (\<lambda>n. 0), strdup_ok = (\<lambda>n. True)\<rparr>"

theorem scaled_threads_upper_case_witness:
  "\<exists>s'. scaled_main demo_scaled_env [Opt_S 65536] [''ab1'', ''z''] \<lparr>joined = [], blocks = Map.empty, tinfo_live = False\<rparr> =
      Some (0, s') \<and> joined s' = [(1, ''AB1''), (2, ''Z'')]"
proof -
  let ?s = "\<lparr>joined = [], blocks = Map.empty, tinfo_live = False\<rparr>"
  have "\<exists>s'. scaled_main demo_scaled_env [Opt_S 65536] [''ab1'', ''z''] ?s = Some (EXIT_SUCCESS, s') \<and>
      joined s' = map2 (\<lambda>i a. (int i, map upper_char a)) [1..<Suc (length [''ab1'', ''z''])] [''ab1'', ''z''] \<and>
      blocks s' = Map.empty \<and> \<not> tinfo_live s'"
    by (rule scaled_threads_upper_case)
      (simp_all add: scaled_quiet_def demo_scaled_env_def c_text_def inj_def)
  moreover have "map upper_char ''ab1'' = ''AB1''" "map upper_char ''z'' = ''Z''" by code_simp+
  ultimately show ?thesis
    by (elim exE conjE, intro exI conjI) (simp_all add: EXIT_SUCCESS_def upt_rec)
qed

end
