(* ===== verification/Threading.thy ===== *)
theory Threading
  imports Aesd_Prelude
begin

text \<open>
  \<^verbatim>\<open>examples/threading/threading.c\<close>: a thread that waits, takes a mutex, waits and releases
  it, and the function that starts it. The results of the library calls are parameters; what
  the thread does to the outside is the list of its actions.
\<close>

section \<open>State\<close>

record thread_data =
  mutex :: nat
  wait_to_obtain_ms :: int
  wait_to_release_ms :: int
  thread_complete_success :: bool

datatype thread_act = Sleep u32 | Lock nat | Unlock nat

text \<open>
  \<open>usleep_result n\<close> is the result of the \<open>n\<close>-th \<^verbatim>\<open>usleep\<close>. \<open>calloc_usable n\<close> is how many
  bytes may be used of the block that \<^verbatim>\<open>calloc\<close> gives for a request of \<open>n\<close> bytes, \<open>None\<close>
  for a null return. \<open>finished_early\<close>: the thread has ended before its starter looks at its
  result.
\<close>

record thread_env =
  usleep_result :: "nat \<Rightarrow> int"
  mutex_lock_result :: int
  mutex_unlock_result :: int
  calloc_usable :: "nat \<Rightarrow> nat option"
  create_result :: int
  finished_early :: bool

text \<open>\<^verbatim>\<open>ms * 1000\<close> is computed in \<^verbatim>\<open>int\<close>, where overflow is undefined, and passed as \<^verbatim>\<open>useconds_t\<close>.\<close>

definition usleep_arg :: "int \<Rightarrow> u32 option" where
  "usleep_arg ms = (if - (2 ^ 31) \<le> ms * 1000 \<and> ms * 1000 < 2 ^ 31 then Some (of_int (ms * 1000)) else None)"

section \<open>The thread\<close>

text \<open>
  The result is the returned pointer (\<open>None\<close> for the null pointer, \<open>Some ()\<close> for the
  parameter), the structure afterwards and the actions.
\<close>

definition threadfunc :: "thread_env \<Rightarrow> thread_data \<Rightarrow> (unit option \<times> thread_data \<times> thread_act list) option" where
  "threadfunc E d = do {
     t1 \<leftarrow> usleep_arg (wait_to_obtain_ms d);
     let d1 = (if usleep_result E 0 \<noteq> 0 then d\<lparr>thread_complete_success := False\<rparr> else d);
     if mutex_lock_result E \<noteq> 0
     then Some (None, d1\<lparr>thread_complete_success := False\<rparr>, [Sleep t1])
     else do {
       t2 \<leftarrow> usleep_arg (wait_to_release_ms d1);
       let d2 = (if usleep_result E 1 \<noteq> 0 then d1\<lparr>thread_complete_success := False\<rparr> else d1);
       let d3 = (if mutex_unlock_result E \<noteq> 0 then d2\<lparr>thread_complete_success := False\<rparr> else d2);
       Some (Some (), d3\<lparr>thread_complete_success := True\<rparr>,
         [Sleep t1, Lock (mutex d), Sleep t2] @ (if mutex_unlock_result E = 0 then [Unlock (mutex d)] else []))
     }
   }"

section \<open>The starter\<close>

text \<open>The bytes of \<^verbatim>\<open>struct thread_data\<close> that the starter writes, with 8-byte pointers.\<close>

definition thread_data_bytes :: nat where
  "thread_data_bytes = 8 + 4 + 4 + 1"

text \<open>What has become of the block when the starter returns.\<close>

datatype block = No_Block | Freed | Live thread_data

definition start_thread_obtaining_mutex :: "thread_env \<Rightarrow> nat \<Rightarrow> int \<Rightarrow> int \<Rightarrow> (bool \<times> block) option" where
  "start_thread_obtaining_mutex E m obtain_ms release_ms =
     (case calloc_usable E (0 * 8) of
        None \<Rightarrow> Some (False, No_Block)
      | Some n \<Rightarrow>
          if n < thread_data_bytes then None
          else
            let d = \<lparr>mutex = m, wait_to_obtain_ms = obtain_ms, wait_to_release_ms = release_ms,
                     thread_complete_success = False\<rparr>
            in if create_result E \<noteq> 0 then Some (False, Freed)
               else do {
                 d' \<leftarrow> (if finished_early E then map_option (fst \<circ> snd) (threadfunc E d) else Some d);
                 Some (True, if thread_complete_success d' then Freed else Live d')
               })"

section \<open>Properties\<close>

definition demo_threads :: thread_env where
  "demo_threads = \<lparr>usleep_result = (\<lambda>_. 0), mutex_lock_result = 0, mutex_unlock_result = 1,
     calloc_usable = (\<lambda>n. Some (max 24 n)), create_result = 0, finished_early = True\<rparr>"

definition demo_data :: thread_data where
  "demo_data = \<lparr>mutex = 1, wait_to_obtain_ms = 10, wait_to_release_ms = 20, thread_complete_success = False\<rparr>"

text \<open>
  With waits that fit, the thread sleeps for the first time given before it takes the
  mutex, holds it for the second and then releases it, and returns its parameter; if the
  mutex cannot be taken it returns null, reports failure and does not touch the mutex.
  Once it has the mutex it reports success, whether or not the sleeps and the release
  succeeded.
\<close>

theorem threadfunc_order:
  assumes "0 \<le> wait_to_obtain_ms d" "wait_to_obtain_ms d * 1000 < 2 ^ 31"
    and "0 \<le> wait_to_release_ms d" "wait_to_release_ms d * 1000 < 2 ^ 31"
  shows "\<exists>t1 t2. uint t1 = wait_to_obtain_ms d * 1000 \<and> uint t2 = wait_to_release_ms d * 1000 \<and>
    threadfunc E d = Some (if mutex_lock_result E = 0
      then (Some (), d\<lparr>thread_complete_success := True\<rparr>,
            [Sleep t1, Lock (mutex d), Sleep t2] @ (if mutex_unlock_result E = 0 then [Unlock (mutex d)] else []))
      else (None, d\<lparr>thread_complete_success := False\<rparr>, [Sleep t1]))"
proof -
  have arg: "\<exists>t :: u32. usleep_arg ms = Some t \<and> uint t = ms * 1000" if "0 \<le> ms" "ms * 1000 < 2 ^ 31" for ms
  proof -
    have "uint (word_of_int (ms * 1000) :: u32) = ms * 1000"
      using that by (simp only: uint_word_of_int) (simp add: mod_pos_pos_trivial)
    then show ?thesis using that by (simp add: usleep_arg_def del: of_int_mult)
  qed
  obtain t1 t2 :: u32 where "usleep_arg (wait_to_obtain_ms d) = Some t1" "uint t1 = wait_to_obtain_ms d * 1000"
    "usleep_arg (wait_to_release_ms d) = Some t2" "uint t2 = wait_to_release_ms d * 1000"
    using arg [OF assms(1,2)] arg [OF assms(3,4)] by blast
  then show ?thesis
    by (intro exI [of _ t1] exI [of _ t2]) (simp add: threadfunc_def Let_def)
qed

theorem threadfunc_order_witness:
  "\<exists>t1 t2. uint t1 = 10000 \<and> uint t2 = 20000 \<and>
    threadfunc demo_threads demo_data = Some (Some (), demo_data\<lparr>thread_complete_success := True\<rparr>,
      [Sleep t1, Lock 1, Sleep t2])"
  using threadfunc_order [of demo_data demo_threads] by (simp add: demo_data_def demo_threads_def)

text \<open>
  Starting a thread is defined only if the allocator gives more than it was asked for:
  the request is for zero bytes, and the structure is written into the block all the same.
  With an allocator that gives exactly what is asked the function never returns true; with
  room in the block it returns true exactly when the thread was created.
\<close>

theorem start_thread_needs_slack:
  assumes "- (2 ^ 31) \<le> obtain_ms * 1000" "obtain_ms * 1000 < 2 ^ 31"
    and "- (2 ^ 31) \<le> release_ms * 1000" "release_ms * 1000 < 2 ^ 31"
  shows "(case calloc_usable E 0 of
      None \<Rightarrow> start_thread_obtaining_mutex E m obtain_ms release_ms = Some (False, No_Block)
    | Some n \<Rightarrow>
        if n < thread_data_bytes then start_thread_obtaining_mutex E m obtain_ms release_ms = None
        else \<exists>b. start_thread_obtaining_mutex E m obtain_ms release_ms = Some (create_result E = 0, b) \<and>
          (create_result E \<noteq> 0 \<longrightarrow> b = Freed) \<and>
          (create_result E = 0 \<longrightarrow> (b = Freed \<longleftrightarrow> finished_early E \<and> mutex_lock_result E = 0)))"
  using assms
  by (auto simp: start_thread_obtaining_mutex_def threadfunc_def usleep_arg_def Let_def split: option.split)

theorem start_thread_needs_slack_witness:
  "start_thread_obtaining_mutex (demo_threads\<lparr>calloc_usable := Some\<rparr>) 1 10 20 = None \<and>
   start_thread_obtaining_mutex demo_threads 1 10 20 = Some (True, Freed)"
  using start_thread_needs_slack [of 10 20 "demo_threads\<lparr>calloc_usable := Some\<rparr>" 1]
    start_thread_needs_slack [of 10 20 demo_threads 1]
  by (simp add: demo_threads_def thread_data_bytes_def)

end
