(* ===== verification/Spec2Isabelle.thy ===== *)
theory Spec2Isabelle
  imports Forking_Server Unlocked_Server Queue_Threads Small_Programs
    Driver_Bounds Driver_Threads Socket_Device Socket_Server Queue_Correct Slist_Server Sequential_Server
    Shared_Counter Scaled_Threads Threading Writer
begin

text \<open>
  A verification library for the character driver, the socket server and the exercises of this
  repository. The sources are C; paths below are relative to \<^verbatim>\<open>src/\<close>.

  \<^bold>\<open>The program.\<close> \<^verbatim>\<open>aesd-char-driver\<close> is a Linux driver whose device keeps the newest ten
  complete lines written to it in a ring buffer, with a pending block for an unfinished line.
  \<^verbatim>\<open>server/aesdsocket.c\<close> is a server that appends what its clients send to a data file, the
  driver's device or a regular file, and answers with the content; each client has a thread, a
  further thread appends timestamps, and one mutex guards the file. The other C files are
  exercises: system calls, threads, the macros of \<^verbatim>\<open>queue.h\<close>, and earlier versions of the server.

  \<^bold>\<open>Conventions.\<close> An operation is a function on explicit states in the option monad: \<open>None\<close>
  is undefined behaviour of C, a loop that does not end or a call that waits for ever, and an error return is a value. What
  the program gets from the kernel, the C library or the network (results of allocations, of
  system calls, of \<^verbatim>\<open>recv\<close>, \<dots>) is a parameter, a record of functions or lists, with the
  documented behaviour as an explicit hypothesis or locale. Machine integers are words of their
  width. Log messages are not modelled.

  \<^bold>\<open>The driver.\<close>
  \<^item> \<open>Aesd_Prelude\<close>: C types, arrays, word arithmetic, and the list functions of the
    specifications (newest \<open>n\<close> of a log, complete lines and rest of a stream).
  \<^item> \<open>Circular_Buffer\<close> (\<^verbatim>\<open>aesd-circular-buffer.c\<close>): the ring buffer, its invariant, that it keeps
    the newest ten entries, and that the search by byte position is the search in the
    concatenation of the entries.
  \<^item> \<open>Kernel_Memory\<close>: a heap of blocks with \<^verbatim>\<open>kmalloc\<close>, \<^verbatim>\<open>krealloc\<close>, \<^verbatim>\<open>kfree\<close>, \<^verbatim>\<open>memmove\<close> and the
    copies from and to user memory; locale \<open>kernel_allocator\<close>, interpreted by a first-fit allocator.
  \<^item> \<open>Char_Device\<close> (\<^verbatim>\<open>main.c\<close>): \<^verbatim>\<open>aesd_open\<close>, \<^verbatim>\<open>aesd_release\<close>, \<^verbatim>\<open>aesd_read\<close>, \<^verbatim>\<open>aesd_write\<close>, \<^verbatim>\<open>aesd_ioctl\<close>
    and \<^verbatim>\<open>aesd_llseek\<close>, each in full with its mutex, errors and loops; the loops terminate.
    \<open>Char_Device_Invariant\<close> has the device invariant (every block owned once, ring and pending bytes
    consistent), \<open>Char_Device_Write\<close>, \<open>Char_Device_Read\<close> and \<open>Char_Device_Seek\<close> the contract of
    each handler on every outcome.
  \<^item> \<open>Driver_Module\<close>: \<^verbatim>\<open>aesd_init_module\<close> with its unwinding and \<^verbatim>\<open>aesd_cleanup_module\<close>; locale
    \<open>kernel_devices\<close> for the registration calls.
  \<^item> \<open>Driver_System\<close>: sequences of calls of any processes as a step relation, an abstract log as
    specification, the refinement between them, and that no call is undefined; the stream of bytes that
    a run leaves in the device, also when memory is refused in the middle of a write; \<open>Driver_Bounds\<close>:
    the answers calls can have, and bounds on blocks, ring offsets and file positions in every run.
  \<^item> \<open>Driver_Threads\<close>: several threads inside the handlers at once, in steps of one loop round, one
    access of the device, taking the mutex, giving it back, or the return to the caller; that the calls
    still take effect one after the other, each between its beginning and its return (\<open>bracketed\<close>), so that
    the step of \<open>Driver_System\<close>, a whole handler, is enough, and that the mutex is always given back.

  \<^bold>\<open>The server.\<close>
  \<^item> \<open>Data_File\<close>: the interface \<open>data_file\<close> through which the server uses its file, interpreted by the
    regular file and, with a serving kernel, by the driver's handlers themselves.
  \<^item> \<open>Socket_Client\<close>, \<open>Socket_Client_Correct\<close> (\<^verbatim>\<open>client_thread\<close>, \<^verbatim>\<open>timestamp_thread\<close>,
    \<^verbatim>\<open>signal_handler\<close>): what one client is answered, for lines and for \<^verbatim>\<open>AESDCHAR_IOCSEEKTO\<close> commands,
    over the device and over a regular file; parsing of the command; runs in which the code misbehaves.
  \<^item> \<open>Socket_Threads\<close>: all client threads and the timestamp thread in any interleaving, over any file
    that keeps the interface \<open>data_file\<close>: appends are whole and ordered, replies are snapshots. Seeks
    take no mutex: their ioctl and reads are steps between which others append.
  \<^item> \<open>Socket_Device\<close>: these threads on the driver's device: the device is the log of the packets and
    timestamps, undisturbed seeks are answered right, and a run in which a disturbed one is not.
  \<^item> \<open>Thread_List\<close> (\<^verbatim>\<open>add_node\<close>, \<^verbatim>\<open>remove_node\<close>) and \<open>Socket_Server\<close> (\<^verbatim>\<open>main\<close>): the list of threads on
    a heap of nodes, start, accept loop, shutdown, and what is left behind. Client threads end at any
    time or never: joining one that does not end is waiting for ever.

  \<^bold>\<open>The queue macros\<close> (\<^verbatim>\<open>server/queue.h\<close>, of which \<^verbatim>\<open>prototypes/queues/queue.h\<close> is a copy).
  \<^item> \<open>Queue_Memory\<close>: heads and entries as locations with two fields, lists in memory, and the loops.
  \<^item> \<open>Queue_Interface\<close>: locale \<open>linked_queue\<close> with the laws of the operations all kinds have, extended
    by \<open>chained_queue\<close> (loops that free) and \<open>tail_queue\<close> (fifo); the client lemmas, among them that
    any program of queue operations refines the same program on lists, are proved there once.
  \<^item> \<open>Queue_Slist\<close>, \<open>Queue_Stailq\<close>, \<open>Queue_List\<close>, \<open>Queue_Tailq\<close>: one definition per macro, its effect,
    and the interpretation; \<open>Queue_Correct\<close>: the properties over the four kinds.
  \<^item> \<open>Slist_Server\<close> (\<^verbatim>\<open>server/server_prototypes/server.prototype.0.0.2.c\<close>): the version of the server
    that keeps its threads in an \<^verbatim>\<open>SLIST\<close>, as a step relation over \<^verbatim>\<open>main\<close>, the clients and the date
    thread, whether threads can be created or not; the list is consistent in every interleaving, where
    steps are undefined, and what a signal does.

  \<^bold>\<open>Earlier servers\<close> (\<^verbatim>\<open>server/server_prototypes\<close>).
  \<^item> \<open>Sequential_Server\<close> (\<^verbatim>\<open>server.prototype.0.0.5.c\<close>): one client after the other.
  \<^item> \<open>Shared_File\<close>: the history of a file to which several write, shared by the next two.
  \<^item> \<open>Forking_Server\<close> (\<^verbatim>\<open>server.prototype.0.0.3.c\<close>): a process for each client; parent, children and
    signals interleaved, the data file by inode, the stream of each child with what it holds back, and
    the parent blocked in \<^verbatim>\<open>accept\<close>.
    The replies are snapshots though there is no lock, but packets can be mixed in the file.
  \<^item> \<open>Unlocked_Server\<close> (\<^verbatim>\<open>server.prototype.0.0.6.c\<close>): detached threads without a lock, as a step
    relation; every block and descriptor has one owner, clients get back what they sent.

  \<^bold>\<open>Exercises.\<close>
  \<^item> \<open>System_Calls\<close> (\<^verbatim>\<open>examples/systemcalls\<close>), \<open>Threading\<close> (\<^verbatim>\<open>examples/threading\<close>), \<open>Writer\<close>
    (\<^verbatim>\<open>finder-app/writer.c\<close>, \<^verbatim>\<open>examples/autotest-validate\<close>).
  \<^item> \<open>Shared_Counter\<close> (\<^verbatim>\<open>prototypes/threads/thread.prototype.0.0.5.c\<close>, a step relation over all
    interleavings) and \<open>Scaled_Threads\<close> (\<^verbatim>\<open>prototypes/threads/threading_scaled.c\<close>).
  \<^item> \<open>Shannon_Random\<close> (\<^verbatim>\<open>server/shannon.c\<close>): the random numbers on 64-bit words, their range, and when
    the seed overflows; \<open>Queue_Programs\<close> (\<^verbatim>\<open>prototypes/queues\<close>): the programs over \<^verbatim>\<open>SLIST\<close>, what they
    print and what they leave allocated; \<open>Queue_Threads\<close>: those that start threads, interleaved.
  \<^item> \<open>Small_Programs\<close>: the exercises of \<^verbatim>\<open>prototypes\<close> on processes, structures, returned values of
    threads, files and arguments.

  This theory adds the properties that span the driver: what the device holds after loading and
  any run, of whole calls or of interleaved threads, that unloading leaves nothing behind, and reading after a seek.

  \<^bold>\<open>Bounds and fuel.\<close> No definition uses fuel. Loops over memory that other code could damage are
  partial functions, and the lemmas show that they return on well-formed data; the others terminate
  by a measure. Sequences of external events (connections, received packets, timestamps) are finite
  lists of any length: their end is the moment at which the run is looked at, or a signal. The
  calls of the driver are bounded by \<^verbatim>\<open>MAX_RW_COUNT\<close>, as the kernel does.

  \<^bold>\<open>Not modelled.\<close> Log output; the C++ variants and the tracing of \<^verbatim>\<open>queue.h\<close>; \<^verbatim>\<open>printk\<close>; the content
  of \<^verbatim>\<open>strftime\<close>; the redirection of the daemon's descriptors; memory orderings weaker than the
  interleavings of \<open>Shared_Counter\<close>, \<open>Slist_Server\<close>, \<open>Driver_Threads\<close> and \<open>Socket_Threads\<close> (all shared
  accesses there are under a mutex, or system calls). Of the earlier servers 0.0.1, 0.0.4 and 0.0.7 do not compile (missing semicolons,
  undeclared mutexes, variables and types), nor do the programs of \<^verbatim>\<open>prototypes/ring\<close> and
  \<^verbatim>\<open>structs/prototype.0.0.1.c\<close>: they have no behaviour. \<^verbatim>\<open>thread.prototype.0.0.4.c\<close> (a data race) and the driver's \<^verbatim>\<open>test_main.c\<close> (the value of
  an uninitialised pointer is used) are undefined in every run. The other exercises
  (\<^verbatim>\<open>syslog\<close>, \<^verbatim>\<open>time\<close>, \<^verbatim>\<open>errors\<close>, \<dots>) are calls of the library only. Test drivers, shell scripts and
  build files are not C code of the program.
\<close>

section \<open>Properties of the driver\<close>

definition ready_devices :: kdev_env where
  "ready_devices = quiet_devices\<lparr>device_create_result := KObj 2\<rparr>"

interpretation ready: kernel_devices ready_devices
  by unfold_locales (auto simp: ready_devices_def quiet_devices_def)

lemma ready_init: "\<exists>d1. aesd_init_module ready_devices (driver boot_system) = Some (0, d1)"
  using ready.aesd_init_module_correct [of "driver boot_system"]
  by (auto simp: boot_system_def boot_state_def ready_devices_def quiet_devices_def IS_ERR_def)

text \<open>
  C1: After the module has been loaded, whatever processes have called in between and whatever has
  failed, the device holds a stream of bytes in order: to it every accepted write has added its bytes,
  a write that was answered \<^verbatim>\<open>ENOMEM\<close> either all of its bytes or none, and no other call anything.
  Of this stream the complete lines but for the last few have been moved and the newest ten of those
  moved are the commands; the lines not yet moved and the unfinished rest are pending. When no write
  has been refused memory since the last accepted one, all complete lines have been moved.
  So, in a run without \<^verbatim>\<open>ENOMEM\<close>, the device holds the newest ten complete lines of
  the bytes that writes have accepted and the unfinished rest is pending: how the
  stream was cut into writes makes no difference.
\<close>

theorem device_holds_newest_lines:
  assumes "kernel_devices D" and "kernel_allocator K"
    and "heap (core d) = Map.empty"
    and "\<forall>n c. {Chrdev_Region n, Cdev n, Class c, Device c n} \<inter> held d = {}"
    and "aesd_init_module D d = Some (0, d1)"
    and "driver_run K \<lparr>driver = d1, files = Map.empty\<rparr> tr y"
  shows "(\<exists>bs k. stream_of tr bs \<and> k \<le> length (fst (split_lines bs)) \<and>
      (settled tr \<longrightarrow> k = length (fst (split_lines bs))) \<and>
      dev_cmds (core (driver y)) = last_n 10 (take k (fst (split_lines bs))) \<and>
      dev_partial (core (driver y)) = concat (drop k (fst (split_lines bs))) @ snd (split_lines bs)) \<and>
    (no_enomem tr \<longrightarrow>
      dev_cmds (core (driver y)) = last_n 10 (fst (split_lines (accepted tr))) \<and>
      dev_partial (core (driver y)) = snd (split_lines (accepted tr)))"
proof -
  let ?y = "\<lparr>driver = d1, files = Map.empty\<rparr>"
  have "sys_inv ?y" and start: "log_of (core (driver ?y)) = stream_log []"
    using sys_inv_init [OF assms(1,3-5)] by simp_all
  then have "log_run K (abs_of ?y) tr (abs_of y)"
    using kernel_allocator.run_refines [OF assms(2,6)] by simp
  then have "holds_stream tr (dev_cmds (core (driver y))) (dev_partial (core (driver y)))"
    using run_holds_stream start by (fastforce simp: log_of_def)
  from this [unfolded holds_stream_def] no_enomem_holds [OF this] show ?thesis by blast
qed

theorem device_holds_newest_lines_witness:
  "\<exists>d1 y. aesd_init_module ready_devices (driver boot_system) = Some (0, d1) \<and>
    driver_run quiet_kernel \<lparr>driver = d1, files = Map.empty\<rparr>
      [Open 3, Call 3 (Write [CHR ''a'', newline, CHR ''b''] 3) (Inr 3) []] y \<and>
    dev_cmds (core (driver y)) = [[CHR ''a'', newline]] \<and> dev_partial (core (driver y)) = [CHR ''b'']"
proof -
  let ?w = "[CHR ''a'', newline, CHR ''b'']" and ?d = "driver boot_system"
  obtain d1 where d1: "aesd_init_module ready_devices ?d = Some (0, d1)" using ready_init by blast
  let ?y = "\<lparr>driver = d1, files = Map.empty\<rparr>"
  have pre: "heap (core ?d) = Map.empty" "\<forall>n c. {Chrdev_Region n, Cdev n, Class c, Device c n} \<inter> held ?d = {}"
    by (simp_all add: boot_system_def boot_state_def)
  have inv: "dev_inv (core d1)" "\<not> lock (aesd_device (core d1))" "dev_partial (core d1) = []"
    using sys_inv_init [OF ready.kernel_devices_axioms pre d1]
    by (simp_all add: sys_inv_def log_of_def stream_log_def)
  obtain s' where s': "aesd_write quiet_kernel open_file ?w 3 0 (core d1) = Some (Inr 3, 0, s')"
    using aesd_write_served [of quiet_kernel "core d1" open_file 3 ?w 0] inv by auto
  have run: "driver_run quiet_kernel ?y [Open 3] (opened 3 ?y)" by (rule run_opened) simp
  obtain y where "driver_step quiet_kernel (opened 3 ?y) (Call 3 (Write ?w 3) (Inr 3) []) y"
    using step_call [of "opened 3 ?y" 3 open_file "Write ?w 3" quiet_kernel "Inr 3" "[]"] s'
    by (auto simp: opened_def fop_ok_def aesd_fops_def)
  from run_snoc [OF run this]
  have run': "driver_run quiet_kernel ?y [Open 3, Call 3 (Write ?w 3) (Inr 3) []] y" by simp
  show ?thesis
    using device_holds_newest_lines [OF ready.kernel_devices_axioms quiet_kernel(1) pre d1 run'] d1 run'
    by (intro exI [of _ d1] exI [of _ y]) (simp add: no_enomem_def accepted_def)
qed

text \<open>
  C5: The same with threads inside the handlers at once, in every interleaving of their steps, with
  any failures and signals: when no thread has the mutex, the device holds a stream of bytes to which
  the calls have added in the order in which they have taken effect (for a call that had the mutex,
  the order in which the handlers gave it back): an accepted write its bytes, a write answered
  \<^verbatim>\<open>ENOMEM\<close> all or none, other calls nothing. The newest ten of the lines moved are
  the commands, all complete lines have been moved unless memory was refused since the last accepted
  write, and without \<^verbatim>\<open>ENOMEM\<close> the stream is that of the accepted bytes.
\<close>

theorem threads_hold_newest_lines:
  assumes "kernel_devices D" and "kernel_allocator K"
    and "heap (core d) = Map.empty"
    and "\<forall>n c. {Chrdev_Region n, Cdev n, Class c, Device c n} \<inter> held d = {}"
    and "aesd_init_module D d = Some (0, d1)"
    and "thread_run K \<lparr>sys = \<lparr>driver = d1, files = Map.empty\<rparr>, activity = \<lambda>fd. Idle\<rparr> tr x"
    and "\<forall>fd. \<not> Driver_Threads.holds (activity x fd)"
  shows "(\<exists>bs k. stream_of (effects tr) bs \<and> k \<le> length (fst (split_lines bs)) \<and>
      (settled (effects tr) \<longrightarrow> k = length (fst (split_lines bs))) \<and>
      dev_cmds (device_of x) = last_n 10 (take k (fst (split_lines bs))) \<and>
      dev_partial (device_of x) = concat (drop k (fst (split_lines bs))) @ snd (split_lines bs)) \<and>
    (no_enomem (effects tr) \<longrightarrow>
      dev_cmds (device_of x) = last_n 10 (fst (split_lines (accepted (effects tr)))) \<and>
      dev_partial (device_of x) = snd (split_lines (accepted (effects tr))))"
proof -
  let ?y = "\<lparr>driver = d1, files = Map.empty\<rparr>"
  have inv: "sys_inv ?y" and start: "log_of (core (driver ?y)) = stream_log []"
    using sys_inv_init [OF assms(1,3-5)] by simp_all
  from kernel_allocator.thread_run_refines [OF assms(2,6) conc_inv_idle [OF inv]]
  obtain a where a: "conc_inv K a x" "log_run K (abs_of ?y) (effects tr) a" by auto
  have "fst a = log_of (device_of x)" using a(1) assms(7) by (auto simp: conc_inv_def split: if_splits)
  then have "holds_stream (effects tr) (dev_cmds (device_of x)) (dev_partial (device_of x))"
    using run_holds_stream [OF a(2)] start by (simp add: log_of_def)
  from this [unfolded holds_stream_def] no_enomem_holds [OF this] show ?thesis by blast
qed

text \<open>A thread writes to file 3 through all its steps while one on file 4 waits for the mutex.\<close>

lemma contended_write:
  assumes inv: "sys_inv \<lparr>driver = d1, files = Map.empty\<rparr>" and part: "dev_partial (core d1) = []"
    and W: "W = Write [CHR ''a'', newline, CHR ''b''] 3" and R: "R = Read 8 (replicate 8 (CHR ''.''))"
  shows "\<exists>x. thread_run quiet_kernel \<lparr>sys = \<lparr>driver = d1, files = Map.empty\<rparr>, activity = \<lambda>fd. Idle\<rparr>
      [Effect (Open 3), Effect (Open 4), Invoked 3 W, Invoked 4 R, Effect (Call 3 W (Inr 3) []), mark.Returned 3 W (Inr 3) []] x \<and>
    activity x = (\<lambda>fd. Idle)(4 := Waiting R)"
proof -
  let ?K = quiet_kernel and ?s = "tick (dev_update (lock_update (\<lambda>_. True)) (core d1))"
  have free: "dev_inv (core d1)" "\<not> lock (aesd_device (core d1))" using inv by (simp_all add: sys_inv_def)
  define y where "y = opened 4 (opened 3 \<lparr>driver = d1, files = Map.empty\<rparr>)"
  have y: "files y 3 = Some open_file" "files y 4 = Some open_file" "core (driver y) = core d1"
    by (simp_all add: y_def opened_def)
  define x0 where "x0 = \<lparr>sys = \<lparr>driver = d1, files = Map.empty\<rparr>, activity = \<lambda>fd. Idle\<rparr>"
  define x1 where "x1 = \<lparr>sys = opened 3 \<lparr>driver = d1, files = Map.empty\<rparr>, activity = \<lambda>fd. Idle\<rparr>"
  define x2 where "x2 = \<lparr>sys = y, activity = \<lambda>fd. Idle\<rparr>"
  define x3 where "x3 = fd_goes 3 (Waiting W) x2"
  define x4 where "x4 = fd_goes 4 (Waiting R) x3"
  define x5 where "x5 = fd_goes 3 (Holding W Start) (x4\<lparr>sys := set_device ?s (sys x4)\<rparr>)"
  have "thread_step ?K x0 [Effect (Open 3)] (x0\<lparr>sys := (sys x0)\<lparr>files := (files (sys x0))(3 \<mapsto> open_file)\<rparr>\<rparr>)"
    by (rule t_open) (simp_all add: x0_def aesd_open_def open_file_def)
  then have s1: "thread_step ?K x0 [Effect (Open 3)] x1" by (simp add: x0_def x1_def opened_def)
  have "thread_step ?K x1 [Effect (Open 4)] (x1\<lparr>sys := (sys x1)\<lparr>files := (files (sys x1))(4 \<mapsto> open_file)\<rparr>\<rparr>)"
    by (rule t_open) (simp_all add: x1_def aesd_open_def open_file_def opened_def)
  then have s2: "thread_step ?K x1 [Effect (Open 4)] x2" by (simp add: x1_def x2_def y_def opened_def)
  have s3: "thread_step ?K x2 [Invoked 3 W] x3"
    unfolding x3_def by (rule t_call [where f = open_file]) (simp_all add: x2_def y fop_ok_def MAX_RW_COUNT_def W)
  have s4: "thread_step ?K x3 [Invoked 4 R] x4"
    unfolding x4_def by (rule t_call [where f = open_file]) (simp_all add: x2_def x3_def y fop_ok_def R)
  have locked: "mutex_lock_interruptible ?K (core d1) = Some (False, ?s)"
    using free by (simp add: mutex_lock_interruptible_def)
  have s5: "thread_step ?K x4 [] x5"
    unfolding x5_def by (rule t_lock) (use locked in \<open>simp_all add: x2_def x3_def x4_def y W\<close>)
  have run: "thread_run ?K x0 [Effect (Open 3), Effect (Open 4), Invoked 3 W, Invoked 4 R] x5"
    using threads_first [OF threads_first [OF threads_first [OF threads_first [OF threads_first
      [OF threads_start s5] s4] s3] s2] s1] by simp
  obtain l ps where "conc_inv ?K (l, ps) x5"
    using kernel_allocator.thread_run_refines [OF quiet_kernel(1) run [unfolded x0_def] conc_inv_idle [OF inv]] by auto
  from kernel_allocator.holder_finishes [OF quiet_kernel(1) this, of 3 W Start]
  obtain r out f' s' where fin: "rest_of ?K W open_file Start ?s = Some (r, out, f', s')"
    "thread_run ?K x5 [Effect (Call 3 W r out), mark.Returned 3 W r out]
      (fd_goes 3 Idle (x5\<lparr>sys := (set_device s' (sys x5))\<lparr>files := (files (sys x5))(3 \<mapsto> f')\<rparr>\<rparr>))"
    by (auto simp: finishes_def x2_def x3_def x4_def x5_def y)
  have "aesd_fops ?K W open_file (core d1) = Some (r, out, f', s')"
    using aesd_fops_pieces [OF _ _ locked, of W open_file] fin(1) by (simp add: W open_file_def)
  moreover obtain s'' where "aesd_write ?K open_file [CHR ''a'', newline, CHR ''b''] 3 0 (core d1) = Some (Inr 3, 0, s'')"
    using aesd_write_served [of ?K "core d1" open_file 3 "[CHR ''a'', newline, CHR ''b'']" 0] free part by auto
  ultimately have r: "r = Inr 3" "out = []" by (auto simp: aesd_fops_def W)
  from threads_append [OF fin(2) run] show ?thesis
    unfolding r by (intro exI conjI) (auto simp: x0_def x2_def x3_def x4_def x5_def fun_eq_iff)
qed

theorem threads_hold_newest_lines_witness:
  "\<exists>d1 x. aesd_init_module ready_devices (driver boot_system) = Some (0, d1) \<and>
    activity x = (\<lambda>fd. Idle)(4 := Waiting (Read 8 (replicate 8 (CHR ''.'')))) \<and>
    dev_cmds (device_of x) = [[CHR ''a'', newline]] \<and> dev_partial (device_of x) = [CHR ''b'']"
proof -
  let ?d = "driver boot_system" and ?W = "Write [CHR ''a'', newline, CHR ''b''] 3"
  obtain d1 where d1: "aesd_init_module ready_devices ?d = Some (0, d1)" using ready_init by blast
  have pre: "heap (core ?d) = Map.empty" "\<forall>n c. {Chrdev_Region n, Cdev n, Class c, Device c n} \<inter> held ?d = {}"
    by (simp_all add: boot_system_def boot_state_def)
  have "sys_inv \<lparr>driver = d1, files = Map.empty\<rparr>" "dev_partial (core d1) = []"
    using sys_inv_init [OF ready.kernel_devices_axioms pre d1]
    by (simp_all add: log_of_def stream_log_def)
  from contended_write [OF this refl refl]
  obtain x where run: "thread_run quiet_kernel \<lparr>sys = \<lparr>driver = d1, files = Map.empty\<rparr>, activity = \<lambda>fd. Idle\<rparr>
      [Effect (Open 3), Effect (Open 4), Invoked 3 ?W, Invoked 4 (Read 8 (replicate 8 (CHR ''.''))),
       Effect (Call 3 ?W (Inr 3) []), mark.Returned 3 ?W (Inr 3) []] x"
    and act: "activity x = (\<lambda>fd. Idle)(4 := Waiting (Read 8 (replicate 8 (CHR ''.''))))" by blast
  have "\<forall>fd. \<not> Driver_Threads.holds (activity x fd)" by (simp add: act)
  from threads_hold_newest_lines [OF ready.kernel_devices_axioms quiet_kernel(1) pre d1 run this] d1 act
  show ?thesis by (intro exI [of _ d1] exI [of _ x]) (simp add: no_enomem_def accepted_def)
qed

text \<open>
  C4: Between loading and unloading nothing is lost: after any run, with any failures of
  the kernel, unloading the module is defined, frees every block the driver has allocated
  and gives back exactly the registrations that loading made.
\<close>

theorem unload_after_any_run:
  assumes "kernel_devices D" and "kernel_allocator K"
    and "heap (core d) = Map.empty"
    and "\<forall>n c. {Chrdev_Region n, Cdev n, Class c, Device c n} \<inter> held d = {}"
    and "aesd_init_module D d = Some (0, d1)"
    and "driver_run K \<lparr>driver = d1, files = Map.empty\<rparr> tr y"
  shows "\<exists>d2. aesd_cleanup_module D (driver y) = Some d2 \<and> held d2 = held d \<and> heap (core d2) = Map.empty"
proof -
  have "sys_inv \<lparr>driver = d1, files = Map.empty\<rparr>" and "loaded D (held d) d1"
    using sys_inv_init [OF assms(1,3-5)] by simp_all
  then have "sys_inv y" "loaded D (held d) (driver y)"
    using kernel_allocator.run_refines [OF assms(2,6)] loaded_run [OF assms(6)] by simp_all
  then show ?thesis by (intro aesd_cleanup_module_correct) (simp_all add: sys_inv_def)
qed

theorem unload_after_any_run_witness:
  "\<exists>d1 d2. aesd_init_module ready_devices (driver boot_system) = Some (0, d1) \<and>
    aesd_cleanup_module ready_devices (driver (opened 3 \<lparr>driver = d1, files = Map.empty\<rparr>)) = Some d2 \<and>
    held d2 = {} \<and> heap (core d2) = Map.empty"
proof -
  let ?d = "driver boot_system"
  obtain d1 where d1: "aesd_init_module ready_devices ?d = Some (0, d1)" using ready_init by blast
  have pre: "heap (core ?d) = Map.empty" "\<forall>n c. {Chrdev_Region n, Cdev n, Class c, Device c n} \<inter> held ?d = {}"
    by (simp_all add: boot_system_def boot_state_def)
  have "driver_run quiet_kernel \<lparr>driver = d1, files = Map.empty\<rparr> [Open 3] (opened 3 \<lparr>driver = d1, files = Map.empty\<rparr>)"
    by (rule run_opened) simp
  from unload_after_any_run [OF ready.kernel_devices_axioms quiet_kernel(1) pre d1 this] d1
  show ?thesis by (auto simp: boot_system_def)
qed

text \<open>
  C23: A read after a successful \<^verbatim>\<open>AESDCHAR_IOCSEEKTO\<close> of command \<open>c\<close> and offset \<open>o\<close> returns
  the rest of that command from byte \<open>o\<close> on, and then the commands after it.
\<close>

theorem read_after_ioctl_seek:
  assumes "dev_inv s" and "\<not> lock (aesd_device s)" and "private_data filep = Some ()"
    and "\<forall>t. \<not> signalled K t"
    and "unat (write_cmd sk) < length (dev_cmds s)"
    and "unat (write_cmd_offset sk) < length (dev_cmds s ! unat (write_cmd sk))"
    and "rest = drop (unat (write_cmd_offset sk)) (dev_cmds s ! unat (write_cmd sk)) @
        concat (drop (Suc (unat (write_cmd sk))) (dev_cmds s))"
    and "length rest \<le> unat count" and "unat count \<le> length ubuf"
  shows "\<exists>filep' s' pos s''. aesd_ioctl K filep (AESDCHAR_IOCSEEKTO K) (Some sk) s = Some (Inr 0, filep', s') \<and>
    aesd_read K filep' ubuf count (f_pos filep') s' =
      Some (Inr (of_nat (length rest)), rest @ drop (length rest) ubuf, pos, s'')"
proof -
  let ?c = "unat (write_cmd sk)" and ?o = "unat (write_cmd_offset sk)"
  let ?n = "length (concat (take ?c (dev_cmds s))) + ?o"
  let ?f = "filep\<lparr>f_pos := of_nat ?n\<rparr>"
  obtain s' where s': "aesd_ioctl K filep (AESDCHAR_IOCSEEKTO K) (Some sk) s = Some (Inr 0, ?f, s')"
    "same_device s s'" "\<not> lock (aesd_device s')"
    using aesd_ioctl_correct [OF assms(1-3), of K sk] assms(4-6) by auto
  have dtext: "dev_text s = concat (take ?c (dev_cmds s)) @ dev_cmds s ! ?c @ concat (drop (Suc ?c) (dev_cmds s))"
    using id_take_nth_drop [OF assms(5)] unfolding dev_text_def by (metis concat.simps(2) concat_append)
  have "?n \<le> length (dev_text s)" using assms(6) by (simp add: dtext)
  then have n: "unat (of_nat ?n :: u64) = ?n"
    using length_dev_text [OF assms(1)] by (intro unat_of_nat_u64) simp
  have same: "dev_inv s'" "dev_text s' = dev_text s" using s'(2) by (simp_all add: same_device_def dev_text_def)
  have "drop ?n (dev_text s) = rest" using assms(6,7) by (simp add: dtext)
  then have "rest = take (unat count) (drop (unat (f_pos ?f)) (dev_text s'))"
    using same n assms(8) by simp
  from aesd_read_correct [OF same(1) s'(3) _ _ this, of ?f K ubuf] assms(3,4,8,9) s'(1) show ?thesis
    by auto
qed

theorem read_after_ioctl_seek_witness:
  "\<exists>s filep' s' pos s''. dev_cmds s = [[CHR ''a'', CHR ''b'', newline]] \<and>
    aesd_ioctl quiet_kernel open_file (AESDCHAR_IOCSEEKTO quiet_kernel)
      (Some \<lparr>write_cmd = 0, write_cmd_offset = 1\<rparr>) s = Some (Inr 0, filep', s') \<and>
    aesd_read quiet_kernel filep' ''xyz'' 3 (f_pos filep') s' = Some (Inr 2, [CHR ''b'', newline, CHR ''z''], pos, s'')"
proof -
  obtain s where s: "dev_inv s" "\<not> lock (aesd_device s)" "dev_cmds s = [[CHR ''a'', CHR ''b'', newline]]"
  proof -
    have "\<exists>s'. aesd_write quiet_kernel open_file [CHR ''a'', CHR ''b'', newline] 3 0 boot_state = Some (Inr 3, 0, s') \<and>
        \<not> lock (aesd_device s') \<and> dev_inv s' \<and> dev_cmds s' = [[CHR ''a'', CHR ''b'', newline]] \<and> dev_partial s' = []"
      using aesd_write_served [of quiet_kernel boot_state open_file 3 "[CHR ''a'', CHR ''b'', newline]" 0] by simp
    then show ?thesis using that by blast
  qed
  have "\<exists>filep' s' pos s''. aesd_ioctl quiet_kernel open_file (AESDCHAR_IOCSEEKTO quiet_kernel)
      (Some \<lparr>write_cmd = 0, write_cmd_offset = 1\<rparr>) s = Some (Inr 0, filep', s') \<and>
    aesd_read quiet_kernel filep' ''xyz'' 3 (f_pos filep') s' =
      Some (Inr (of_nat (length [CHR ''b'', newline])), [CHR ''b'', newline] @ drop (length [CHR ''b'', newline]) ''xyz'', pos, s'')"
    by (rule read_after_ioctl_seek [OF s(1,2)]) (simp_all add: s(3))
  then obtain filep' s' pos s'' where "aesd_ioctl quiet_kernel open_file (AESDCHAR_IOCSEEKTO quiet_kernel)
      (Some \<lparr>write_cmd = 0, write_cmd_offset = 1\<rparr>) s = Some (Inr 0, filep', s')"
    "aesd_read quiet_kernel filep' ''xyz'' 3 (f_pos filep') s' = Some (Inr 2, [CHR ''b'', newline, CHR ''z''], pos, s'')"
    by (elim exE conjE) simp
  then show ?thesis using s(3) by (intro exI conjI)
qed

end
